(* ===== verification/Parapet_Prelude.thy ===== *)
theory Parapet_Prelude
  imports Main "HOL-Library.Word" "HOL-Library.Signed_Division"
begin

text \<open>
  Shared vocabulary of the development: names for the machine types of the Go sources, the
  wrap-around of \<^verbatim>\<open>int64\<close> arithmetic, Go's truncating division with its run-time panic, the
  doubling loop three load balancers use for their back-off, and the rotation of indices every
  round-robin balancer scans.

  Conventions used by every theory. A clock reading (\<^verbatim>\<open>time.Now().UnixNano()\<close>) is an argument
  of the operation that takes it. A run-time panic is \<open>None\<close>; an operation that cannot panic
  returns its value directly. An \<^verbatim>\<open>error\<close> result is a value of a datatype. A Go string is a
  list of bytes, the type \<open>string\<close>.
\<close>

named_theorems go_arith \<open>evaluation and range facts for Go's fixed-width arithmetic\<close>
named_theorems upd_simps \<open>what an operation of a component does to each field of its state\<close>

type_synonym u32 = "32 word"
type_synonym u64 = "64 word"
type_synonym nanos = int

section \<open>Fixed-width signed arithmetic\<close>

text \<open>
  \<^verbatim>\<open>int64\<close> (also \<^verbatim>\<open>time.Duration\<close> and, on the supported platforms, \<^verbatim>\<open>int\<close>) and
  \<^verbatim>\<open>int32\<close> values are integers; the wrap-around is written where an operation can reach it.
\<close>

definition s64 :: "int \<Rightarrow> int" where
  "s64 x = (x + 2 ^ 63) mod 2 ^ 64 - 2 ^ 63"

definition s32 :: "int \<Rightarrow> int" where
  "s32 x = (x + 2 ^ 31) mod 2 ^ 32 - 2 ^ 31"

definition in64 :: "int \<Rightarrow> bool" where
  "in64 x \<longleftrightarrow> - (2 ^ 63) \<le> x \<and> x < 2 ^ 63"

lemma s64_id [go_arith]: "in64 x \<Longrightarrow> s64 x = x"
  by (simp add: s64_def in64_def)

lemma in64_s64 [go_arith, simp]: "in64 (s64 x)"
  by (auto simp: s64_def in64_def intro: order.strict_trans2 [OF pos_mod_bound])

lemma s32_id [go_arith]: "- (2 ^ 31) \<le> x \<Longrightarrow> x < 2 ^ 31 \<Longrightarrow> s32 x = x"
  by (simp add: s32_def)

text \<open>Go's \<^verbatim>\<open>a / b\<close> on signed integers truncates towards zero and panics on a zero divisor.\<close>

definition go_quot :: "int \<Rightarrow> int \<Rightarrow> int option" where
  "go_quot a b = (if b = 0 then None else Some (a sdiv b))"

definition go_rem :: "int \<Rightarrow> int \<Rightarrow> int option" where
  "go_rem a b = (if b = 0 then None else Some (a smod b))"

lemma sdiv_pos [go_arith]: "0 \<le> (a::int) \<Longrightarrow> 0 < b \<Longrightarrow> a sdiv b = a div b"
  by (cases "a = 0") (simp_all add: signed_divide_int_def)

lemma smod_pos [go_arith]: "0 \<le> (a::int) \<Longrightarrow> 0 < b \<Longrightarrow> a smod b = a mod b"
  by (cases "a = 0") (simp_all add: signed_modulo_int_def)

lemma s32_small: "- (2 ^ 31) \<le> x \<Longrightarrow> x < 2 ^ 31 \<Longrightarrow> s32 x = x"
  by (simp add: s32_def)

section \<open>Doubling with a cap\<close>

text \<open>
  The loop \<^verbatim>\<open>for i := int32(1); i < g && d < max; i++ { d *= 2 }\<close> shared by the circuit breaker
  and the two ejecting balancers; \<open>k\<close> is the number of iterations \<open>i\<close> still allows. The
  product wraps as \<^verbatim>\<open>int64\<close> does.
\<close>

fun double_loop :: "nat \<Rightarrow> int \<Rightarrow> int \<Rightarrow> int" where
  "double_loop 0 cap d = d"
| "double_loop (Suc k) cap d = (if d < cap then double_loop k cap (s64 (d * 2)) else d)"

definition backoff :: "int \<Rightarrow> int \<Rightarrow> int \<Rightarrow> int" where
  "backoff base cap g =
     (let d = double_loop (nat (g - 1)) cap base
      in if d \<le> 0 \<or> d > cap then cap else d)"

text \<open>
  A cap of at most \<open>2 ^ 62\<close> nanoseconds (146 years) keeps the product inside \<^verbatim>\<open>int64\<close>, and the
  loop is then the closed form: base doubled per repeat, capped.
\<close>

lemma double_loop_min:
  assumes "0 < d" and "d \<le> cap" and "cap \<le> 2 ^ 62"
  shows "min cap (double_loop k cap d) = min cap (d * 2 ^ k) \<and> 0 < double_loop k cap d"
  using assms
proof (induction k arbitrary: d)
  case 0
  then show ?case by simp
next
  case (Suc k)
  show ?case
  proof (cases "d < cap")
    case False
    with Suc.prems have "d = cap" by simp
    moreover have "cap * 1 \<le> cap * 2 ^ Suc k"
      using Suc.prems by (intro mult_left_mono one_le_power) simp_all
    ultimately show ?thesis using Suc.prems by simp
  next
    case True
    with Suc.prems have s: "s64 (d * 2) = d * 2" by (simp add: s64_id in64_def)
    show ?thesis
    proof (cases "d * 2 \<le> cap")
      case True
      with Suc.prems \<open>d < cap\<close> s show ?thesis
        using Suc.IH [of "d * 2"] by (simp add: mult.assoc)
    next
      case False
      have stop: "double_loop k cap (d * 2) = d * 2"
        using False by (cases k) simp_all
      have "d * 2 * 1 \<le> d * 2 * 2 ^ k"
        using Suc.prems by (intro mult_left_mono one_le_power) simp_all
      with False have "cap \<le> d * 2 ^ Suc k"
        by simp
      with False stop s \<open>d < cap\<close> Suc.prems(1) show ?thesis
        by (simp add: min_def)
    qed
  qed
qed

lemma backoff_closed:
  assumes "0 < base" and "base \<le> cap" and "cap \<le> 2 ^ 62" and "1 \<le> g"
  shows "backoff base cap g = min cap (base * 2 ^ nat (g - 1))"
  using double_loop_min [OF assms(1-3), of "nat (g - 1)"]
  by (auto simp: backoff_def Let_def min_def split: if_splits)

lemma backoff_bounds:
  assumes "0 < base" and "base \<le> cap" and "cap \<le> 2 ^ 62" and "1 \<le> g"
  shows "base \<le> backoff base cap g" and "backoff base cap g \<le> cap" and "0 < backoff base cap g"
proof -
  have "base * 1 \<le> base * 2 ^ nat (g - 1)"
    using assms by (intro mult_left_mono) simp_all
  then show "base \<le> backoff base cap g" and "backoff base cap g \<le> cap"
    using assms by (simp_all add: backoff_closed)
  then show "0 < backoff base cap g" using assms by simp
qed

lemma backoff_range:
  assumes "0 < base" and "base \<le> cap" and "cap \<le> 2 ^ 62"
  shows "base \<le> backoff base cap g" and "backoff base cap g \<le> cap"
proof -
  have "base \<le> backoff base cap g \<and> backoff base cap g \<le> cap"
  proof (cases "1 \<le> g")
    case True
    with backoff_bounds [OF assms] show ?thesis by blast
  next
    case False
    with assms show ?thesis by (simp add: backoff_def)
  qed
  then show "base \<le> backoff base cap g" and "backoff base cap g \<le> cap" by simp_all
qed

section \<open>The rotation a round-robin balancer scans\<close>

text \<open>
  \<^verbatim>\<open>idx := (start + k) % uint32(n)\<close> for \<^verbatim>\<open>k\<close> from 0 below \<^verbatim>\<open>uint32(n)\<close>: the addition
  is a \<^verbatim>\<open>uint32\<close> addition, so it wraps once the cursor is close to its maximum.
\<close>

definition rr_idx :: "u32 \<Rightarrow> nat \<Rightarrow> nat \<Rightarrow> nat" where
  "rr_idx start n k = unat ((start + of_nat k) mod (of_nat n :: u32))"

definition rr_order :: "u32 \<Rightarrow> nat \<Rightarrow> nat list" where
  "rr_order start n = map (rr_idx start n) [0..<unat (of_nat n :: u32)]"

text \<open>\<^verbatim>\<open>idx := uint32((uint64(start) + uint64(k)) % uint64(n))\<close>: the same rotation without wrap.\<close>

definition rr_order64 :: "u32 \<Rightarrow> nat \<Rightarrow> nat list" where
  "rr_order64 start n = map (\<lambda>k. (unat start + k) mod n) [0..<n]"

lemma length_rr_order [simp]: "n < 2 ^ 32 \<Longrightarrow> length (rr_order start n) = n"
  by (simp add: rr_order_def unat_of_nat)

lemma rr_idx_less: "0 < n \<Longrightarrow> n < 2 ^ 32 \<Longrightarrow> rr_idx start n k < n"
  by (simp add: rr_idx_def unat_mod_distrib unat_of_nat)

lemma set_rr_order_subset: "n < 2 ^ 32 \<Longrightarrow> set (rr_order start n) \<subseteq> {..<n}"
  by (cases "n = 0") (auto simp: rr_order_def rr_idx_less)

lemma set_rr_order64: "set (rr_order64 start n) = {..<n}"
proof
  show "set (rr_order64 start n) \<subseteq> {..<n}"
    by (cases "n = 0") (auto simp: rr_order64_def)
next
  show "{..<n} \<subseteq> set (rr_order64 start n)"
  proof
    fix j assume "j \<in> {..<n}"
    then have j: "j < n" by simp
    let ?s = "unat start mod n"
    let ?k = "(j + (n - ?s)) mod n"
    have "?s < n" using j by simp
    have "(unat start + ?k) mod n = (?s + (j + (n - ?s))) mod n"
      by (simp add: mod_simps)
    also have "\<dots> = (j + n) mod n"
      using \<open>?s < n\<close> by simp
    also have "\<dots> = j" using j by simp
    finally have "(unat start + ?k) mod n = j" .
    moreover have "?k < n" using j by simp
    ultimately show "j \<in> set (rr_order64 start n)"
      by (force simp: rr_order64_def)
  qed
qed

text \<open>
  The \<^verbatim>\<open>uint32\<close> scan is the unwrapped one, and so visits every index, unless the cursor is in
  the last \<open>n\<close> values before it wraps.
\<close>

lemma rr_order_eq_64:
  assumes "n < 2 ^ 32" and "unat start + n \<le> 2 ^ 32"
  shows "rr_order start n = rr_order64 start n"
proof -
  have "rr_idx start n k = (unat start + k) mod n" if "k < n" for k
  proof -
    have k: "unat (of_nat k :: u32) = k"
      using that assms by (simp add: unat_of_nat)
    have "unat (start + of_nat k) = unat start + k"
      using that assms k by (simp add: unat_word_ariths)
    then show ?thesis
      using assms by (simp add: rr_idx_def unat_mod_distrib unat_of_nat)
  qed
  then show ?thesis
    using assms by (simp add: rr_order_def rr_order64_def unat_of_nat)
qed

lemma set_rr_order:
  assumes "n < 2 ^ 32" and "unat start + n \<le> 2 ^ 32"
  shows "set (rr_order start n) = {..<n}"
  using assms by (simp add: rr_order_eq_64 set_rr_order64)

lemma rr_order_Cons:
  assumes "0 < n" and "n < 2 ^ 32"
  shows "\<exists>js. rr_order start n = unat (start mod of_nat n) # js"
proof -
  have "[0..<n] = 0 # [1..<n]" using assms by (simp add: upt_conv_Cons)
  then show ?thesis using assms by (simp add: rr_order_def rr_idx_def unat_of_nat)
qed

section \<open>Lists\<close>

lemma find_Some_set: "List.find P xs = Some x \<Longrightarrow> x \<in> set xs \<and> P x"
  by (auto simp: find_Some_iff)

lemma count_list_distinct: "distinct xs \<Longrightarrow> x \<in> set xs \<Longrightarrow> count_list xs x = 1"
  by (induction xs) (auto simp: count_list_0_iff)

lemma sum_list_update_int:
  "i < length xs \<Longrightarrow> sum_list (xs[i := (v::int)]) = sum_list xs - xs ! i + v"
  by (induction xs arbitrary: i) (auto split: nat.splits)

end
