(* ===== verification/Ratelimit_Strategy.thy ===== *)
theory Ratelimit_Strategy
  imports Parapet_Prelude
begin

text \<open>
  Package \<^verbatim>\<open>pkg/ratelimit\<close>: the \<^verbatim>\<open>Strategy\<close> interface and the \<^verbatim>\<open>RateLimiter\<close> middleware
  that drives it (\<^verbatim>\<open>ratelimit.go\<close>, \<^verbatim>\<open>observe.go\<close>).

  A strategy is a record of its three methods over a state type. The middleware is written over
  any strategy, as in the source; what it relies on is the locale \<open>strategy\<close>, which every
  shipped strategy interprets in its own theory. The wrapped handler is a list of the calls it
  makes on its response writer followed by a return or a panic.
\<close>

record 's Strategy =
  Take :: "'s \<Rightarrow> nanos \<Rightarrow> string \<Rightarrow> (bool \<times> 's) option"
  Put :: "'s \<Rightarrow> string \<Rightarrow> 's option"
  After :: "'s \<Rightarrow> nanos \<Rightarrow> string \<Rightarrow> int option"

datatype Result = ResultAllowed | ResultLimited

definition Result_String :: "Result \<Rightarrow> string" where
  "Result_String r = (case r of ResultAllowed \<Rightarrow> ''allowed'' | ResultLimited \<Rightarrow> ''limited'')"

record Event =
  ev_Name :: string
  ev_Result :: Result

section \<open>The response writer of the slow path\<close>

record responseWriter =
  rw_key :: string
  wroteHeader :: bool
  released :: bool
  releaseOnWriteHeader :: bool
  releaseOnHijack :: bool

text \<open>What the handler does with its response writer.\<close>

datatype rw_call = CallWriteHeader int | CallWrite string | CallFlush | CallPush string | CallHijack

text \<open>What reaches the wrapped writer.\<close>

datatype client_out = OutHeader int | OutBody string | OutFlush | OutPush string | OutHijack

text \<open>The optional interfaces the wrapped writer implements.\<close>

record client_caps =
  is_Flusher :: bool
  is_Pusher :: bool
  is_Hijacker :: bool

definition release :: "'s Strategy \<Rightarrow> responseWriter \<Rightarrow> 's \<Rightarrow> (responseWriter \<times> 's) option" where
  "release S w s =
     (if released w then Some (w, s)
      else case Put S s (rw_key w) of
             None \<Rightarrow> None
           | Some s' \<Rightarrow> Some (w\<lparr>released := True\<rparr>, s'))"

definition rw_WriteHeader ::
  "'s Strategy \<Rightarrow> int \<Rightarrow> responseWriter \<Rightarrow> 's \<Rightarrow> (responseWriter \<times> 's \<times> client_out list) option"
where
  "rw_WriteHeader S code w s =
     (if wroteHeader w then Some (w, s, [])
      else let w1 = w\<lparr>wroteHeader := True\<rparr>
           in if releaseOnWriteHeader w1
              then (case release S w1 s of
                      None \<Rightarrow> None
                    | Some (w2, s2) \<Rightarrow> Some (w2, s2, [OutHeader code]))
              else Some (w1, s, [OutHeader code]))"

fun rw_do ::
  "'s Strategy \<Rightarrow> client_caps \<Rightarrow> rw_call \<Rightarrow> responseWriter \<Rightarrow> 's
     \<Rightarrow> (responseWriter \<times> 's \<times> client_out list) option"
where
  "rw_do S c (CallWriteHeader code) w s = rw_WriteHeader S code w s"
| "rw_do S c (CallWrite p) w s =
     (if wroteHeader w then Some (w, s, [OutBody p])
      else case rw_WriteHeader S 200 w s of
             None \<Rightarrow> None
           | Some (w', s', out) \<Rightarrow> Some (w', s', out @ [OutBody p]))"
| "rw_do S c CallFlush w s = Some (w, s, if is_Flusher c then [OutFlush] else [])"
| "rw_do S c (CallPush t) w s = Some (w, s, if is_Pusher c then [OutPush t] else [])"
| "rw_do S c CallHijack w s =
     (if is_Hijacker c
      then if releaseOnHijack w
           then (case release S w s of
                   None \<Rightarrow> None
                 | Some (w', s') \<Rightarrow> Some (w', s', [OutHijack]))
           else Some (w, s, [OutHijack])
      else Some (w, s, []))"

fun rw_run ::
  "'s Strategy \<Rightarrow> client_caps \<Rightarrow> rw_call list \<Rightarrow> responseWriter \<Rightarrow> 's
     \<Rightarrow> (responseWriter \<times> 's \<times> client_out list) option"
where
  "rw_run S c [] w s = Some (w, s, [])"
| "rw_run S c (x # xs) w s =
     (case rw_do S c x w s of
        None \<Rightarrow> None
      | Some (w', s', out) \<Rightarrow>
          (case rw_run S c xs w' s' of
             None \<Rightarrow> None
           | Some (w'', s'', out') \<Rightarrow> Some (w'', s'', out @ out')))"

section \<open>The middleware\<close>

record RateLimiter =
  rl_Name :: string
  rl_observes :: bool
  ReleaseOnWriteHeader :: bool
  ReleaseOnHijacked :: bool

text \<open>
  The outcome of one request: denied, with the value \<^verbatim>\<open>After\<close> handed to the exceeded handler,
  or served, with what reached the client. \<open>Events\<close> is what the \<^verbatim>\<open>Observe\<close> hook received.
\<close>

datatype served = Denied int | Served "client_out list"

definition observe :: "RateLimiter \<Rightarrow> Result \<Rightarrow> Event list" where
  "observe m r = (if rl_observes m then [\<lparr>ev_Name = rl_Name m, ev_Result = r\<rparr>] else [])"

text \<open>
  The fast path hands the client's writer to the handler unwrapped, so every call passes through.
\<close>

definition pass_through :: "client_caps \<Rightarrow> rw_call \<Rightarrow> client_out list" where
  "pass_through c x =
     (case x of
        CallWriteHeader code \<Rightarrow> [OutHeader code]
      | CallWrite p \<Rightarrow> [OutBody p]
      | CallFlush \<Rightarrow> (if is_Flusher c then [OutFlush] else [])
      | CallPush t \<Rightarrow> (if is_Pusher c then [OutPush t] else [])
      | CallHijack \<Rightarrow> (if is_Hijacker c then [OutHijack] else []))"

text \<open>
  One request through \<^verbatim>\<open>ServeHandler\<close>. \<open>now\<close> and \<open>now'\<close> are the clock at \<^verbatim>\<open>Take\<close> and at
  \<^verbatim>\<open>After\<close>; \<open>calls\<close> is what the handler does before it returns or panics: the deferred
  \<^verbatim>\<open>Put\<close> or \<^verbatim>\<open>release\<close> runs either way.
\<close>

definition serve_request ::
  "'s Strategy \<Rightarrow> RateLimiter \<Rightarrow> client_caps \<Rightarrow> nanos \<Rightarrow> nanos \<Rightarrow> string \<Rightarrow> rw_call list \<Rightarrow> 's
     \<Rightarrow> (served \<times> Event list \<times> 's) option"
where
  "serve_request S m c now now' key calls s =
     (case Take S s now key of
        None \<Rightarrow> None
      | Some (False, s1) \<Rightarrow>
          (case After S s1 now' key of
             None \<Rightarrow> None
           | Some d \<Rightarrow> Some (Denied d, observe m ResultLimited, s1))
      | Some (True, s1) \<Rightarrow>
          if \<not> ReleaseOnWriteHeader m \<and> \<not> ReleaseOnHijacked m
          then (case Put S s1 key of
                  None \<Rightarrow> None
                | Some s2 \<Rightarrow>
                    Some (Served (concat (map (pass_through c) calls)), observe m ResultAllowed, s2))
          else let w = \<lparr>rw_key = key, wroteHeader = False, released = False,
                        releaseOnWriteHeader = ReleaseOnWriteHeader m,
                        releaseOnHijack = ReleaseOnHijacked m\<rparr>
               in case rw_run S c calls w s1 of
                    None \<Rightarrow> None
                  | Some (w', s2, out) \<Rightarrow>
                      (case release S w' s2 of
                         None \<Rightarrow> None
                       | Some (_, s3) \<Rightarrow> Some (Served out, observe m ResultAllowed, s3)))"

text \<open>The default exceeded handler: a \<^verbatim>\<open>Retry-After\<close> in whole seconds, then 429.\<close>

definition defaultExceededHandler :: "int \<Rightarrow> int option \<times> int" where
  "defaultExceededHandler after =
     (if after > 0 then Some (after sdiv 1000000000) else None, 429)"

definition defaultKey :: "'r \<Rightarrow> string" where
  "defaultKey _ = []"

section \<open>Sequences of Take calls\<close>

text \<open>
  The mutex of every strategy serialises its calls, so a concurrent load is a sequence of
  \<^verbatim>\<open>Take\<close> calls, each with its clock reading and key; the answers come back in order.
\<close>

fun take_run :: "'s Strategy \<Rightarrow> 's \<Rightarrow> (nanos \<times> string) list \<Rightarrow> (bool list \<times> 's) option" where
  "take_run S s [] = Some ([], s)"
| "take_run S s ((t, k) # evs) =
     (case Take S s t k of
        None \<Rightarrow> None
      | Some (b, s1) \<Rightarrow>
          (case take_run S s1 evs of
             None \<Rightarrow> None
           | Some (bs, s2) \<Rightarrow> Some (b # bs, s2)))"

definition calls_of :: "string \<Rightarrow> (nanos \<times> string) list \<Rightarrow> nat" where
  "calls_of k evs = length (filter (\<lambda>(t, k'). k' = k) evs)"

definition admitted :: "string \<Rightarrow> (nanos \<times> string) list \<Rightarrow> bool list \<Rightarrow> nat" where
  "admitted k evs bs = length (filter (\<lambda>((t, k'), b). b \<and> k' = k) (zip evs bs))"

lemma calls_of_simps [simp]:
  "calls_of k [] = 0"
  "calls_of k ((t, k') # evs) = (if k' = k then Suc (calls_of k evs) else calls_of k evs)"
  by (simp_all add: calls_of_def)

lemma admitted_simps [simp]:
  "admitted k [] bs = 0"
  "admitted k ((t, k') # evs) (b # bs) = (if b \<and> k' = k then 1 else 0) + admitted k evs bs"
  by (simp_all add: admitted_def)

section \<open>The contract of a strategy\<close>

text \<open>
  What the middleware relies on. \<open>invar\<close> is the strategy's own invariant; \<open>clock_ok s t\<close> says
  when the strategy may be called at time \<open>t\<close> (it depends on the configuration only, so no
  operation changes it). No call panics and \<^verbatim>\<open>After\<close> never asks for a negative wait.
\<close>

locale strategy =
  fixes S :: "'s Strategy"
    and invar :: "'s \<Rightarrow> bool"
    and clock_ok :: "'s \<Rightarrow> nanos \<Rightarrow> bool"
  assumes Take_total: "invar s \<Longrightarrow> clock_ok s now \<Longrightarrow> \<exists>b s'. Take S s now k = Some (b, s')"
    and Take_invar: "invar s \<Longrightarrow> clock_ok s now \<Longrightarrow> Take S s now k = Some (b, s') \<Longrightarrow> invar s'"
    and Take_clock: "Take S s now k = Some (b, s') \<Longrightarrow> clock_ok s' t \<longleftrightarrow> clock_ok s t"
    and Put_total: "invar s \<Longrightarrow> \<exists>s'. Put S s k = Some s'"
    and Put_invar: "invar s \<Longrightarrow> Put S s k = Some s' \<Longrightarrow> invar s'"
    and Put_clock: "Put S s k = Some s' \<Longrightarrow> clock_ok s' t \<longleftrightarrow> clock_ok s t"
    and After_total: "invar s \<Longrightarrow> clock_ok s now \<Longrightarrow> \<exists>d \<ge> 0. After S s now k = Some d"
begin

lemma release_total:
  assumes "invar s"
  shows "\<exists>w' s'. release S w s = Some (w', s') \<and> invar s' \<and> released w'
           \<and> rw_key w' = rw_key w \<and> (\<forall>t. clock_ok s' t = clock_ok s t)"
  using assms Put_total [of s "rw_key w"] Put_invar Put_clock
  by (fastforce simp: release_def)

lemma rw_WriteHeader_total:
  assumes "invar s"
  shows "\<exists>w' s' out. rw_WriteHeader S code w s = Some (w', s', out) \<and> invar s'
           \<and> (\<forall>t. clock_ok s' t = clock_ok s t)"
  using assms release_total [OF assms, of "w\<lparr>wroteHeader := True\<rparr>"]
  by (auto simp: rw_WriteHeader_def Let_def)

lemma rw_do_total:
  assumes "invar s"
  shows "\<exists>w' s' out. rw_do S c x w s = Some (w', s', out) \<and> invar s'
           \<and> (\<forall>t. clock_ok s' t = clock_ok s t)"
proof (cases x)
  case (CallWriteHeader code)
  with rw_WriteHeader_total [OF assms] show ?thesis by simp
next
  case (CallWrite p)
  with rw_WriteHeader_total [OF assms, of 200 w] assms show ?thesis by auto
next
  case CallHijack
  with release_total [OF assms, of w] assms show ?thesis by auto
qed (use assms in auto)

lemma rw_run_total:
  assumes "invar s"
  shows "\<exists>w' s' out. rw_run S c xs w s = Some (w', s', out) \<and> invar s'
           \<and> (\<forall>t. clock_ok s' t = clock_ok s t)"
  using assms
proof (induction xs arbitrary: w s)
  case Nil
  then show ?case by simp
next
  case (Cons x xs)
  from rw_do_total [OF Cons.prems, of c x w] obtain w' s' out where
    1: "rw_do S c x w s = Some (w', s', out)" "invar s'" "\<forall>t. clock_ok s' t = clock_ok s t"
    by blast
  from Cons.IH [OF 1(2), of w'] 1 show ?case by fastforce
qed

text \<open>A request never panics in the limiter, keeps the invariant, and is observed.\<close>

lemma serve_request_total:
  assumes "invar s" and "clock_ok s now" and "clock_ok s now'"
  shows "\<exists>r evs s'. serve_request S m c now now' key calls s = Some (r, evs, s') \<and> invar s'
           \<and> (\<forall>t. clock_ok s' t = clock_ok s t) \<and> (\<forall>d. r = Denied d \<longrightarrow> 0 \<le> d)
           \<and> evs = observe m (case r of Denied _ \<Rightarrow> ResultLimited | Served _ \<Rightarrow> ResultAllowed)"
proof -
  from Take_total [OF assms(1,2)] obtain b s1 where t: "Take S s now key = Some (b, s1)" by blast
  with Take_invar assms have i1: "invar s1" by blast
  from t have c1: "clock_ok s1 u = clock_ok s u" for u by (rule Take_clock)
  show ?thesis
  proof (cases b)
    case False
    from After_total [OF i1] c1 assms obtain d where "0 \<le> d" "After S s1 now' key = Some d" by blast
    with False t i1 c1 show ?thesis by (simp add: serve_request_def)
  next
    case True
    show ?thesis
    proof (cases "\<not> ReleaseOnWriteHeader m \<and> \<not> ReleaseOnHijacked m")
      case fast: True
      from Put_total [OF i1] obtain s2 where p: "Put S s1 key = Some s2" by blast
      with Put_invar [OF i1 p] Put_clock [OF p] True t c1 fast show ?thesis
        by (simp add: serve_request_def)
    next
      case slow: False
      define w where "w = \<lparr>rw_key = key, wroteHeader = False, released = False,
                        releaseOnWriteHeader = ReleaseOnWriteHeader m,
                        releaseOnHijack = ReleaseOnHijacked m\<rparr>"
      from rw_run_total [OF i1, of c calls w] obtain w2 s2 out where
        r: "rw_run S c calls w s1 = Some (w2, s2, out)" "invar s2"
           "\<forall>t. clock_ok s2 t = clock_ok s1 t" by blast
      from release_total [OF r(2), of w2] obtain w3 s3 where
        "release S w2 s2 = Some (w3, s3)" "invar s3" "\<forall>t. clock_ok s3 t = clock_ok s2 t" by blast
      with r True t c1 slow show ?thesis
        by (auto simp: serve_request_def Let_def simp flip: w_def)
    qed
  qed
qed

end

text \<open>
  A strategy whose tokens are slots held by running requests: \<open>inflight s k\<close> is how many
  requests of key \<open>k\<close> hold one. \<open>owed\<close> is the count once the writer's token is given back.
\<close>

definition owed :: "('s \<Rightarrow> string \<Rightarrow> nat) \<Rightarrow> responseWriter \<Rightarrow> 's \<Rightarrow> string \<Rightarrow> nat" where
  "owed inflight w s =
     (if released w then inflight s
      else (inflight s)(rw_key w := inflight s (rw_key w) - 1))"

locale slot_strategy = strategy S invar clock_ok
  for S :: "'s Strategy" and invar :: "'s \<Rightarrow> bool" and clock_ok :: "'s \<Rightarrow> nanos \<Rightarrow> bool" +
  fixes inflight :: "'s \<Rightarrow> string \<Rightarrow> nat"
  assumes Take_True_slot:
      "invar s \<Longrightarrow> Take S s now k = Some (True, s')
         \<Longrightarrow> inflight s' = (inflight s)(k := Suc (inflight s k))"
    and Take_False_slot:
      "invar s \<Longrightarrow> Take S s now k = Some (False, s') \<Longrightarrow> inflight s' = inflight s"
    and Put_slot:
      "invar s \<Longrightarrow> Put S s k = Some s' \<Longrightarrow> inflight s' = (inflight s)(k := inflight s k - 1)"
begin

lemma release_slot:
  assumes "invar s" and "release S w s = Some (w', s')"
  shows "inflight s' = owed inflight w s \<and> owed inflight w' s' = owed inflight w s"
  using assms Put_slot
  by (auto simp: release_def owed_def split: if_splits option.splits)

lemma rw_WriteHeader_slot:
  assumes "invar s" and "rw_WriteHeader S code w s = Some (w', s', out)"
  shows "owed inflight w' s' = owed inflight w s"
proof -
  have "owed inflight (w\<lparr>wroteHeader := True\<rparr>) s = owed inflight w s" by (simp add: owed_def)
  with assms show ?thesis
    by (auto simp: rw_WriteHeader_def Let_def dest: release_slot split: if_splits option.splits)
qed

lemma rw_do_slot:
  assumes "invar s" and "rw_do S c x w s = Some (w', s', out)"
  shows "owed inflight w' s' = owed inflight w s"
proof (cases x)
  case (CallWriteHeader code)
  with assms show ?thesis by (simp add: rw_WriteHeader_slot)
next
  case (CallWrite p)
  with assms show ?thesis by (auto dest: rw_WriteHeader_slot split: if_splits option.splits)
next
  case CallHijack
  with assms show ?thesis by (auto dest: release_slot split: if_splits option.splits)
qed (use assms in auto)

lemma rw_run_slot:
  assumes "invar s" and "rw_run S c xs w s = Some (w', s', out)"
  shows "owed inflight w' s' = owed inflight w s"
  using assms
proof (induction xs arbitrary: w s out)
  case Nil
  then show ?case by simp
next
  case (Cons x xs)
  from Cons.prems(2) obtain w1 s1 o1 o2 where
    1: "rw_do S c x w s = Some (w1, s1, o1)" and 2: "rw_run S c xs w1 s1 = Some (w', s', o2)"
    by (auto split: option.splits)
  from rw_do_total [OF Cons.prems(1), of c x w] 1 have "invar s1" by simp
  from Cons.IH [OF this 2] rw_do_slot [OF Cons.prems(1) 1] show ?case by simp
qed

text \<open>
  Every admitted request gives its token back exactly once, whichever calls the handler makes
  and however it ends; a denied request holds none.
\<close>

lemma serve_request_balanced:
  assumes "invar s" and "clock_ok s now"
    and "serve_request S m c now now' key calls s = Some (r, evs, s')"
  shows "inflight s' = inflight s"
proof -
  from Take_total [OF assms(1,2)] obtain b s1 where t: "Take S s now key = Some (b, s1)" by blast
  with Take_invar assms have i1: "invar s1" by blast
  show ?thesis
  proof (cases b)
    case False
    with assms(3) t have "s' = s1" by (auto simp: serve_request_def split: option.splits)
    with False t assms(1) show ?thesis by (simp add: Take_False_slot)
  next
    case True
    with t assms(1) have tk: "inflight s1 = (inflight s)(key := Suc (inflight s key))"
      by (simp add: Take_True_slot)
    show ?thesis
    proof (cases "\<not> ReleaseOnWriteHeader m \<and> \<not> ReleaseOnHijacked m")
      case fast: True
      with assms(3) t True have "Put S s1 key = Some s'"
        by (auto simp: serve_request_def split: option.splits)
      with Put_slot [OF i1] tk show ?thesis by simp
    next
      case slow: False
      define w where "w = \<lparr>rw_key = key, wroteHeader = False, released = False,
                        releaseOnWriteHeader = ReleaseOnWriteHeader m,
                        releaseOnHijack = ReleaseOnHijacked m\<rparr>"
      from assms(3) t True slow obtain w2 s2 out w3 where
        r: "rw_run S c calls w s1 = Some (w2, s2, out)" and e: "release S w2 s2 = Some (w3, s')"
        by (auto simp: serve_request_def Let_def simp flip: w_def split: option.splits)
      from rw_run_total [OF i1, of c calls w] r have "invar s2" by simp
      from release_slot [OF this e] rw_run_slot [OF i1 r]
      have "inflight s' = owed inflight w s1" by simp
      with tk show ?thesis by (simp add: owed_def w_def)
    qed
  qed
qed

end

end
