(* ===== verification/Fixed_Window.thy ===== *)
theory Fixed_Window
  imports Ratelimit_Strategy
begin

text \<open>
  The fixed-window strategy (\<^verbatim>\<open>pkg/ratelimit/fixedwindow.go\<close>): its state, \<^verbatim>\<open>Take\<close>,
  \<^verbatim>\<open>Put\<close> and \<^verbatim>\<open>After\<close>, the proof that it is a \<open>strategy\<close>, the exact number of requests a
  window admits, and the honesty of the wait it reports.

  \<open>fw_storage\<close> is \<open>None\<close> for Go's nil map: reading it finds nothing, writing to it panics.
\<close>

record FixedWindowStrategy =
  fw_lastWindow :: int
  fw_storage :: "(string \<rightharpoonup> int) option"
  fw_Max :: int
  fw_Size :: int

definition FixedWindow :: "int \<Rightarrow> int \<Rightarrow> FixedWindowStrategy" where
  "FixedWindow rate unit =
     \<lparr>fw_lastWindow = 0, fw_storage = None, fw_Max = rate, fw_Size = unit\<rparr>"

definition fw_roll :: "int \<Rightarrow> FixedWindowStrategy \<Rightarrow> FixedWindowStrategy" where
  "fw_roll cw b =
     (if fw_lastWindow b \<noteq> cw
      then b\<lparr>fw_lastWindow := cw,
             fw_storage := (case fw_storage b of
                              None \<Rightarrow> Some Map.empty
                            | Some m \<Rightarrow> Some Map.empty)\<rparr>
      else b)"

definition fw_available :: "FixedWindowStrategy \<Rightarrow> string \<Rightarrow> int" where
  "fw_available b key =
     (case Option.bind (fw_storage b) (\<lambda>m. m key) of None \<Rightarrow> fw_Max b | Some a \<Rightarrow> a)"

definition fw_Take ::
  "FixedWindowStrategy \<Rightarrow> nanos \<Rightarrow> string \<Rightarrow> (bool \<times> FixedWindowStrategy) option"
where
  "fw_Take b now key =
     (case go_quot now (fw_Size b) of
        None \<Rightarrow> None
      | Some currentWindow \<Rightarrow>
          let b1 = fw_roll currentWindow b; available = fw_available b1 key
          in if available \<le> 0 then Some (False, b1)
             else case fw_storage b1 of
                    None \<Rightarrow> None
                  | Some m \<Rightarrow> Some (True, b1\<lparr>fw_storage := Some (m(key \<mapsto> available - 1))\<rparr>))"

definition fw_Put :: "FixedWindowStrategy \<Rightarrow> string \<Rightarrow> FixedWindowStrategy option" where
  "fw_Put b key = Some b"

definition fw_After :: "FixedWindowStrategy \<Rightarrow> nanos \<Rightarrow> string \<Rightarrow> int option" where
  "fw_After b now key =
     (case go_quot now (fw_Size b) of
        None \<Rightarrow> None
      | Some currentWindow \<Rightarrow>
          if fw_lastWindow b \<noteq> currentWindow then Some 0
          else case fw_storage b of
                 None \<Rightarrow> Some 0
               | Some m \<Rightarrow>
                   (case m key of
                      None \<Rightarrow> Some 0
                    | Some available \<Rightarrow>
                        if available > 0 then Some 0
                        else Some (s64 (s64 ((currentWindow + 1) * fw_Size b) - now))))"

definition fw_strategy :: "FixedWindowStrategy Strategy" where
  "fw_strategy = \<lparr>Take = fw_Take, Put = fw_Put, After = fw_After\<rparr>"

section \<open>Invariant and contract\<close>

definition fw_invar :: "FixedWindowStrategy \<Rightarrow> bool" where
  "fw_invar b \<longleftrightarrow>
     (fw_storage b = None \<longrightarrow> fw_lastWindow b = 0)
     \<and> (\<forall>m k v. fw_storage b = Some m \<longrightarrow> m k = Some v \<longrightarrow> 0 \<le> v \<and> v < fw_Max b)"

text \<open>The clock is past the first window and its reading plus one window fits \<^verbatim>\<open>int64\<close>.\<close>

definition fw_clock :: "FixedWindowStrategy \<Rightarrow> nanos \<Rightarrow> bool" where
  "fw_clock b now \<longleftrightarrow> 0 < fw_Size b \<and> fw_Size b \<le> now \<and> now + fw_Size b < 2 ^ 63"

lemma fw_window:
  assumes "fw_clock b now"
  shows "go_quot now (fw_Size b) = Some (now div fw_Size b)" and "1 \<le> now div fw_Size b"
proof -
  from assms have "0 \<le> now" "0 < fw_Size b" "fw_Size b \<le> now" by (simp_all add: fw_clock_def)
  then show "go_quot now (fw_Size b) = Some (now div fw_Size b)"
    by (simp add: go_quot_def sdiv_pos)
  from \<open>0 < fw_Size b\<close> \<open>fw_Size b \<le> now\<close> show "1 \<le> now div fw_Size b"
    by (simp add: pos_imp_zdiv_pos_iff int_one_le_iff_zero_less)
qed

lemma fw_roll_fields [upd_simps, simp]:
  "fw_Max (fw_roll w b) = fw_Max b" "fw_Size (fw_roll w b) = fw_Size b"
  "fw_lastWindow (fw_roll w b) = w"
  by (simp_all add: fw_roll_def)

lemma fw_roll_storage:
  assumes "fw_invar b" and "w \<noteq> 0"
  shows "\<exists>m. fw_storage (fw_roll w b) = Some m"
  using assms by (cases "fw_storage b") (auto simp: fw_roll_def fw_invar_def)

lemma fw_roll_invar: "fw_invar b \<Longrightarrow> fw_invar (fw_roll w b)"
  by (auto simp: fw_roll_def fw_invar_def split: option.splits)

lemma fw_roll_same: "fw_lastWindow b = w \<Longrightarrow> fw_roll w b = b"
  by (simp add: fw_roll_def)

lemma fw_available_le: "fw_invar b \<Longrightarrow> fw_available b k \<le> fw_Max b"
  by (fastforce simp: fw_available_def fw_invar_def bind_eq_Some_conv split: option.splits)

lemma fw_Take_eq:
  assumes "fw_invar b" and "fw_clock b now"
  shows "\<exists>m. fw_storage (fw_roll (now div fw_Size b) b) = Some m \<and>
    fw_Take b now k =
      (let b1 = fw_roll (now div fw_Size b) b
       in if fw_available b1 k \<le> 0 then Some (False, b1)
          else Some (True, b1\<lparr>fw_storage := Some (m(k \<mapsto> fw_available b1 k - 1))\<rparr>))"
proof -
  have "now div fw_Size b \<noteq> 0" using fw_window(2) [OF assms(2)] by simp
  then obtain m where "fw_storage (fw_roll (now div fw_Size b) b) = Some m"
    using fw_roll_storage [OF assms(1)] by blast
  then show ?thesis
    using fw_window(1) [OF assms(2)] by (simp add: fw_Take_def Let_def)
qed

lemma fw_update_invar:
  assumes "fw_invar b" and "fw_storage b = Some m" and "0 < fw_available b k"
  shows "fw_invar (b\<lparr>fw_storage := Some (m(k \<mapsto> fw_available b k - 1))\<rparr>)"
  using assms fw_available_le [OF assms(1), of k] by (auto simp: fw_invar_def)

lemma fw_After_bounds:
  assumes "fw_clock b now" and "fw_After b now k = Some d"
  shows "0 \<le> d \<and> d \<le> fw_Size b"
proof -
  let ?n = "fw_Size b" and ?w = "now div fw_Size b"
  from assms(1) have n: "0 < ?n" "now + ?n < 2 ^ 63" "?n \<le> now" by (simp_all add: fw_clock_def)
  have e: "(?w + 1) * ?n = now + (?n - now mod ?n)"
    by (simp add: algebra_simps flip: minus_mod_eq_mult_div)
  have r: "0 \<le> now mod ?n" "now mod ?n < ?n" using n by simp_all
  have s: "s64 (s64 ((?w + 1) * ?n) - now) = ?n - now mod ?n"
    unfolding e using n r by (simp add: s64_id in64_def)
  from assms(2) have "d = 0 \<or> d = s64 (s64 ((?w + 1) * ?n) - now)"
    by (auto simp: fw_After_def fw_window(1) [OF assms(1)] split: if_splits option.splits)
  then show ?thesis using s r n by (elim disjE) linarith+
qed

interpretation fw: strategy fw_strategy fw_invar fw_clock
proof
  fix b now k
  assume "fw_invar b" "fw_clock b now"
  from fw_Take_eq [OF this, of k] show "\<exists>r b'. Take fw_strategy b now k = Some (r, b')"
    by (auto simp: fw_strategy_def Let_def)
next
  fix b now k r b'
  assume a: "fw_invar b" "fw_clock b now" "Take fw_strategy b now k = Some (r, b')"
  from fw_Take_eq [OF a(1,2), of k] a(3) fw_update_invar fw_roll_invar [OF a(1)]
  show "fw_invar b'"
    by (fastforce simp: fw_strategy_def Let_def split: if_splits)
next
  fix b now k r b' t
  assume "Take fw_strategy b now k = Some (r, b')"
  then show "fw_clock b' t = fw_clock b t"
    by (auto simp: fw_strategy_def fw_Take_def Let_def fw_clock_def split: option.splits if_splits)
next
  fix b now k
  assume "fw_invar b" "fw_clock b now"
  from fw_window(1) [OF this(2)] have "\<exists>d. fw_After b now k = Some d"
    by (auto simp: fw_After_def split: option.splits)
  with fw_After_bounds [OF \<open>fw_clock b now\<close>]
  show "\<exists>d \<ge> 0. After fw_strategy b now k = Some d"
    by (auto simp: fw_strategy_def)
qed (auto simp: fw_strategy_def fw_Put_def)

section \<open>What a window admits\<close>

definition in_window :: "FixedWindowStrategy \<Rightarrow> int \<Rightarrow> (nanos \<times> string) list \<Rightarrow> bool" where
  "in_window b w evs \<longleftrightarrow> (\<forall>(t, k) \<in> set evs. fw_clock b t \<and> t div fw_Size b = w)"

lemma fw_take_run:
  assumes "fw_invar b" and "in_window b w evs" and "fw_lastWindow b = w"
  shows "\<exists>bs b'. take_run fw_strategy b evs = Some (bs, b')
           \<and> admitted k evs bs = min (nat (fw_available b k)) (calls_of k evs)"
  using assms
proof (induction evs arbitrary: b)
  case Nil
  then show ?case by simp
next
  case (Cons e evs)
  obtain t j where e: "e = (t, j)" by (cases e)
  with Cons.prems have ck: "fw_clock b t" and w: "t div fw_Size b = w"
    by (simp_all add: in_window_def)
  have roll: "fw_roll w b = b" using Cons.prems by (simp add: fw_roll_same)
  from fw_Take_eq [OF Cons.prems(1) ck, of j] roll w obtain m where
    m: "fw_storage b = Some m" and
    tk: "fw_Take b t j =
           (if fw_available b j \<le> 0 then Some (False, b)
            else Some (True, b\<lparr>fw_storage := Some (m(j \<mapsto> fw_available b j - 1))\<rparr>))"
    by (auto simp: Let_def)
  let ?b1 = "if fw_available b j \<le> 0 then b
             else b\<lparr>fw_storage := Some (m(j \<mapsto> fw_available b j - 1))\<rparr>"
  have i1: "fw_invar ?b1" using Cons.prems m fw_update_invar by auto
  have w1: "in_window ?b1 w evs" using Cons.prems by (auto simp: in_window_def fw_clock_def)
  have "fw_lastWindow ?b1 = w" using Cons.prems by simp
  from Cons.IH [OF i1 w1 this] obtain bs b' where
    r: "take_run fw_strategy ?b1 evs = Some (bs, b')"
       "admitted k evs bs = min (nat (fw_available ?b1 k)) (calls_of k evs)" by blast
  have av: "fw_available ?b1 k =
      (if fw_available b j \<le> 0 \<or> k \<noteq> j then fw_available b k else fw_available b j - 1)"
    using m by (simp add: fw_available_def split: option.split)
  have "take_run fw_strategy b (e # evs) = Some ((\<not> fw_available b j \<le> 0) # bs, b')"
    using tk r(1) by (simp add: e fw_strategy_def split: if_splits)
  moreover have "admitted k (e # evs) ((\<not> fw_available b j \<le> 0) # bs)
      = min (nat (fw_available b k)) (calls_of k (e # evs))"
    using r(2) av by (auto simp: e min_def split: if_splits)
  ultimately show ?case by blast
qed

lemma fw_Take_roll:
  assumes "fw_clock b t"
  shows "fw_Take (fw_roll (t div fw_Size b) b) t k = fw_Take b t k"
  using fw_window(1) [OF assms] by (simp add: fw_Take_def fw_roll_same)

lemma fw_available_fresh:
  "fw_lastWindow b \<noteq> w \<Longrightarrow> fw_available (fw_roll w b) k = fw_Max b"
  by (simp add: fw_available_def fw_roll_def split: option.split)

text \<open>
  C1. A fixed window admits exactly its budget: over any sequence of \<^verbatim>\<open>Take\<close> calls whose clock
  readings fall in one window the strategy has not served yet, each key is admitted as often as
  it asks, up to \<^verbatim>\<open>Max\<close>, independently of how the calls of different keys interleave.
\<close>

theorem fixed_window_exact:
  assumes "fw_invar b" and "in_window b w evs" and "fw_lastWindow b \<noteq> w"
  shows "\<exists>bs b'. take_run fw_strategy b evs = Some (bs, b')
           \<and> admitted k evs bs = min (nat (fw_Max b)) (calls_of k evs)"
proof (cases evs)
  case Nil
  then show ?thesis by simp
next
  case (Cons e es)
  obtain t j where e: "e = (t, j)" by (cases e)
  with Cons assms(2) have ck: "fw_clock b t" and w: "t div fw_Size b = w"
    by (simp_all add: in_window_def)
  from ck w have "take_run fw_strategy b evs = take_run fw_strategy (fw_roll w b) evs"
    using fw_Take_roll [OF ck, of j] by (simp add: Cons e fw_strategy_def)
  moreover have "in_window (fw_roll w b) w evs"
    using assms(2) by (auto simp: in_window_def fw_clock_def)
  ultimately show ?thesis
    using fw_take_run [OF fw_roll_invar [OF assms(1)], where w = w and k = k]
      fw_available_fresh [OF assms(3)] by simp
qed

theorem fixed_window_exact_witness:
  "\<exists>bs b'. take_run fw_strategy (FixedWindow 2 10) [(21, ''a''), (22, ''b''), (23, ''a''), (29, ''a'')]
       = Some (bs, b')
     \<and> admitted ''a'' [(21, ''a''), (22, ''b''), (23, ''a''), (29, ''a'')] bs = 2"
proof -
  let ?b = "FixedWindow 2 10" and ?evs = "[(21, ''a''), (22, ''b''), (23, ''a''), (29, ''a'')]"
  have "fw_invar ?b" and "in_window ?b 2 ?evs" and "fw_lastWindow ?b \<noteq> 2"
    by (simp_all add: FixedWindow_def fw_invar_def in_window_def fw_clock_def)
  from fixed_window_exact [OF this, of "''a''"]
  show ?thesis by (simp add: FixedWindow_def numeral_2_eq_2 del: take_run.simps)
qed

text \<open>
  The wait reported to a refused client is honest: after a refusal, \<^verbatim>\<open>After\<close> returns a
  positive wait of at most one window; every retry of the same key before it has passed is
  refused again, and a retry exactly when it has passed is admitted.
\<close>

theorem fixed_window_after_honest:
  assumes "fw_invar b" and "fw_clock b now" and "fw_clock b (now + fw_Size b)"
    and "0 < fw_Max b" and "fw_Take b now k = Some (False, b')"
  shows "\<exists>d. fw_After b' now k = Some d \<and> 0 < d \<and> d \<le> fw_Size b
           \<and> (\<forall>t. now \<le> t \<and> t < now + d \<longrightarrow> (\<exists>b''. fw_Take b' t k = Some (False, b'')))
           \<and> (\<exists>b''. fw_Take b' (now + d) k = Some (True, b''))"
proof -
  let ?n = "fw_Size b" and ?w = "now div fw_Size b"
  from assms have n: "0 < ?n" "?n \<le> now" "now + ?n < 2 ^ 63" by (simp_all add: fw_clock_def)
  have r: "0 \<le> now mod ?n" "now mod ?n < ?n" using n by simp_all
  from fw_Take_eq [OF assms(1,2), of k] assms(5) obtain m where
    b': "b' = fw_roll ?w b" and av: "fw_available b' k \<le> 0" and m: "fw_storage b' = Some m"
    by (auto simp: Let_def split: if_splits)
  have i': "fw_invar b'" using b' fw_roll_invar [OF assms(1)] by simp
  have [simp]: "fw_lastWindow b' = ?w" "fw_Size b' = ?n" "fw_Max b' = fw_Max b" by (simp_all add: b')
  from av m assms(4) have mk: "m k = Some (fw_available b' k)"
    by (auto simp: fw_available_def split: option.splits)
  define d where "d = ?n - now mod ?n"
  have e: "(?w + 1) * ?n = now + d"
    by (simp add: d_def algebra_simps flip: minus_mod_eq_mult_div)
  have ck: "fw_clock b' t" if "now \<le> t" "t \<le> now + d" for t
    using that assms(2,3) r by (auto simp: fw_clock_def d_def)
  have "s64 (s64 ((?w + 1) * ?n) - now) = d"
    unfolding e using n r by (simp add: d_def s64_id in64_def)
  then have after: "fw_After b' now k = Some d"
    using fw_window(1) [OF assms(2)] m mk av by (simp add: fw_After_def)
  have denied: "\<exists>b''. fw_Take b' t k = Some (False, b'')" if "now \<le> t" "t < now + d" for t
  proof -
    have "t div ?n = ?w"
    proof (rule int_div_pos_eq [where r = "t - ?w * ?n"])
      show "0 \<le> t - ?w * ?n" using that(1) r by (simp flip: minus_mod_eq_div_mult)
      show "t - ?w * ?n < ?n" using that(2) e by (simp add: algebra_simps)
    qed (simp add: algebra_simps)
    with fw_Take_eq [OF i' ck [of t], of k] that av show ?thesis
      by (auto simp: Let_def fw_roll_same)
  qed
  have nx: "(now + d) div ?n = ?w + 1" using n by (simp flip: e)
  have "fw_available (fw_roll (?w + 1) b') k = fw_Max b"
    by (simp add: fw_available_fresh)
  with fw_Take_eq [OF i' ck [of "now + d"], of k] nx r n assms(4)
  have "\<exists>b''. fw_Take b' (now + d) k = Some (True, b'')"
    by (auto simp: Let_def d_def)
  with after denied r n show ?thesis by (auto simp: d_def)
qed

theorem fixed_window_after_honest_witness:
  "\<exists>d. fw_After \<lparr>fw_lastWindow = 2, fw_storage = Some [''a'' \<mapsto> 0], fw_Max = 1, fw_Size = 10\<rparr> 26 ''a''
        = Some d \<and> 0 < d \<and> d \<le> 10"
proof -
  let ?b = "\<lparr>fw_lastWindow = 2, fw_storage = Some [''a'' \<mapsto> 0], fw_Max = 1, fw_Size = 10\<rparr>"
  have "fw_invar ?b" and "fw_clock ?b 26" and "fw_clock ?b (26 + fw_Size ?b)" and "0 < fw_Max ?b"
    and "fw_Take ?b 26 ''a'' = Some (False, ?b)"
    by (auto simp: fw_invar_def fw_clock_def fw_Take_def go_quot_def sdiv_pos fw_roll_def
        fw_available_def)
  from fixed_window_after_honest [OF this] show ?thesis by auto
qed

text \<open>
  A window longer than the time since the epoch makes the very first \<^verbatim>\<open>Take\<close> panic: the
  window index is 0, which is also the initial \<^verbatim>\<open>lastWindow\<close>, so the map is never allocated and
  the token is written to a nil map.
\<close>

theorem fixed_window_nil_map_panic:
  assumes "0 \<le> now" and "now < sz" and "0 < rate"
  shows "fw_Take (FixedWindow rate sz) now k = None"
  using assms by (simp add: fw_Take_def FixedWindow_def go_quot_def sdiv_pos fw_roll_def
      fw_available_def Let_def)

theorem fixed_window_nil_map_panic_witness:
  "fw_Take (FixedWindow 100 2000000000000000000) 1700000000000000000 ''a'' = None"
  using fixed_window_nil_map_panic [of 1700000000000000000 2000000000000000000 100 "''a''"] by simp

end
