(* ===== verification/Concurrent_Limit.thy ===== *)
theory Concurrent_Limit
  imports Ratelimit_Strategy
begin

text \<open>
  \<^verbatim>\<open>ConcurrentStrategy\<close> (\<^verbatim>\<open>pkg/ratelimit/concurrent.go\<close>) counts running requests per key and
  drops a request over the limit. It interprets \<open>slot_strategy\<close>, so the middleware's balance law
  applies to it, and its bound is shown for every interleaving of request starts and ends.
\<close>

section \<open>Dropping over the limit\<close>

record ConcurrentStrategy =
  cc_storage :: "(string \<rightharpoonup> int) option"
  cc_Capacity :: int

definition Concurrent :: "int \<Rightarrow> ConcurrentStrategy" where
  "Concurrent capacity = \<lparr>cc_storage = None, cc_Capacity = capacity\<rparr>"

text \<open>\<^verbatim>\<open>b.storage[key]\<close>: the zero value for a missing key or a nil map.\<close>

definition cc_count :: "ConcurrentStrategy \<Rightarrow> string \<Rightarrow> int" where
  "cc_count b key = (case Option.bind (cc_storage b) (\<lambda>m. m key) of None \<Rightarrow> 0 | Some n \<Rightarrow> n)"

definition cc_Take ::
  "ConcurrentStrategy \<Rightarrow> nanos \<Rightarrow> string \<Rightarrow> (bool \<times> ConcurrentStrategy) option"
where
  "cc_Take b now key =
     (let m = (case cc_storage b of None \<Rightarrow> Map.empty | Some m \<Rightarrow> m);
          b1 = b\<lparr>cc_storage := Some m\<rparr>
      in if cc_count b1 key \<ge> cc_Capacity b1 then Some (False, b1)
         else Some (True, b1\<lparr>cc_storage := Some (m(key \<mapsto> cc_count b1 key + 1))\<rparr>))"

definition cc_Put :: "ConcurrentStrategy \<Rightarrow> string \<Rightarrow> ConcurrentStrategy option" where
  "cc_Put b key =
     (case cc_storage b of
        None \<Rightarrow> Some b
      | Some m \<Rightarrow>
          if cc_count b key \<le> 0 then Some b
          else let n = cc_count b key - 1
               in Some (b\<lparr>cc_storage := Some (if n \<le> 0 then m(key := None) else m(key \<mapsto> n))\<rparr>))"

definition cc_After :: "ConcurrentStrategy \<Rightarrow> nanos \<Rightarrow> string \<Rightarrow> int option" where
  "cc_After b now key = Some 0"

definition cc_strategy :: "ConcurrentStrategy Strategy" where
  "cc_strategy = \<lparr>Take = cc_Take, Put = cc_Put, After = cc_After\<rparr>"

definition cc_invar :: "ConcurrentStrategy \<Rightarrow> bool" where
  "cc_invar b \<longleftrightarrow>
     (\<forall>m k n. cc_storage b = Some m \<longrightarrow> m k = Some n \<longrightarrow> 0 < n \<and> n \<le> cc_Capacity b)"

definition cc_inflight :: "ConcurrentStrategy \<Rightarrow> string \<Rightarrow> nat" where
  "cc_inflight b k = nat (cc_count b k)"

lemma cc_count_bounds:
  "cc_invar b \<Longrightarrow> 0 \<le> cc_count b k \<and> (cc_count b k = 0 \<or> cc_count b k \<le> cc_Capacity b)"
  by (fastforce simp: cc_invar_def cc_count_def bind_eq_Some_conv split: option.splits)

lemma cc_count_upd [upd_simps]:
  "cc_count (b\<lparr>cc_storage := Some (m(k := v))\<rparr>) j =
     (if j = k then case v of None \<Rightarrow> 0 | Some n \<Rightarrow> n else case m j of None \<Rightarrow> 0 | Some n \<Rightarrow> n)"
  "cc_count (b\<lparr>cc_storage := Some m\<rparr>) j = (case m j of None \<Rightarrow> 0 | Some n \<Rightarrow> n)"
  by (simp_all add: cc_count_def)

lemma cc_count_fold:
  "(case (case cc_storage b of None \<Rightarrow> Map.empty | Some m \<Rightarrow> m) j of None \<Rightarrow> 0 | Some n \<Rightarrow> n)
     = cc_count b j"
  "cc_storage b = Some m \<Longrightarrow> (case m j of None \<Rightarrow> 0 | Some n \<Rightarrow> n) = cc_count b j"
  by (simp_all add: cc_count_def split: option.splits)

lemma cc_count_nil: "cc_storage b = None \<Longrightarrow> cc_count b k = 0"
  by (simp add: cc_count_def)

lemma cc_Take_cases:
  assumes "cc_Take b now k = Some (r, b')"
  shows "r \<longleftrightarrow> cc_count b k < cc_Capacity b"
    and "cc_count b' j = (if r \<and> j = k then cc_count b k + 1 else cc_count b j)"
    and "cc_Capacity b' = cc_Capacity b"
  using assms
  by (auto simp: cc_Take_def Let_def upd_simps cc_count_fold split: if_splits)

lemma cc_Take_invar: "cc_invar b \<Longrightarrow> cc_Take b now k = Some (r, b') \<Longrightarrow> cc_invar b'"
  using cc_count_bounds [of b k]
  by (auto simp: cc_Take_def Let_def cc_invar_def upd_simps cc_count_fold
      split: if_splits option.splits)

lemma cc_Put_cases:
  assumes "cc_invar b" and "cc_Put b k = Some b'"
  shows "cc_count b' j = (if j = k then max 0 (cc_count b k - 1) else cc_count b j)"
    and "cc_Capacity b' = cc_Capacity b"
proof -
  show "cc_count b' j = (if j = k then max 0 (cc_count b k - 1) else cc_count b j)"
  proof (cases "cc_storage b")
    case None
    with assms show ?thesis by (auto simp: cc_Put_def cc_count_nil)
  next
    case (Some m)
    with assms cc_count_bounds [OF assms(1), of k] show ?thesis
      by (auto simp: cc_Put_def Let_def upd_simps cc_count_fold split: if_splits)
  qed
  show "cc_Capacity b' = cc_Capacity b"
    using assms by (auto simp: cc_Put_def Let_def split: if_splits option.splits)
qed

lemma cc_Put_invar: "cc_invar b \<Longrightarrow> cc_Put b k = Some b' \<Longrightarrow> cc_invar b'"
  using cc_count_bounds [of b k]
  by (auto simp: cc_Put_def Let_def cc_invar_def split: if_splits option.splits)

interpretation cc: slot_strategy cc_strategy cc_invar "\<lambda>_ _. True" cc_inflight
proof
  fix b now k
  show "\<exists>r b'. Take cc_strategy b now k = Some (r, b')"
    by (auto simp: cc_strategy_def cc_Take_def Let_def)
  show "\<exists>b'. Put cc_strategy b k = Some b'"
    by (auto simp: cc_strategy_def cc_Put_def Let_def split: option.split)
  show "\<exists>d \<ge> 0. After cc_strategy b now k = Some d"
    by (simp add: cc_strategy_def cc_After_def)
next
  fix b now k b'
  assume i: "cc_invar b"
  show "Take cc_strategy b now k = Some (True, b')
      \<Longrightarrow> cc_inflight b' = (cc_inflight b)(k := Suc (cc_inflight b k))"
    using cc_count_bounds [OF i, of k]
    by (auto simp: cc_strategy_def cc_inflight_def cc_Take_cases fun_eq_iff)
  show "Take cc_strategy b now k = Some (False, b') \<Longrightarrow> cc_inflight b' = cc_inflight b"
    by (auto simp: cc_strategy_def cc_inflight_def cc_Take_cases fun_eq_iff)
  show "Put cc_strategy b k = Some b'
      \<Longrightarrow> cc_inflight b' = (cc_inflight b)(k := cc_inflight b k - 1)"
    by (auto simp: cc_strategy_def cc_inflight_def cc_Put_cases [OF i] fun_eq_iff)
qed (auto simp: cc_strategy_def intro: cc_Take_invar cc_Put_invar)

text \<open>An interleaved load: requests of any keys start and finish in any order.\<close>

datatype slot_event = StartReq string | EndReq string

fun cc_step :: "ConcurrentStrategy \<Rightarrow> slot_event \<Rightarrow> ConcurrentStrategy option" where
  "cc_step b (StartReq k) = map_option snd (cc_Take b 0 k)"
| "cc_step b (EndReq k) = cc_Put b k"

fun cc_steps :: "ConcurrentStrategy \<Rightarrow> slot_event list \<Rightarrow> ConcurrentStrategy option" where
  "cc_steps b [] = Some b"
| "cc_steps b (e # es) = (case cc_step b e of None \<Rightarrow> None | Some b' \<Rightarrow> cc_steps b' es)"

lemma cc_step_inv:
  assumes "cc_invar b"
  shows "\<exists>b'. cc_step b e = Some b' \<and> cc_invar b' \<and> cc_Capacity b' = cc_Capacity b"
proof (cases e)
  case (StartReq k)
  obtain r b' where t: "cc_Take b 0 k = Some (r, b')"
    using cc.Take_total [OF assms, of 0 k] by (auto simp: cc_strategy_def)
  with StartReq show ?thesis
    by (simp add: cc_Take_invar [OF assms t] cc_Take_cases(3) [OF t])
next
  case (EndReq k)
  obtain b' where p: "cc_Put b k = Some b'"
    using cc.Put_total [OF assms, of k] by (auto simp: cc_strategy_def)
  with EndReq show ?thesis
    by (simp add: cc_Put_invar [OF assms p] cc_Put_cases(2) [OF assms p])
qed

lemma cc_steps_inv:
  assumes "cc_invar b"
  shows "\<exists>b'. cc_steps b es = Some b' \<and> cc_invar b' \<and> cc_Capacity b' = cc_Capacity b"
  using assms
proof (induction es arbitrary: b)
  case Nil
  then show ?case by simp
next
  case (Cons e es)
  from cc_step_inv [OF Cons.prems, of e] obtain b' where
    "cc_step b e = Some b'" "cc_invar b'" "cc_Capacity b' = cc_Capacity b" by blast
  with Cons.IH [of b'] show ?case by auto
qed


text \<open>
  C23. A request served through the middleware returns its slot exactly once, whatever the handler
  writes, flushes or hijacks and whether it returns or panics: after any completed request the
  number of running requests of every key is what it was before.
\<close>

theorem concurrent_serve_balanced:
  assumes "cc_invar b"
    and "serve_request cc_strategy m c now now' key calls b = Some (r, evs, b')"
  shows "cc_inflight b' = cc_inflight b"
  by (rule cc.serve_request_balanced [OF assms(1) _ assms(2)]) simp

theorem concurrent_serve_balanced_witness:
  "cc_inflight \<lparr>cc_storage = Some Map.empty, cc_Capacity = 1\<rparr> = cc_inflight (Concurrent 1)"
proof -
  have 1: "cc_invar (Concurrent 1)" by (simp add: cc_invar_def Concurrent_def)
  have 2: "serve_request cc_strategy
      \<lparr>rl_Name = '''', rl_observes = False, ReleaseOnWriteHeader = True, ReleaseOnHijacked = True\<rparr>
      \<lparr>is_Flusher = True, is_Pusher = False, is_Hijacker = True\<rparr> 0 0 ''k''
      [CallWrite ''x'', CallHijack, CallWrite ''y''] (Concurrent 1)
    = Some (Served [OutHeader 200, OutBody ''x'', OutHijack, OutBody ''y''], [],
            \<lparr>cc_storage = Some Map.empty, cc_Capacity = 1\<rparr>)"
    by (simp add: serve_request_def cc_strategy_def cc_Take_def cc_Put_def cc_count_def Concurrent_def
        rw_WriteHeader_def release_def observe_def Let_def)
  show ?thesis by (rule concurrent_serve_balanced [OF 1 2])
qed

end
