(* ===== verification/Concurrent_Queue.thy ===== *)
theory Concurrent_Queue
  imports Parapet_Prelude "HOL-Library.Multiset"
begin

text \<open>
  The queueing concurrency limiter (\<^verbatim>\<open>pkg/ratelimit/concurrentqueue.go\<close>).

  \<^verbatim>\<open>Take\<close> gives up the mutex while it waits to send on the item's buffered channel, so it is
  three steps: the first critical section (\<open>cq_enter\<close>), the send (\<open>cq_send\<close>, enabled while the
  buffer has room) and the second critical section (\<open>cq_leave\<close>). \<^verbatim>\<open>Put\<close> is one critical
  section that receives from the channel. Items are heap objects: \<open>cq_storage\<close> maps a key to the
  address of its item and a waiting \<^verbatim>\<open>Take\<close> keeps the address it found, so that deleting and
  re-creating an entry under a waiting request would be visible in the model.

  The requests in progress are a multiset, one element per request in the phase it is in;
  \<open>cq_step\<close> interleaves them freely. A nil map reads as the empty map and \<^verbatim>\<open>Take\<close> allocates it
  before it writes.
\<close>

record concurrentQueueItem =
  it_tokens :: nat
  it_ProcessCount :: int
  it_QueueCount :: int

record ConcurrentQueueStrategy =
  cq_storage :: "string \<rightharpoonup> nat"
  cq_heap :: "nat \<Rightarrow> concurrentQueueItem"
  cq_next :: nat
  cq_Capacity :: int
  cq_Size :: int

definition ConcurrentQueue :: "int \<Rightarrow> int \<Rightarrow> ConcurrentQueueStrategy" where
  "ConcurrentQueue capacity sz =
     \<lparr>cq_storage = Map.empty,
      cq_heap = (\<lambda>_. \<lparr>it_tokens = 0, it_ProcessCount = 0, it_QueueCount = 0\<rparr>),
      cq_next = 0, cq_Capacity = capacity, cq_Size = sz\<rparr>"

text \<open>
  Up to the first \<^verbatim>\<open>Unlock\<close>: \<open>None\<close> is the panic of \<^verbatim>\<open>make(chan struct{}, n)\<close> with a negative
  \<open>n\<close>; \<open>Some (None, _)\<close> drops the request; \<open>Some (Some a, _)\<close> queues it at item \<open>a\<close>.
\<close>

definition cq_lookup_or_make ::
  "ConcurrentQueueStrategy \<Rightarrow> string \<Rightarrow> (nat \<times> ConcurrentQueueStrategy) option"
where
  "cq_lookup_or_make b key =
     (case cq_storage b key of
        Some a \<Rightarrow> Some (a, b)
      | None \<Rightarrow>
          if cq_Capacity b < 0 then None
          else let a = cq_next b
               in Some (a, b\<lparr>cq_storage := (cq_storage b)(key \<mapsto> a),
                             cq_heap := (cq_heap b)(a := \<lparr>it_tokens = 0, it_ProcessCount = 0,
                                                          it_QueueCount = 0\<rparr>),
                             cq_next := Suc a\<rparr>))"

definition cq_enter ::
  "ConcurrentQueueStrategy \<Rightarrow> string \<Rightarrow> (nat option \<times> ConcurrentQueueStrategy) option"
where
  "cq_enter b key =
     (case cq_lookup_or_make b key of
        None \<Rightarrow> None
      | Some (a, b1) \<Rightarrow>
          let t = cq_heap b1 a
          in if it_QueueCount t \<ge> cq_Size b1 then Some (None, b1)
             else Some (Some a, b1\<lparr>cq_heap := (cq_heap b1)(a :=
                    t\<lparr>it_ProcessCount := it_ProcessCount t + 1,
                      it_QueueCount := it_QueueCount t + 1\<rparr>)\<rparr>))"

text \<open>\<^verbatim>\<open>t.Process <- struct{}{}\<close>: \<open>None\<close> while the buffer is full.\<close>

definition cq_send :: "ConcurrentQueueStrategy \<Rightarrow> nat \<Rightarrow> ConcurrentQueueStrategy option" where
  "cq_send b a =
     (let t = cq_heap b a
      in if int (it_tokens t) < cq_Capacity b
         then Some (b\<lparr>cq_heap := (cq_heap b)(a := t\<lparr>it_tokens := Suc (it_tokens t)\<rparr>)\<rparr>)
         else None)"

definition cq_leave :: "ConcurrentQueueStrategy \<Rightarrow> nat \<Rightarrow> ConcurrentQueueStrategy" where
  "cq_leave b a =
     (let t = cq_heap b a
      in b\<lparr>cq_heap := (cq_heap b)(a := t\<lparr>it_QueueCount := it_QueueCount t - 1\<rparr>)\<rparr>)"

text \<open>\<open>None\<close> is a receive that blocks, with the mutex held.\<close>

definition cq_Put :: "ConcurrentQueueStrategy \<Rightarrow> string \<Rightarrow> ConcurrentQueueStrategy option" where
  "cq_Put b key =
     (case cq_storage b key of
        None \<Rightarrow> Some b
      | Some a \<Rightarrow>
          let t = cq_heap b a
          in if it_tokens t = 0 then None
             else let t' = t\<lparr>it_tokens := it_tokens t - 1,
                             it_ProcessCount := it_ProcessCount t - 1\<rparr>;
                      b' = b\<lparr>cq_heap := (cq_heap b)(a := t')\<rparr>
                  in Some (if it_ProcessCount t' \<le> 0 \<and> it_QueueCount t' \<le> 0
                           then b'\<lparr>cq_storage := (cq_storage b')(key := None)\<rparr>
                           else b'))"

definition cq_After :: "ConcurrentQueueStrategy \<Rightarrow> nanos \<Rightarrow> string \<Rightarrow> int" where
  "cq_After b now key = 0"

section \<open>Interleaved requests\<close>

text \<open>A request waiting to send, one that has sent but not re-locked, and one being served.\<close>

datatype cq_thread = Sending string nat | Sent string nat | Running string

type_synonym cq_sys = "ConcurrentQueueStrategy \<times> cq_thread multiset"

inductive cq_step :: "cq_sys \<Rightarrow> cq_sys \<Rightarrow> bool" where
  drop: "cq_enter b k = Some (None, b') \<Longrightarrow> cq_step (b, T) (b', T)"
| queue: "cq_enter b k = Some (Some a, b') \<Longrightarrow> cq_step (b, T) (b', add_mset (Sending k a) T)"
| send: "cq_send b a = Some b' \<Longrightarrow>
     cq_step (b, add_mset (Sending k a) T) (b', add_mset (Sent k a) T)"
| leave: "cq_step (b, add_mset (Sent k a) T) (cq_leave b a, add_mset (Running k) T)"
| put: "cq_Put b k = Some b' \<Longrightarrow> cq_step (b, add_mset (Running k) T) (b', T)"

inductive cq_reachable :: "int \<Rightarrow> int \<Rightarrow> cq_sys \<Rightarrow> bool" for capacity sz where
  start: "cq_reachable capacity sz (ConcurrentQueue capacity sz, {#})"
| step: "cq_reachable capacity sz s \<Longrightarrow> cq_step s s' \<Longrightarrow> cq_reachable capacity sz s'"

text \<open>
  The item of a key accounts for exactly the requests of that key: the buffer for those that
  have sent or run, \<^verbatim>\<open>QueueCount\<close> for those in \<^verbatim>\<open>Take\<close>, \<^verbatim>\<open>ProcessCount\<close> for all of them.
\<close>

definition item_ok :: "int \<Rightarrow> int \<Rightarrow> cq_thread multiset \<Rightarrow> string \<Rightarrow> nat \<Rightarrow> concurrentQueueItem \<Rightarrow> bool"
where
  "item_ok capacity sz T k a t \<longleftrightarrow>
     it_tokens t = count T (Sent k a) + count T (Running k)
     \<and> it_ProcessCount t = int (count T (Sending k a) + count T (Sent k a) + count T (Running k))
     \<and> it_QueueCount t = int (count T (Sending k a) + count T (Sent k a))
     \<and> (it_tokens t = 0 \<or> int (it_tokens t) \<le> capacity)
     \<and> (it_QueueCount t = 0 \<or> it_QueueCount t \<le> sz)"

definition cq_inv :: "int \<Rightarrow> int \<Rightarrow> cq_sys \<Rightarrow> bool" where
  "cq_inv capacity sz = (\<lambda>(b, T).
     cq_Capacity b = capacity \<and> cq_Size b = sz
     \<and> (\<forall>k a. cq_storage b k = Some a \<longrightarrow> a < cq_next b \<and> item_ok capacity sz T k a (cq_heap b a))
     \<and> (\<forall>k a. cq_storage b k \<noteq> Some a \<longrightarrow> count T (Sending k a) = 0 \<and> count T (Sent k a) = 0)
     \<and> (\<forall>k. cq_storage b k = None \<longrightarrow> count T (Running k) = 0)
     \<and> (\<forall>k k' a. cq_storage b k = Some a \<longrightarrow> cq_storage b k' = Some a \<longrightarrow> k = k'))"

lemma cq_inv_start: "cq_inv capacity sz (ConcurrentQueue capacity sz, {#})"
  by (simp add: cq_inv_def ConcurrentQueue_def)

lemma cq_inv_lookup:
  assumes "cq_inv capacity sz (b, T)" and "cq_lookup_or_make b k = Some (a, b1)"
  shows "cq_inv capacity sz (b1, T) \<and> cq_storage b1 k = Some a"
proof (cases "cq_storage b k")
  case (Some x)
  with assms show ?thesis by (simp add: cq_lookup_or_make_def)
next
  case None
  with assms(2) have b1: "a = cq_next b"
    "b1 = b\<lparr>cq_storage := (cq_storage b)(k \<mapsto> a),
            cq_heap := (cq_heap b)(a := \<lparr>it_tokens = 0, it_ProcessCount = 0, it_QueueCount = 0\<rparr>),
            cq_next := Suc a\<rparr>"
    by (auto simp: cq_lookup_or_make_def Let_def split: if_splits)
  have fresh: "cq_storage b j \<noteq> Some a" for j
    using assms(1) b1(1) by (force simp: cq_inv_def)
  have "item_ok capacity sz T k a \<lparr>it_tokens = 0, it_ProcessCount = 0, it_QueueCount = 0\<rparr>"
    using assms(1) fresh [of k] None by (auto simp: cq_inv_def item_ok_def)
  with assms(1) fresh None show ?thesis
    unfolding b1(2) by (auto simp: cq_inv_def b1(1) less_Suc_eq)
qed

text \<open>Changing one item and the requests of its key only touches that item's accounting.\<close>

lemma cq_inv_update:
  assumes "cq_inv capacity sz (b, T)" and "cq_storage b k = Some a"
    and "item_ok capacity sz T' k a t'"
    and "\<And>j x. j \<noteq> k \<or> x \<noteq> a \<Longrightarrow>
           count T' (Sending j x) = count T (Sending j x) \<and> count T' (Sent j x) = count T (Sent j x)"
    and "\<And>j. j \<noteq> k \<Longrightarrow> count T' (Running j) = count T (Running j)"
  shows "cq_inv capacity sz (b\<lparr>cq_heap := (cq_heap b)(a := t')\<rparr>, T')"
proof -
  have "item_ok capacity sz T' j x (((cq_heap b)(a := t')) x)" if "cq_storage b j = Some x" for j x
  proof (cases "j = k")
    case True
    with that assms(2,3) show ?thesis by simp
  next
    case False
    with that assms(1,2) have "x \<noteq> a" by (auto simp: cq_inv_def)
    moreover have "item_ok capacity sz T j x (cq_heap b x)"
      using assms(1) that by (simp add: cq_inv_def)
    ultimately show ?thesis using assms(4) [of j x] assms(5) [OF False] False
      by (auto simp: item_ok_def)
  qed
  moreover have "count T' (Sending j x) = 0 \<and> count T' (Sent j x) = 0"
    if "cq_storage b j \<noteq> Some x" for j x
    using that assms(1,2) assms(4) [of j x] by (auto simp: cq_inv_def)
  moreover have "count T' (Running j) = 0" if "cq_storage b j = None" for j
    using that assms(1,2) assms(5) [of j] by (cases "j = k") (auto simp: cq_inv_def)
  ultimately show ?thesis using assms(1) by (auto simp: cq_inv_def)
qed

lemma cq_inv_item:
  "cq_inv capacity sz (b, T) \<Longrightarrow> cq_storage b k = Some a \<Longrightarrow> item_ok capacity sz T k a (cq_heap b a)"
  by (simp add: cq_inv_def)

lemma cq_inv_sending:
  "cq_inv capacity sz (b, T) \<Longrightarrow> 0 < count T (Sending k a) \<or> 0 < count T (Sent k a)
     \<Longrightarrow> cq_storage b k = Some a"
  by (rule ccontr) (simp add: cq_inv_def)

lemma cq_inv_running:
  "cq_inv capacity sz (b, T) \<Longrightarrow> 0 < count T (Running k) \<Longrightarrow> \<exists>a. cq_storage b k = Some a"
  by (cases "cq_storage b k") (auto simp: cq_inv_def)

lemma cq_inv_enter:
  assumes "cq_inv capacity sz (b, T)" and "cq_enter b k = Some (r, b')"
  shows "cq_inv capacity sz (b', case r of None \<Rightarrow> T | Some a \<Rightarrow> add_mset (Sending k a) T)"
proof -
  from assms(2) obtain a b1 where l: "cq_lookup_or_make b k = Some (a, b1)"
    by (auto simp: cq_enter_def split: option.splits)
  from cq_inv_lookup [OF assms(1) l] have i: "cq_inv capacity sz (b1, T)" "cq_storage b1 k = Some a"
    by simp_all
  have sz: "cq_Size b1 = sz" using i(1) by (simp add: cq_inv_def)
  show ?thesis
  proof (cases "it_QueueCount (cq_heap b1 a) \<ge> sz")
    case True
    with assms(2) l i(1) sz show ?thesis by (auto simp: cq_enter_def Let_def)
  next
    case False
    let ?t = "(cq_heap b1 a)\<lparr>it_ProcessCount := it_ProcessCount (cq_heap b1 a) + 1,
                it_QueueCount := it_QueueCount (cq_heap b1 a) + 1\<rparr>"
    from False assms(2) l sz have r: "r = Some a" "b' = b1\<lparr>cq_heap := (cq_heap b1)(a := ?t)\<rparr>"
      by (auto simp: cq_enter_def Let_def)
    have "item_ok capacity sz (add_mset (Sending k a) T) k a ?t"
      using cq_inv_item [OF i] False by (auto simp: item_ok_def)
    then have "cq_inv capacity sz (b1\<lparr>cq_heap := (cq_heap b1)(a := ?t)\<rparr>, add_mset (Sending k a) T)"
      by (rule cq_inv_update [OF i]) auto
    then show ?thesis by (simp add: r)
  qed
qed

lemma cq_inv_put:
  assumes "cq_inv capacity sz (b, add_mset (Running k) T)" and "cq_Put b k = Some b'"
  shows "cq_inv capacity sz (b', T)"
proof -
  from cq_inv_running [OF assms(1), of k] obtain a where a: "cq_storage b k = Some a" by auto
  note i = cq_inv_item [OF assms(1) a]
  let ?t = "(cq_heap b a)\<lparr>it_tokens := it_tokens (cq_heap b a) - 1,
              it_ProcessCount := it_ProcessCount (cq_heap b a) - 1\<rparr>"
  have t: "item_ok capacity sz T k a ?t" using i by (auto simp: item_ok_def)
  then have u: "cq_inv capacity sz (b\<lparr>cq_heap := (cq_heap b)(a := ?t)\<rparr>, T)"
    by (rule cq_inv_update [OF assms(1) a]) auto
  show ?thesis
  proof (cases "it_ProcessCount ?t \<le> 0 \<and> it_QueueCount ?t \<le> 0")
    case False
    with assms(2) a u show ?thesis by (auto simp: cq_Put_def Let_def split: if_splits)
  next
    case True
    with t have z: "count T (Sending k a) = 0" "count T (Sent k a) = 0" "count T (Running k) = 0"
      by (auto simp: item_ok_def)
    from True assms(2) a have
      "b' = b\<lparr>cq_heap := (cq_heap b)(a := ?t), cq_storage := (cq_storage b)(k := None)\<rparr>"
      by (auto simp: cq_Put_def Let_def split: if_splits)
    moreover have "count T (Sending k x) = 0 \<and> count T (Sent k x) = 0" for x
      using u z a by (cases "x = a") (auto simp: cq_inv_def)
    ultimately show ?thesis using u z a by (auto simp: cq_inv_def)
  qed
qed

lemma cq_inv_step:
  assumes "cq_step s s'" and "cq_inv capacity sz s"
  shows "cq_inv capacity sz s'"
  using assms
proof (cases rule: cq_step.cases)
  case (drop b k b' T)
  with assms(2) cq_inv_enter [of capacity sz b T k None b'] show ?thesis by simp
next
  case (queue b k a b' T)
  with assms(2) cq_inv_enter [of capacity sz b T k "Some a" b'] show ?thesis by simp
next
  case (send b a b' k T)
  let ?T = "add_mset (Sending k a) T" and ?T' = "add_mset (Sent k a) T"
  have iv: "cq_inv capacity sz (b, ?T)" using send assms(2) by simp
  from cq_inv_sending [OF iv, of k a] have a: "cq_storage b k = Some a" by simp
  let ?t = "(cq_heap b a)\<lparr>it_tokens := Suc (it_tokens (cq_heap b a))\<rparr>"
  from send(3) have lt: "int (it_tokens (cq_heap b a)) < cq_Capacity b"
    and b': "b' = b\<lparr>cq_heap := (cq_heap b)(a := ?t)\<rparr>"
    by (auto simp: cq_send_def Let_def split: if_splits)
  have "cq_Capacity b = capacity" using iv by (simp add: cq_inv_def)
  then have "item_ok capacity sz ?T' k a ?t"
    using cq_inv_item [OF iv a] lt by (auto simp: item_ok_def)
  then have "cq_inv capacity sz (b', ?T')"
    unfolding b' by (rule cq_inv_update [OF iv a]) auto
  then show ?thesis by (simp add: send)
next
  case (leave b k a T)
  let ?T = "add_mset (Sent k a) T" and ?T' = "add_mset (Running k) T"
  have iv: "cq_inv capacity sz (b, ?T)" using leave assms(2) by simp
  from cq_inv_sending [OF iv, of k a] have a: "cq_storage b k = Some a" by simp
  let ?t = "(cq_heap b a)\<lparr>it_QueueCount := it_QueueCount (cq_heap b a) - 1\<rparr>"
  have "item_ok capacity sz ?T' k a ?t"
    using cq_inv_item [OF iv a] by (auto simp: item_ok_def)
  then have "cq_inv capacity sz (b\<lparr>cq_heap := (cq_heap b)(a := ?t)\<rparr>, ?T')"
    by (rule cq_inv_update [OF iv a]) auto
  then show ?thesis by (simp add: leave cq_leave_def Let_def)
next
  case (put b k b' T)
  with assms(2) cq_inv_put show ?thesis by simp
qed

lemma cq_reachable_inv: "cq_reachable capacity sz s \<Longrightarrow> cq_inv capacity sz s"
  by (induction rule: cq_reachable.induct) (auto intro: cq_inv_start cq_inv_step)

section \<open>Properties\<close>

definition in_Take :: "string \<Rightarrow> cq_thread \<Rightarrow> bool" where
  "in_Take k th = (case th of Sending j a \<Rightarrow> j = k | Sent j a \<Rightarrow> j = k | Running j \<Rightarrow> False)"

lemma in_Take_count:
  assumes "\<And>th. th \<in># T \<Longrightarrow> in_Take k th \<Longrightarrow> th = Sending k a \<or> th = Sent k a"
  shows "size (filter_mset (in_Take k) T) = count T (Sending k a) + count T (Sent k a)"
  using assms by (induction T) (auto simp: in_Take_def)

lemma cq_inv_waiting:
  assumes "cq_inv capacity sz (b, T)"
  shows "int (size (filter_mset (in_Take k) T)) \<le> max 0 sz"
proof (cases "cq_storage b k")
  case (Some a)
  have "th = Sending k a \<or> th = Sent k a" if "th \<in># T" "in_Take k th" for th
    using that cq_inv_sending [OF assms] Some
    by (cases th) (fastforce simp: in_Take_def)+
  from in_Take_count [OF this] cq_inv_item [OF assms Some] show ?thesis
    by (auto simp: item_ok_def)
next
  case None
  have "\<not> in_Take k th" if "th \<in># T" for th
    using that cq_inv_sending [OF assms] None
    by (cases th) (fastforce simp: in_Take_def)+
  then have e: "filter_mset (in_Take k) T = {#}" by (simp add: filter_mset_eq_mempty_iff)
  show ?thesis unfolding e by simp
qed

lemma cq_inv_Running_ok:
  assumes "cq_inv capacity sz (b, T)" and "0 < count T (Running k)"
  shows "int (count T (Running k)) \<le> max 0 capacity \<and> cq_Put b k \<noteq> None"
proof -
  from cq_inv_running [OF assms] obtain a where a: "cq_storage b k = Some a" by blast
  from cq_inv_item [OF assms(1) a] assms(2) show ?thesis
    by (auto simp: item_ok_def cq_Put_def a Let_def)
qed

text \<open>
  C6. In every state the interleaving of queueing requests can reach, at most \<^verbatim>\<open>Capacity\<close> requests
  of a key run, at most \<^verbatim>\<open>Size\<close> of them are inside \<^verbatim>\<open>Take\<close>, and \<^verbatim>\<open>Put\<close> of a running request
  never blocks on its channel (it holds the mutex while it receives, so blocking there would
  stop the whole limiter).
\<close>

theorem concurrent_queue_safe:
  assumes "cq_reachable capacity sz (b, T)"
  shows "int (count T (Running k)) \<le> max 0 capacity
    \<and> int (size (filter_mset (in_Take k) T)) \<le> max 0 sz
    \<and> (0 < count T (Running k) \<longrightarrow> cq_Put b k \<noteq> None)"
proof -
  note i = cq_reachable_inv [OF assms]
  show ?thesis using cq_inv_Running_ok [OF i, of k] cq_inv_waiting [OF i, of k] by (cases "count T (Running k) = 0") auto
qed

text \<open>How much of the work of the requests in progress is left.\<close>

fun cq_weight :: "cq_thread \<Rightarrow> nat" where
  "cq_weight (Sending k a) = 3"
| "cq_weight (Sent k a) = 2"
| "cq_weight (Running k) = 1"

definition cq_work :: "cq_thread multiset \<Rightarrow> nat" where
  "cq_work T = sum_mset (image_mset cq_weight T)"


text \<open>One request of key \<open>k\<close> waiting in a limiter of capacity and size 1.\<close>

definition cq_example :: ConcurrentQueueStrategy where
  "cq_example = \<lparr>cq_storage = [''k'' \<mapsto> 0],
     cq_heap = (\<lambda>_. \<lparr>it_tokens = 0, it_ProcessCount = 0, it_QueueCount = 0\<rparr>)
                 (0 := \<lparr>it_tokens = 0, it_ProcessCount = 1, it_QueueCount = 1\<rparr>),
     cq_next = 1, cq_Capacity = 1, cq_Size = 1\<rparr>"

lemma cq_example_reachable: "cq_reachable 1 1 (cq_example, {#Sending ''k'' 0#})"
proof (rule cq_reachable.step [OF cq_reachable.start])
  have "cq_enter (ConcurrentQueue 1 1) ''k'' = Some (Some 0, cq_example)"
    by (simp add: cq_enter_def cq_lookup_or_make_def ConcurrentQueue_def cq_example_def Let_def)
  then show "cq_step (ConcurrentQueue 1 1, {#}) (cq_example, {#Sending ''k'' 0#})"
    by (rule cq_step.queue)
qed

text \<open>The same request once it runs.\<close>

lemma cq_running_reachable:
  "cq_reachable 1 1 (cq_leave (the (cq_send cq_example 0)) 0, {#Running ''k''#})"
proof -
  have "cq_send cq_example 0 = Some (the (cq_send cq_example 0))"
    by (simp add: cq_send_def cq_example_def)
  from cq_reachable.step [OF cq_example_reachable cq_step.send [OF this]]
  have "cq_reachable 1 1 (the (cq_send cq_example 0), {#Sent ''k'' 0#})" .
  from cq_reachable.step [OF this cq_step.leave] show ?thesis .
qed

theorem concurrent_queue_safe_witness:
  "int (count {#Running ''k''#} (Running ''k'')) \<le> max 0 1
    \<and> int (size (filter_mset (in_Take ''k'') {#Running ''k''#})) \<le> max 0 1
    \<and> cq_Put (cq_leave (the (cq_send cq_example 0)) 0) ''k'' \<noteq> None"
  using concurrent_queue_safe [OF cq_running_reachable, of "''k''"] by simp


text \<open>
  A queue of size 0 refuses every request, even with idle capacity: a request passes through
  the queue count before it may run, so \<^verbatim>\<open>Size\<close> bounds admission and not only waiting.
\<close>

theorem concurrent_queue_size_zero_refuses:
  assumes "sz \<le> 0" and "0 \<le> capacity" and "cq_reachable capacity sz (b, T)"
  shows "T = {#} \<and> (\<exists>b'. cq_enter b k = Some (None, b'))"
proof -
  note i = cq_reachable_inv [OF assms(3)]
  have cap: "cq_Capacity b = capacity" "cq_Size b = sz" using i by (simp_all add: cq_inv_def)
  have T: "T = {#}" using assms(3)
  proof (induction "(b, T)" arbitrary: b T rule: cq_reachable.induct)
    case (step s)
    obtain b0 T0 where s: "s = (b0, T0)" by (cases s)
    with step have T0: "T0 = {#}" and r: "cq_inv capacity sz (b0, T0)"
      using cq_reachable_inv by blast+
    from step(3) s T0 show ?case
    proof (cases rule: cq_step.cases)
      case (queue b1 k a)
      with s T0 have "cq_inv capacity sz (b, {#Sending k a#})"
        using cq_inv_enter [OF r, of k "Some a" b] by simp
      from cq_inv_waiting [OF this, of k] assms(1) show ?thesis by (simp add: in_Take_def)
    qed auto
  qed simp
  from cap assms(2) have "cq_lookup_or_make b k \<noteq> None"
    by (auto simp: cq_lookup_or_make_def Let_def split: option.split)
  then obtain a b1 where l: "cq_lookup_or_make b k = Some (a, b1)" by auto
  from cq_inv_lookup [OF i l] have "it_QueueCount (cq_heap b1 a) = 0" and "cq_Size b1 = sz"
    using cq_inv_item [of capacity sz b1 T k a] T by (auto simp: item_ok_def cq_inv_def)
  with l assms(1) T show ?thesis by (simp add: cq_enter_def)
qed

theorem concurrent_queue_size_zero_refuses_witness:
  "\<exists>b'. cq_enter (ConcurrentQueue 10 0) ''k'' = Some (None, b')"
  using concurrent_queue_size_zero_refuses [of 0 10 "ConcurrentQueue 10 0" "{#}" "''k''"]
  by (simp add: cq_reachable.start)

end
