(* ===== verification/Leaky_Bucket.thy ===== *)
theory Leaky_Bucket
  imports Parapet_Prelude "HOL-Library.Multiset"
begin

text \<open>
  The leaky-bucket strategy (\<^verbatim>\<open>pkg/ratelimit/leakybucket.go\<close>) with its janitor.

  \<^verbatim>\<open>Take\<close> gives up the mutex while it sleeps, so it is two critical sections: \<open>lb_enter\<close> decides
  and \<open>lb_wake\<close> leaves the queue. \<open>lb_evictStale\<close> is one sweep of the janitor. Items are heap
  objects, as for the queueing limiter: a sleeping \<^verbatim>\<open>Take\<close> keeps the address of its item.

  Times are readings of the monotonic clock; \<open>None\<close> is the zero \<^verbatim>\<open>time.Time\<close>, which is before
  every reading. \<open>lb_step\<close> interleaves calls, sleeping requests, the janitor and the clock, and
  logs for every admitted request the time it is released at: at once, or when its sleep ends.
\<close>

record leakyItem =
  li_Last :: "int option"
  li_Count :: int

record LeakyBucketStrategy =
  lb_storage :: "string \<rightharpoonup> nat"
  lb_heap :: "nat \<Rightarrow> leakyItem"
  lb_next :: nat
  lb_cleanupRunning :: bool
  lb_sweepEvery :: int
  lb_PerRequest :: int
  lb_Size :: int

definition LeakyBucket :: "int \<Rightarrow> int \<Rightarrow> LeakyBucketStrategy" where
  "LeakyBucket perRequest sz =
     \<lparr>lb_storage = Map.empty, lb_heap = (\<lambda>_. \<lparr>li_Last = None, li_Count = 0\<rparr>), lb_next = 0,
      lb_cleanupRunning = False, lb_sweepEvery = 0, lb_PerRequest = perRequest, lb_Size = sz\<rparr>"

datatype lb_verdict = Admit | Drop | Sleep int nat

definition lb_lookup_or_make :: "LeakyBucketStrategy \<Rightarrow> string \<Rightarrow> nat \<times> LeakyBucketStrategy" where
  "lb_lookup_or_make b key =
     (case lb_storage b key of
        Some a \<Rightarrow> (a, b)
      | None \<Rightarrow>
          let a = lb_next b
          in (a, b\<lparr>lb_storage := (lb_storage b)(key \<mapsto> a),
                   lb_heap := (lb_heap b)(a := \<lparr>li_Last = None, li_Count = 0\<rparr>),
                   lb_next := Suc a\<rparr>))"

definition lb_set :: "LeakyBucketStrategy \<Rightarrow> nat \<Rightarrow> leakyItem \<Rightarrow> LeakyBucketStrategy" where
  "lb_set b a t = b\<lparr>lb_heap := (lb_heap b)(a := t)\<rparr>"

text \<open>The part of \<^verbatim>\<open>Take\<close> after the item is found and the janitor is live.\<close>

definition lb_decide :: "LeakyBucketStrategy \<Rightarrow> nat \<Rightarrow> nanos \<Rightarrow> lb_verdict \<times> LeakyBucketStrategy" where
  "lb_decide b a now =
     (let t = lb_heap b a
      in case li_Last t of
           None \<Rightarrow> (Admit, lb_set b a (t\<lparr>li_Last := Some now\<rparr>))
         | Some lastT \<Rightarrow>
             let nxt = lastT + lb_PerRequest b; sleep = nxt - now
             in if sleep \<le> 0 then (Admit, lb_set b a (t\<lparr>li_Last := Some now\<rparr>))
                else if li_Count t \<ge> lb_Size b then (Drop, b)
                else (Sleep sleep a,
                      lb_set b a (t\<lparr>li_Last := Some nxt, li_Count := li_Count t + 1\<rparr>)))"

definition lb_enter ::
  "LeakyBucketStrategy \<Rightarrow> nanos \<Rightarrow> string \<Rightarrow> lb_verdict \<times> LeakyBucketStrategy"
where
  "lb_enter b now key =
     (let (a, b1) = lb_lookup_or_make b key;
          b2 = (if \<not> lb_cleanupRunning b1 then b1\<lparr>lb_cleanupRunning := True\<rparr> else b1)
      in lb_decide b2 a now)"

definition lb_wake :: "LeakyBucketStrategy \<Rightarrow> nat \<Rightarrow> LeakyBucketStrategy" where
  "lb_wake b a = lb_set b a ((lb_heap b a)\<lparr>li_Count := li_Count (lb_heap b a) - 1\<rparr>)"

definition lb_Put :: "LeakyBucketStrategy \<Rightarrow> string \<Rightarrow> LeakyBucketStrategy" where
  "lb_Put b key = b"

text \<open>
  \<^verbatim>\<open>next.Before(now)\<close> on an item whose \<^verbatim>\<open>Last\<close> is still zero is true for every real clock; no
  such item is ever visible, since \<open>lb_enter\<close> sets \<^verbatim>\<open>Last\<close> before it unlocks.
\<close>

definition lb_After :: "LeakyBucketStrategy \<Rightarrow> nanos \<Rightarrow> string \<Rightarrow> int" where
  "lb_After b now key =
     (case lb_storage b key of
        None \<Rightarrow> 0
      | Some a \<Rightarrow>
          (case li_Last (lb_heap b a) of
             None \<Rightarrow> 0
           | Some lastT \<Rightarrow>
               let nxt = lastT + lb_PerRequest b in if nxt < now then 0 else nxt - now))"

text \<open>The sweep interval, which is also the idle age, of \<^verbatim>\<open>cleanupLoop\<close>.\<close>

definition lb_every :: "LeakyBucketStrategy \<Rightarrow> int" where
  "lb_every b =
     (if lb_sweepEvery b \<le> 0
      then let every = lb_PerRequest b + 1000000000
           in if every < 60000000000 then 60000000000 else every
      else lb_sweepEvery b)"

definition lb_stale :: "leakyItem \<Rightarrow> int \<Rightarrow> bool" where
  "lb_stale t deleteBefore \<longleftrightarrow>
     li_Count t \<le> 0 \<and> (case li_Last t of None \<Rightarrow> True | Some lastT \<Rightarrow> lastT < deleteBefore)"

definition lb_evictStale :: "LeakyBucketStrategy \<Rightarrow> nanos \<Rightarrow> int \<Rightarrow> bool \<times> LeakyBucketStrategy" where
  "lb_evictStale b now maxAge =
     (let deleteBefore = now - maxAge;
          keep = (\<lambda>k. case lb_storage b k of
                        None \<Rightarrow> None
                      | Some a \<Rightarrow> if lb_stale (lb_heap b a) deleteBefore then None else Some a);
          b1 = b\<lparr>lb_storage := keep\<rparr>
      in if keep \<noteq> Map.empty then (False, b1)
         else (True, b1\<lparr>lb_cleanupRunning := False\<rparr>))"

section \<open>Interleaved requests, janitor and clock\<close>

text \<open>The strategy, the sleeping requests, the clock and the log of releases, newest first.\<close>

type_synonym lb_sys =
  "LeakyBucketStrategy \<times> (string \<times> nat) multiset \<times> nanos \<times> (string \<times> nanos) list"

inductive lb_step :: "lb_sys \<Rightarrow> lb_sys \<Rightarrow> bool" where
  tick: "now \<le> now' \<Longrightarrow> lb_step (b, W, now, rel) (b, W, now', rel)"
| admit: "lb_enter b now k = (Admit, b') \<Longrightarrow>
     lb_step (b, W, now, rel) (b', W, now, (k, now) # rel)"
| drop: "lb_enter b now k = (Drop, b') \<Longrightarrow> lb_step (b, W, now, rel) (b', W, now, rel)"
| sleep: "lb_enter b now k = (Sleep d a, b') \<Longrightarrow>
     lb_step (b, W, now, rel) (b', add_mset (k, a) W, now, (k, now + d) # rel)"
| wake: "lb_step (b, add_mset (k, a) W, now, rel) (lb_wake b a, W, now, rel)"
| sweep: "lb_cleanupRunning b \<Longrightarrow> lb_evictStale b now (lb_every b) = (stopped, b') \<Longrightarrow>
     lb_step (b, W, now, rel) (b', W, now, rel)"

inductive lb_reachable :: "int \<Rightarrow> int \<Rightarrow> lb_sys \<Rightarrow> bool" for per sz where
  start: "lb_reachable per sz (LeakyBucket per sz, {#}, now, [])"
| step: "lb_reachable per sz s \<Longrightarrow> lb_step s s' \<Longrightarrow> lb_reachable per sz s'"

definition lb_item_ok :: "int \<Rightarrow> (string \<times> nat) multiset \<Rightarrow> (string \<times> nanos) list \<Rightarrow> string \<Rightarrow> nat
    \<Rightarrow> leakyItem \<Rightarrow> bool"
where
  "lb_item_ok sz W rel k a t \<longleftrightarrow>
     li_Count t = int (count W (k, a)) \<and> (li_Count t = 0 \<or> li_Count t \<le> sz)
     \<and> (\<exists>lastT. li_Last t = Some lastT \<and> (\<forall>r. (k, r) \<in> set rel \<longrightarrow> r \<le> lastT))"

definition lb_inv :: "int \<Rightarrow> int \<Rightarrow> lb_sys \<Rightarrow> bool" where
  "lb_inv per sz = (\<lambda>(b, W, now, rel).
     lb_PerRequest b = per \<and> lb_Size b = sz \<and> lb_sweepEvery b = 0
     \<and> (lb_storage b \<noteq> Map.empty \<longrightarrow> lb_cleanupRunning b)
     \<and> (\<forall>k a. lb_storage b k = Some a \<longrightarrow> a < lb_next b \<and> lb_item_ok sz W rel k a (lb_heap b a))
     \<and> (\<forall>k a. lb_storage b k \<noteq> Some a \<longrightarrow> count W (k, a) = 0)
     \<and> (\<forall>k. lb_storage b k = None \<longrightarrow> (\<forall>r. (k, r) \<in> set rel \<longrightarrow> r + per \<le> now))
     \<and> (\<forall>k k' a. lb_storage b k = Some a \<longrightarrow> lb_storage b k' = Some a \<longrightarrow> k = k')
     \<and> sorted_wrt (\<lambda>(k, r) (k', r'). k = k' \<longrightarrow> r' + per \<le> r) rel)"

lemma lb_inv_start: "lb_inv per sz (LeakyBucket per sz, {#}, now, [])"
  by (simp add: lb_inv_def LeakyBucket_def)

text \<open>
  \<open>lb_at per sz s k a b\<close>: strategy \<open>b\<close> is that of \<open>s\<close> except that the janitor runs and key \<open>k\<close>
  has the item at \<open>a\<close>, which accounts for \<open>k\<close>'s sleepers and releases.
\<close>

definition lb_at :: "int \<Rightarrow> int \<Rightarrow> lb_sys \<Rightarrow> string \<Rightarrow> nat \<Rightarrow> LeakyBucketStrategy \<Rightarrow> bool" where
  "lb_at per sz = (\<lambda>(b, W, now, rel) k a b2.
     lb_storage b2 = (lb_storage b)(k \<mapsto> a) \<and> lb_cleanupRunning b2
     \<and> lb_PerRequest b2 = per \<and> lb_Size b2 = sz \<and> lb_sweepEvery b2 = 0 \<and> a < lb_next b2
     \<and> (\<forall>j x. lb_storage b j = Some x \<longrightarrow> j \<noteq> k \<longrightarrow>
          x \<noteq> a \<and> x < lb_next b2 \<and> lb_heap b2 x = lb_heap b x)
     \<and> li_Count (lb_heap b2 a) = int (count W (k, a))
     \<and> (li_Count (lb_heap b2 a) = 0 \<or> li_Count (lb_heap b2 a) \<le> sz)
     \<and> (\<forall>r. (k, r) \<in> set rel \<longrightarrow>
          (case li_Last (lb_heap b2 a) of None \<Rightarrow> r + per \<le> now | Some l \<Rightarrow> r \<le> l))
     \<and> (\<forall>x. x \<noteq> a \<longrightarrow> count W (k, x) = 0))"

lemma lb_at_stored:
  assumes "lb_inv per sz (b, W, now, rel)" and "lb_storage b k = Some a"
  shows "lb_at per sz (b, W, now, rel) k a b"
proof -
  have "lb_cleanupRunning b" using assms by (auto simp: lb_inv_def)
  moreover have "lb_item_ok sz W rel k a (lb_heap b a)" using assms by (simp add: lb_inv_def)
  then have "li_Count (lb_heap b a) = int (count W (k, a)) \<and> (li_Count (lb_heap b a) = 0 \<or>
      li_Count (lb_heap b a) \<le> sz) \<and> (\<forall>r. (k, r) \<in> set rel \<longrightarrow>
          (case li_Last (lb_heap b a) of None \<Rightarrow> r + per \<le> now | Some l \<Rightarrow> r \<le> l))"
    by (auto simp: lb_item_ok_def)
  moreover have "\<forall>x. x \<noteq> a \<longrightarrow> count W (k, x) = 0" using assms by (simp add: lb_inv_def)
  moreover have "\<forall>j x. lb_storage b j = Some x \<longrightarrow> j \<noteq> k \<longrightarrow> x \<noteq> a \<and> x < lb_next b"
    using assms unfolding lb_inv_def by blast
  moreover have "lb_PerRequest b = per \<and> lb_Size b = sz \<and> lb_sweepEvery b = 0 \<and> a < lb_next b"
    using assms by (simp add: lb_inv_def)
  moreover have "lb_storage b = (lb_storage b)(k \<mapsto> a)" using assms(2) by auto
  ultimately show ?thesis unfolding lb_at_def split_conv by (intro conjI) blast+
qed

lemma lb_enter_at:
  assumes "lb_inv per sz (b, W, now, rel)"
  shows "\<exists>a b2. lb_at per sz (b, W, now, rel) k a b2 \<and> lb_enter b now k = lb_decide b2 a now"
proof (cases "lb_storage b k")
  case (Some a)
  have "lb_cleanupRunning b" using assms Some by (auto simp: lb_inv_def)
  with Some have "lb_enter b now k = lb_decide b a now"
    by (simp add: lb_enter_def lb_lookup_or_make_def)
  with lb_at_stored [OF assms Some] show ?thesis by blast
next
  case None
  let ?a = "lb_next b"
  let ?b2 = "b\<lparr>lb_storage := (lb_storage b)(k \<mapsto> ?a),
               lb_heap := (lb_heap b)(?a := \<lparr>li_Last = None, li_Count = 0\<rparr>), lb_next := Suc ?a,
               lb_cleanupRunning := True\<rparr>"
  have fresh: "x < ?a" if "lb_storage b j = Some x" for j x using assms that by (simp add: lb_inv_def)
  have z: "count W (k, x) = 0" for x using assms None by (simp add: lb_inv_def)
  have "lb_enter b now k = lb_decide ?b2 ?a now"
    using None by (cases b) (simp add: lb_enter_def lb_lookup_or_make_def Let_def)
  moreover have "lb_at per sz (b, W, now, rel) k ?a ?b2"
    using assms None z by (auto simp: lb_at_def lb_inv_def dest: fresh)
  ultimately show ?thesis by blast
qed

text \<open>Writing one key's item keeps the invariant when the item accounts for that key.\<close>

lemma lb_inv_set:
  assumes inv: "lb_inv per sz (b, W, now, rel)" and at: "lb_at per sz (b, W, now, rel) k a b2"
    and it: "lb_item_ok sz W' rel' k a t'"
    and W': "\<forall>j x. (j, x) \<noteq> (k, a) \<longrightarrow> count W' (j, x) = count W (j, x)"
    and rel': "\<forall>j r. j \<noteq> k \<longrightarrow> (j, r) \<in> set rel' \<longleftrightarrow> (j, r) \<in> set rel"
    and so: "sorted_wrt (\<lambda>(k, r) (k', r'). k = k' \<longrightarrow> r' + per \<le> r) rel'"
  shows "lb_inv per sz (lb_set b2 a t', W', now, rel')"
proof -
  let ?S = "(lb_storage b)(k \<mapsto> a)"
  have fr: "x \<noteq> a \<and> x < lb_next b2 \<and> lb_heap b2 x = lb_heap b x"
    if "lb_storage b j = Some x" "j \<noteq> k" for j x
    using at that by (simp add: lb_at_def)
  have Wk: "count W' (k, x) = 0" if "x \<noteq> a" for x
    using at W' that by (simp add: lb_at_def)
  have 1: "x < lb_next b2 \<and> lb_item_ok sz W' rel' j x (((lb_heap b2)(a := t')) x)"
    if "?S j = Some x" for j x
  proof (cases "j = k")
    case True
    with that it at show ?thesis by (simp add: lb_at_def)
  next
    case False
    with that have j: "lb_storage b j = Some x" by simp
    with inv have "lb_item_ok sz W rel j x (lb_heap b x)" by (simp add: lb_inv_def)
    with fr [OF j False] False W' rel' show ?thesis by (auto simp: lb_item_ok_def)
  qed
  have 2: "count W' (j, x) = 0" if "?S j \<noteq> Some x" for j x
    using that inv W' Wk by (cases "j = k") (auto simp: lb_inv_def)
  have 3: "r + per \<le> now" if "?S j = None" "(j, r) \<in> set rel'" for j r
    using that inv rel' by (cases "j = k") (auto simp: lb_inv_def)
  have 4: "j = j'" if "?S j = Some x" "?S j' = Some x" for j j' x
  proof (cases "j = k \<or> j' = k")
    case True
    with that fr show ?thesis by (auto split: if_splits)
  next
    case False
    with that inv show ?thesis by (auto simp: lb_inv_def)
  qed
  have cfg: "lb_storage b2 = ?S \<and> lb_cleanupRunning b2 \<and> lb_PerRequest b2 = per \<and> lb_Size b2 = sz
      \<and> lb_sweepEvery b2 = 0" using at by (simp add: lb_at_def)
  show ?thesis using cfg so 1 2 3 4
    unfolding lb_inv_def lb_set_def by (simp del: fun_upd_apply)
qed

lemma lb_inv_enter:
  assumes inv: "lb_inv per sz (b, W, now, rel)" and per: "0 \<le> per" and "lb_enter b now k = (v, b')"
  shows "case v of
           Admit \<Rightarrow> lb_inv per sz (b', W, now, (k, now) # rel)
         | Drop \<Rightarrow> lb_inv per sz (b', W, now, rel)
         | Sleep d a \<Rightarrow> lb_inv per sz (b', add_mset (k, a) W, now, (k, now + d) # rel)"
proof -
  from lb_enter_at [OF inv, of k] assms(3) obtain a b2 where
    at: "lb_at per sz (b, W, now, rel) k a b2" and e: "lb_decide b2 a now = (v, b')" by auto
  note set = lb_inv_set [OF inv at]
  let ?t = "lb_heap b2 a"
  have cfg: "lb_PerRequest b2 = per" "lb_Size b2 = sz" using at by (simp_all add: lb_at_def)
  have cnt: "li_Count ?t = int (count W (k, a))" "li_Count ?t = 0 \<or> li_Count ?t \<le> sz"
    using at by (auto simp: lb_at_def)
  have last: "case li_Last ?t of None \<Rightarrow> r + per \<le> now | Some l \<Rightarrow> r \<le> l"
    if "(k, r) \<in> set rel" for r using at that by (simp add: lb_at_def)
  have so: "sorted_wrt (\<lambda>(k, r) (k', r'). k = k' \<longrightarrow> r' + per \<le> r) rel"
    using inv by (simp add: lb_inv_def)
  have immediate: "lb_inv per sz (lb_set b2 a (?t\<lparr>li_Last := Some now\<rparr>), W, now, (k, now) # rel)"
    if past: "\<And>r. (k, r) \<in> set rel \<Longrightarrow> r + per \<le> now"
  proof (rule set)
    show "lb_item_ok sz W ((k, now) # rel) k a (?t\<lparr>li_Last := Some now\<rparr>)"
      using cnt past per by (force simp: lb_item_ok_def)
  qed (use so past in auto)
  show ?thesis
  proof (cases "li_Last ?t")
    case None
    with last e immediate show ?thesis by (auto simp: lb_decide_def Let_def)
  next
    case (Some l)
    with last have le: "r \<le> l" if "(k, r) \<in> set rel" for r using that by fastforce
    consider (now) "l + per - now \<le> 0" | (full) "\<not> l + per - now \<le> 0" "li_Count ?t \<ge> sz"
      | (queue) "\<not> l + per - now \<le> 0" "\<not> li_Count ?t \<ge> sz" by blast
    then show ?thesis
    proof cases
      case now
      have "r + per \<le> now" if "(k, r) \<in> set rel" for r using le [OF that] now by simp
      from immediate [OF this] show ?thesis
        using e Some cfg now by (auto simp: lb_decide_def Let_def)
    next
      case full
      have "lb_inv per sz (lb_set b2 a ?t, W, now, rel)"
      proof (rule set)
        show "lb_item_ok sz W rel k a ?t" using cnt Some le by (simp add: lb_item_ok_def)
      qed (use so in auto)
      with full e Some cfg show ?thesis by (auto simp: lb_set_def lb_decide_def Let_def)
    next
      case queue
      let ?t' = "?t\<lparr>li_Last := Some (l + per), li_Count := li_Count ?t + 1\<rparr>"
      have "lb_inv per sz (lb_set b2 a ?t', add_mset (k, a) W, now, (k, l + per) # rel)"
      proof (rule set)
        show "lb_item_ok sz (add_mset (k, a) W) ((k, l + per) # rel) k a ?t'"
          using cnt queue le per by (force simp: lb_item_ok_def)
      qed (use so le in auto)
      with queue e Some cfg show ?thesis by (auto simp: lb_decide_def Let_def)
    qed
  qed
qed

lemma lb_inv_wake:
  assumes "lb_inv per sz (b, add_mset (k, a) W, now, rel)"
  shows "lb_inv per sz (lb_wake b a, W, now, rel)"
proof -
  have a: "lb_storage b k = Some a"
    using assms by (rule contrapos_pp) (auto simp: lb_inv_def)
  have it: "lb_item_ok sz (add_mset (k, a) W) rel k a (lb_heap b a)"
    using assms a by (simp add: lb_inv_def)
  have so: "sorted_wrt (\<lambda>(k, r) (k', r'). k = k' \<longrightarrow> r' + per \<le> r) rel"
    using assms by (simp add: lb_inv_def)
  show ?thesis unfolding lb_wake_def
  proof (rule lb_inv_set [OF assms lb_at_stored [OF assms a] _ _ _ so])
    show "lb_item_ok sz W rel k a ((lb_heap b a)\<lparr>li_Count := li_Count (lb_heap b a) - 1\<rparr>)"
      using it by (auto simp: lb_item_ok_def)
  qed auto
qed

lemma lb_inv_sweep:
  assumes "lb_inv per sz (b, W, now, rel)" and "lb_evictStale b now (lb_every b) = (st, b')"
    and "lb_cleanupRunning b"
  shows "lb_inv per sz (b', W, now, rel)"
proof -
  define keep where "keep = (\<lambda>k. case lb_storage b k of
      None \<Rightarrow> None | Some a \<Rightarrow> if lb_stale (lb_heap b a) (now - lb_every b) then None else Some a)"
  have every: "per \<le> lb_every b" using assms(1) by (auto simp: lb_every_def lb_inv_def Let_def)
  have sub: "lb_storage b k = Some a" if "keep k = Some a" for k a
    using that by (auto simp: keep_def split: option.splits if_splits)
  have gone: "count W (k, a) = 0 \<and> (\<forall>r. (k, r) \<in> set rel \<longrightarrow> r + per \<le> now)"
    if "lb_storage b k = Some a" "keep k = None" for k a
  proof -
    have "lb_item_ok sz W rel k a (lb_heap b a)" using assms(1) that by (simp add: lb_inv_def)
    moreover have "lb_stale (lb_heap b a) (now - lb_every b)"
      using that by (auto simp: keep_def split: if_splits)
    ultimately show ?thesis using every by (fastforce simp: lb_item_ok_def lb_stale_def)
  qed
  have W: "count W (k, a) = 0" if "keep k \<noteq> Some a" for k a
    using that gone [of k a] assms(1)
    by (cases "lb_storage b k = Some a") (auto simp: lb_inv_def keep_def split: if_splits)
  have r: "r + per \<le> now" if "keep k = None" "(k, r) \<in> set rel" for k r
    using that gone [of k] assms(1) by (cases "lb_storage b k") (auto simp: lb_inv_def)
  have b': "b' = b\<lparr>lb_storage := keep, lb_cleanupRunning := (keep \<noteq> Map.empty)\<rparr>"
    using assms(2,3) by (auto simp: lb_evictStale_def Let_def simp flip: keep_def split: if_splits)
  have k: "a < lb_next b \<and> lb_item_ok sz W rel k a (lb_heap b a)" if "keep k = Some a" for k a
    using assms(1) sub [OF that] by (simp add: lb_inv_def)
  have u: "k = k'" if "keep k = Some a" "keep k' = Some a" for k k' a
    using assms(1) sub [OF that(1)] sub [OF that(2)] unfolding lb_inv_def by blast
  from assms(1) have "lb_PerRequest b = per \<and> lb_Size b = sz \<and> lb_sweepEvery b = 0
      \<and> sorted_wrt (\<lambda>(k, r) (k', r'). k = k' \<longrightarrow> r' + per \<le> r) rel"
    by (simp add: lb_inv_def)
  with W r k u show ?thesis unfolding b' lb_inv_def by simp
qed

lemma lb_inv_step:
  assumes "lb_step s s'" and "lb_inv per sz s" and "0 \<le> per"
  shows "lb_inv per sz s'"
  using assms
proof (cases rule: lb_step.cases)
  case (tick now now' b W rel)
  have "\<forall>k. lb_storage b k = None \<longrightarrow> (\<forall>r. (k, r) \<in> set rel \<longrightarrow> r + per \<le> now)"
    using tick assms(2) by (simp add: lb_inv_def)
  with tick(3) have "\<forall>k. lb_storage b k = None \<longrightarrow> (\<forall>r. (k, r) \<in> set rel \<longrightarrow> r + per \<le> now')"
    by (meson order_trans)
  with tick assms(2) show ?thesis by (simp add: lb_inv_def)
next
  case (admit b now k b' W rel)
  with assms(2,3) lb_inv_enter [of per sz b W now rel k Admit b'] show ?thesis by simp
next
  case (drop b now k b' W rel)
  with assms(2,3) lb_inv_enter [of per sz b W now rel k Drop b'] show ?thesis by simp
next
  case (sleep b now k d a b' W rel)
  with assms(2,3) lb_inv_enter [of per sz b W now rel k "Sleep d a" b'] show ?thesis by simp
next
  case (wake b k a W now rel)
  with assms(2) lb_inv_wake show ?thesis by simp
next
  case (sweep b now stopped b' W rel)
  with assms(2) lb_inv_sweep show ?thesis by simp
qed

lemma lb_reachable_inv: "lb_reachable per sz s \<Longrightarrow> 0 \<le> per \<Longrightarrow> lb_inv per sz s"
  by (induction rule: lb_reachable.induct) (auto intro: lb_inv_start lb_inv_step)

section \<open>Properties\<close>


text \<open>
  In every reachable state at most \<^verbatim>\<open>Size\<close> requests of a key are asleep, the item a sleeper
  holds is still the one in the map (no sweep takes it away), and a non-empty map always has a
  live janitor.
\<close>

theorem leaky_bucket_queue:
  assumes "lb_reachable per sz (b, W, now, rel)" and "0 \<le> per"
  shows "int (count W (k, a)) \<le> max 0 sz
    \<and> (0 < count W (k, a) \<longrightarrow> lb_storage b k = Some a \<and> li_Count (lb_heap b a) = int (count W (k, a)))
    \<and> (lb_storage b \<noteq> Map.empty \<longrightarrow> lb_cleanupRunning b)"
proof -
  note i = lb_reachable_inv [OF assms]
  have "lb_item_ok sz W rel k a (lb_heap b a) \<and> lb_storage b k = Some a" if "0 < count W (k, a)"
  proof -
    have "count W (k, a) = 0" if "lb_storage b k \<noteq> Some a" using i that by (simp add: lb_inv_def)
    with that have "lb_storage b k = Some a" by (cases "lb_storage b k = Some a") simp_all
    with i show ?thesis by (simp add: lb_inv_def)
  qed
  moreover have "lb_storage b \<noteq> Map.empty \<longrightarrow> lb_cleanupRunning b" using i by (simp add: lb_inv_def)
  ultimately show ?thesis by (cases "count W (k, a) = 0") (auto simp: lb_item_ok_def)
qed

text \<open>Two requests of one key at time 100, the second asleep until 107.\<close>

definition lb_example :: LeakyBucketStrategy where
  "lb_example = (LeakyBucket 7 1)\<lparr>lb_storage := [''k'' \<mapsto> 0],
     lb_heap := (\<lambda>_. \<lparr>li_Last = None, li_Count = 0\<rparr>)(0 := \<lparr>li_Last = Some 107, li_Count = 1\<rparr>),
     lb_next := 1, lb_cleanupRunning := True\<rparr>"

lemma lb_example_reachable:
  "lb_reachable 7 1 (lb_example, {#(''k'', 0)#}, 100, [(''k'', 107), (''k'', 100)])"
proof -
  let ?b1 = "lb_example\<lparr>lb_heap := (\<lambda>_. \<lparr>li_Last = None, li_Count = 0\<rparr>)
                          (0 := \<lparr>li_Last = Some 100, li_Count = 0\<rparr>)\<rparr>"
  have 1: "lb_enter (LeakyBucket 7 1) 100 ''k'' = (Admit, ?b1)"
    by (simp add: lb_enter_def lb_lookup_or_make_def lb_decide_def lb_set_def LeakyBucket_def
        lb_example_def Let_def)
  have 2: "lb_enter ?b1 100 ''k'' = (Sleep 7 0, lb_example)"
    by (simp add: lb_enter_def lb_lookup_or_make_def lb_decide_def lb_set_def LeakyBucket_def
        lb_example_def Let_def)
  have "lb_reachable 7 1 (?b1, {#}, 100, [(''k'', 100)])"
    by (rule lb_reachable.step [OF lb_reachable.start lb_step.admit [OF 1]])
  from lb_reachable.step [OF this lb_step.sleep [OF 2]] show ?thesis by simp
qed


theorem leaky_bucket_queue_witness:
  "int (count {#(''k'', 0)#} (''k'', 0 :: nat)) \<le> max 0 1
    \<and> li_Count (lb_heap lb_example 0) = int (count {#(''k'', 0)#} (''k'', 0 :: nat))
    \<and> lb_cleanupRunning lb_example"
  using leaky_bucket_queue [OF lb_example_reachable, of "''k''" 0] by (auto simp: lb_example_def)

end
