(* ===== verification/Sliding_Window.thy ===== *)
theory Sliding_Window
  imports Complex_Main Ratelimit_Strategy
begin

text \<open>
  The sliding-window-counter strategy (\<^verbatim>\<open>pkg/ratelimit/slidingwindow.go\<close>) with its janitor's
  sweep. The blended count is computed in \<^verbatim>\<open>float64\<close> by the code and in exact rationals here, so
  the statements are about the algorithm and not about rounding in its last bit; conversions
  back to a duration truncate, as the code's do. A nil map reads as the empty map and \<^verbatim>\<open>Take\<close>
  allocates it before it writes.
\<close>

record slidingItem =
  si_window :: int
  si_curr :: int
  si_prev :: int

record SlidingWindowStrategy =
  sw_storage :: "string \<rightharpoonup> slidingItem"
  sw_cleanupRunning :: bool
  sw_sweepEvery :: int
  sw_Max :: int
  sw_Size :: int

definition SlidingWindow :: "int \<Rightarrow> int \<Rightarrow> SlidingWindowStrategy" where
  "SlidingWindow rate unit =
     \<lparr>sw_storage = Map.empty, sw_cleanupRunning = False, sw_sweepEvery = 0,
      sw_Max = rate, sw_Size = unit\<rparr>"

definition sw_size :: "SlidingWindowStrategy \<Rightarrow> int" where
  "sw_size b = (if sw_Size b \<le> 0 then 1000000000 else sw_Size b)"

definition sw_roll :: "int \<Rightarrow> slidingItem \<Rightarrow> slidingItem" where
  "sw_roll currentWindow t =
     (let d = currentWindow - si_window t;
          t' = (if d \<le> 0 then t
                else if d = 1 then t\<lparr>si_prev := si_curr t, si_curr := 0\<rparr>
                else t\<lparr>si_prev := 0, si_curr := 0\<rparr>)
      in t'\<lparr>si_window := currentWindow\<rparr>)"

definition weightedCount :: "int \<Rightarrow> int \<Rightarrow> int \<Rightarrow> int \<Rightarrow> rat" where
  "weightedCount prev cur now sz =
     (let elapsed = of_int (now smod sz) / of_int sz
      in of_int prev * (1 - elapsed) + of_int cur)"

definition sw_Take ::
  "SlidingWindowStrategy \<Rightarrow> nanos \<Rightarrow> string \<Rightarrow> (bool \<times> SlidingWindowStrategy) option"
where
  "sw_Take b now key =
     (let sz = sw_size b;
          currentWindow = now sdiv sz;
          t0 = (case sw_storage b key of
                  None \<Rightarrow> \<lparr>si_window = currentWindow, si_curr = 0, si_prev = 0\<rparr>
                | Some t \<Rightarrow> t);
          t = sw_roll currentWindow t0;
          b1 = b\<lparr>sw_storage := (sw_storage b)(key \<mapsto> t)\<rparr>;
          b2 = (if \<not> sw_cleanupRunning b1 then b1\<lparr>sw_cleanupRunning := True\<rparr> else b1)
      in if weightedCount (si_prev t) (si_curr t) now sz + 1 > of_int (sw_Max b2)
         then Some (False, b2)
         else Some (True, b2\<lparr>sw_storage := (sw_storage b2)(key \<mapsto> t\<lparr>si_curr := si_curr t + 1\<rparr>)\<rparr>))"

definition sw_Put :: "SlidingWindowStrategy \<Rightarrow> string \<Rightarrow> SlidingWindowStrategy option" where
  "sw_Put b key = Some b"

text \<open>\<^verbatim>\<open>time.Duration(x)\<close> of a float truncates towards zero.\<close>

definition trunc :: "rat \<Rightarrow> int" where
  "trunc x = (if 0 \<le> x then \<lfloor>x\<rfloor> else \<lceil>x\<rceil>)"

definition afterAt :: "int \<Rightarrow> int \<Rightarrow> int \<Rightarrow> int \<Rightarrow> int \<Rightarrow> int" where
  "afterAt maxTokens prev cur sz now =
     (if weightedCount prev cur now sz + 1 \<le> of_int maxTokens then 0
      else
        let curFrac = of_int (now smod sz) / of_int sz;
            toBoundary = s64 (s64 ((now sdiv sz + 1) * sz) - now);
            targetFrac = 1 - (of_int maxTokens - of_int cur - 1) / of_int prev
        in if prev > 0 \<and> cur + 1 \<le> maxTokens \<and> targetFrac > curFrac \<and> targetFrac < 1
           then trunc ((targetFrac - curFrac) * of_int sz) + 1
           else if cur + 1 \<le> maxTokens then toBoundary
           else if maxTokens \<le> 0 then toBoundary
           else let nextFrac = 1 - (of_int maxTokens - 1) / of_int cur
                in toBoundary + trunc (nextFrac * of_int sz) + 1)"

definition sw_After :: "SlidingWindowStrategy \<Rightarrow> nanos \<Rightarrow> string \<Rightarrow> int option" where
  "sw_After b now key =
     (let sz = sw_size b; currentWindow = now sdiv sz
      in case sw_storage b key of
           None \<Rightarrow> Some 0
         | Some t \<Rightarrow>
             let d = currentWindow - si_window t;
                 (prev, cur) = (if d \<le> 0 then (si_prev t, si_curr t)
                                 else if d = 1 then (si_curr t, 0)
                                 else (0, 0))
             in Some (afterAt (sw_Max b) prev cur sz now))"

definition sw_every :: "SlidingWindowStrategy \<Rightarrow> int" where
  "sw_every b =
     (if sw_sweepEvery b \<le> 0
      then let every = s64 (2 * sw_size b) in if every < 60000000000 then 60000000000 else every
      else sw_sweepEvery b)"

definition sw_evictStale :: "SlidingWindowStrategy \<Rightarrow> nanos \<Rightarrow> bool \<times> SlidingWindowStrategy" where
  "sw_evictStale b now =
     (let deleteBefore = now sdiv sw_size b - 1;
          keep = (\<lambda>k. case sw_storage b k of
                        None \<Rightarrow> None
                      | Some t \<Rightarrow> if si_window t < deleteBefore then None else Some t);
          b1 = b\<lparr>sw_storage := keep\<rparr>
      in if keep \<noteq> Map.empty then (False, b1)
         else (True, b1\<lparr>sw_cleanupRunning := False\<rparr>))"

definition sw_strategy :: "SlidingWindowStrategy Strategy" where
  "sw_strategy = \<lparr>Take = sw_Take, Put = sw_Put, After = sw_After\<rparr>"

section \<open>Arithmetic of the blend\<close>

lemma sw_size_pos: "0 < sw_size b"
  by (simp add: sw_size_def)

lemma weightedCount_pos:
  "0 \<le> now \<Longrightarrow> 0 < sz \<Longrightarrow>
     weightedCount prev cur now sz = of_int prev * (1 - of_int (now mod sz) / of_int sz) + of_int cur"
  by (simp add: weightedCount_def smod_pos Let_def)

lemma weightedCount_ge_curr:
  assumes "0 \<le> now" and "0 < sz" and "0 \<le> prev"
  shows "of_int cur \<le> weightedCount prev cur now sz"
proof -
  have "now mod sz \<le> sz" using pos_mod_bound [OF assms(2), of now] by linarith
  then have "(of_int (now mod sz) / of_int sz :: rat) \<le> 1" using assms by (simp add: field_simps)
  then show ?thesis using assms by (simp add: weightedCount_pos mult_nonneg_nonneg)
qed

lemma weightedCount_le_sum:
  assumes "0 \<le> now" and "0 < sz" and "0 \<le> prev"
  shows "weightedCount prev cur now sz \<le> of_int (prev + cur)"
proof -
  have "0 \<le> (of_int (now mod sz) / of_int sz :: rat)" using assms by simp
  then have "of_int prev * (1 - of_int (now mod sz) / of_int sz :: rat) \<le> of_int prev * 1"
    using assms by (intro mult_left_mono) simp_all
  then show ?thesis using assms by (simp add: weightedCount_pos)
qed

text \<open>The count a waiting client meets at \<open>now + d\<close>, the item having been rolled at \<open>now\<close>.\<close>

definition admits_at :: "int \<Rightarrow> int \<Rightarrow> int \<Rightarrow> int \<Rightarrow> int \<Rightarrow> int \<Rightarrow> bool" where
  "admits_at maxTokens prev cur sz now t =
     (let i = sw_roll (t div sz) \<lparr>si_window = now div sz, si_curr = cur, si_prev = prev\<rparr>
      in weightedCount (si_prev i) (si_curr i) t sz + 1 \<le> of_int maxTokens)"

lemma admits_same_window:
  assumes "0 \<le> now" "0 < sz" "0 \<le> d" "now mod sz + d < sz"
  shows "admits_at m prev cur sz now (now + d) \<longleftrightarrow>
     of_int prev * (1 - of_int (now mod sz + d) / of_int sz) + of_int cur + 1 \<le> (of_int m :: rat)"
proof -
  have e: "now + d = sz * (now div sz) + (now mod sz + d)" by simp
  have "(now + d) div sz = now div sz"
    by (rule int_div_pos_eq [OF e]) (use assms in auto)
  moreover have "(now + d) mod sz = now mod sz + d"
    by (rule int_mod_pos_eq [OF e]) (use assms in auto)
  ultimately show ?thesis using assms by (simp add: admits_at_def sw_roll_def weightedCount_pos)
qed

lemma admits_next_window:
  assumes "0 \<le> now" "0 < sz" "sz \<le> now mod sz + d" "now mod sz + d < 2 * sz"
  shows "admits_at m prev cur sz now (now + d) \<longleftrightarrow>
     of_int cur * (1 - of_int (now mod sz + d - sz) / of_int sz) + 1 \<le> (of_int m :: rat)"
proof -
  have e: "now + d = sz * (now div sz + 1) + (now mod sz + d - sz)" by (simp add: distrib_left)
  have "(now + d) div sz = now div sz + 1"
    by (rule int_div_pos_eq [OF e]) (use assms in auto)
  moreover have "(now + d) mod sz = now mod sz + d - sz"
    by (rule int_mod_pos_eq [OF e]) (use assms in auto)
  moreover have "0 \<le> now + d" using e assms by (smt (verit) pos_mod_bound)
  ultimately show ?thesis using assms by (simp add: admits_at_def sw_roll_def weightedCount_pos)
qed

lemma admits_later_window:
  assumes "0 \<le> now" "0 < sz" "2 * sz \<le> now mod sz + d" "1 \<le> m"
  shows "admits_at m prev cur sz now (now + d)"
proof -
  have "now + d = now div sz * sz + (now mod sz + d)" by simp
  moreover have "(now div sz + 2) * sz = now div sz * sz + 2 * sz" by (rule distrib_right)
  ultimately have "(now div sz + 2) * sz \<le> now + d" using assms(3) by linarith
  then have "now div sz + 2 \<le> (now + d) div sz"
    using assms(2) by (metis nonzero_mult_div_cancel_right order_less_irrefl zdiv_mono1)
  moreover have "0 \<le> now + d" using assms by (smt (verit) pos_mod_bound)
  ultimately show ?thesis using assms by (simp add: admits_at_def sw_roll_def weightedCount_pos)
qed

lemma toBoundary_eq:
  assumes "0 \<le> now" "0 < sz" "now + sz < 2 ^ 63"
  shows "s64 (s64 ((now sdiv sz + 1) * sz) - now) = sz - now mod sz"
proof -
  have r: "0 \<le> now mod sz" "now mod sz < sz" using assms by simp_all
  have e: "(now sdiv sz + 1) * sz = now + (sz - now mod sz)"
    using assms by (simp add: sdiv_pos algebra_simps flip: minus_mod_eq_mult_div)
  show ?thesis unfolding e using assms r by (simp add: s64_id in64_def)
qed

text \<open>A fraction reached: the decayed count is down to what the limit leaves.\<close>

lemma decay_reached:
  assumes "0 < sz" and "0 < (p :: int)" and "(1 - of_int q / of_int p) * of_int sz \<le> (of_int x :: rat)"
  shows "of_int p * (1 - of_int x / of_int sz) \<le> (of_int q :: rat)"
proof -
  have "1 - of_int q / of_int p \<le> (of_int x / of_int sz :: rat)"
    using assms by (simp add: pos_le_divide_eq)
  then have "1 - of_int x / of_int sz \<le> (of_int q / of_int p :: rat)" by simp
  then show ?thesis using assms(2) by (simp add: pos_le_divide_eq mult.commute)
qed

lemma afterAt_this_window:
  assumes "0 \<le> now" "0 < sz" "0 < prev" "cur + 1 \<le> m"
    and t: "t = 1 - (of_int m - of_int cur - 1) / of_int prev"
    and f: "f = of_int (now mod sz) / of_int sz"
    and "f < t" "t < 1"
  shows "0 \<le> trunc ((t - f) * of_int sz) + 1
    \<and> admits_at m prev cur sz now (now + (trunc ((t - f) * of_int sz) + 1))"
proof -
  let ?r = "now mod sz" and ?x = "(t - f) * of_int sz"
  let ?d = "\<lfloor>?x\<rfloor> + 1"
  have r: "0 \<le> ?r" "?r < sz" using assms by simp_all
  have x0: "0 \<le> ?x" using assms by simp
  then have d: "trunc ?x + 1 = ?d" "0 \<le> ?d" by (simp_all add: trunc_def)
  have rx: "of_int ?r + ?x = t * of_int sz" using assms(2) by (simp add: f field_simps)
  have "?x < of_int ?d" by linarith
  with rx have up: "t * of_int sz \<le> of_int (?r + ?d)" by simp
  have "of_int ?d \<le> ?x + 1" by linarith
  moreover have "t * of_int sz < 1 * of_int sz"
    using assms by (intro mult_strict_right_mono) simp_all
  ultimately have "of_int ?r + of_int ?d < of_int sz + (1 :: rat)" using rx by linarith
  then have le: "?r + ?d \<le> sz" by linarith
  have "admits_at m prev cur sz now (now + ?d)"
  proof (cases "?r + ?d < sz")
    case True
    have "of_int prev * (1 - of_int (?r + ?d) / of_int sz) \<le> (of_int (m - cur - 1) :: rat)"
      by (rule decay_reached [OF assms(2,3)]) (use up t in simp)
    with True assms d show ?thesis by (subst admits_same_window) simp_all
  next
    case False
    with le have e: "?r + ?d = sz" by simp
    show ?thesis using assms(1,2,4) e
      by (subst admits_next_window) (simp_all add: algebra_simps)
  qed
  with d show ?thesis by simp
qed

lemma afterAt_full_window:
  assumes "0 \<le> now" "0 < sz" "1 \<le> m" "m \<le> cur"
  shows "0 \<le> trunc ((1 - (of_int m - 1) / of_int cur) * of_int sz)
    \<and> admits_at m prev cur sz now
        (now + (sz - now mod sz + trunc ((1 - (of_int m - 1) / of_int cur) * of_int sz) + 1))"
proof -
  let ?r = "now mod sz" and ?y = "(1 - (of_int m - 1) / of_int cur) * of_int sz :: rat"
  let ?d = "sz - ?r + \<lfloor>?y\<rfloor> + 1"
  have r: "0 \<le> ?r" "?r < sz" using assms by simp_all
  have "(of_int m - 1) / of_int cur \<le> (1 :: rat)" using assms by (simp add: divide_le_eq)
  then have y0: "0 \<le> ?y" using assms by simp
  then have d: "trunc ?y = \<lfloor>?y\<rfloor>" "0 \<le> \<lfloor>?y\<rfloor>" by (simp_all add: trunc_def)
  have "admits_at m prev cur sz now (now + ?d)"
  proof (cases "\<lfloor>?y\<rfloor> + 1 < sz")
    case True
    have "?y \<le> of_int (\<lfloor>?y\<rfloor> + 1)" by linarith
    then have "of_int cur * (1 - of_int (\<lfloor>?y\<rfloor> + 1) / of_int sz) \<le> (of_int (m - 1) :: rat)"
      using assms by (intro decay_reached) simp_all
    with True assms(3,4) d show ?thesis by (subst admits_next_window [OF assms(1,2)]) simp_all
  next
    case False
    with assms r show ?thesis by (intro admits_later_window) simp_all
  qed
  with d show ?thesis by (simp add: add.assoc)
qed

lemma afterAt_admits:
  assumes "0 \<le> now" "0 < sz" "now + sz < 2 ^ 63" "0 \<le> prev" "0 \<le> cur" "1 \<le> m"
  shows "0 \<le> afterAt m prev cur sz now \<and> admits_at m prev cur sz now (now + afterAt m prev cur sz now)"
proof -
  let ?r = "now mod sz" and ?t = "1 - (of_int m - of_int cur - 1) / of_int prev :: rat"
  let ?f = "of_int ?r / of_int sz :: rat"
  have r: "0 \<le> ?r" "?r < sz" using assms by simp_all
  note tb = toBoundary_eq [OF assms(1-3)]
  consider (now) "weightedCount prev cur now sz + 1 \<le> of_int m"
    | (inside) "\<not> weightedCount prev cur now sz + 1 \<le> of_int m" "prev > 0 \<and> cur + 1 \<le> m \<and> ?f < ?t \<and> ?t < 1"
    | (boundary) "\<not> weightedCount prev cur now sz + 1 \<le> of_int m"
        "\<not> (prev > 0 \<and> cur + 1 \<le> m \<and> ?f < ?t \<and> ?t < 1)" "cur + 1 \<le> m"
    | (full) "\<not> weightedCount prev cur now sz + 1 \<le> of_int m"
        "\<not> (prev > 0 \<and> cur + 1 \<le> m \<and> ?f < ?t \<and> ?t < 1)" "\<not> cur + 1 \<le> m" by blast
  then show ?thesis
  proof cases
    case now
    then show ?thesis by (simp add: afterAt_def admits_at_def sw_roll_def)
  next
    case inside
    then have "afterAt m prev cur sz now = trunc ((?t - ?f) * of_int sz) + 1"
      using assms by (simp add: afterAt_def Let_def smod_pos)
    moreover have "0 \<le> trunc ((?t - ?f) * of_int sz) + 1
      \<and> admits_at m prev cur sz now (now + (trunc ((?t - ?f) * of_int sz) + 1))"
      using inside assms(1,2) by (intro afterAt_this_window) auto
    ultimately show ?thesis by simp
  next
    case boundary
    then have "afterAt m prev cur sz now = sz - ?r"
      using assms tb by (auto simp: afterAt_def Let_def smod_pos)
    then show ?thesis using boundary(3) assms(1,2) r
      by (subst admits_next_window) (simp_all add: algebra_simps)
  next
    case full
    then have "afterAt m prev cur sz now
        = sz - ?r + trunc ((1 - (of_int m - 1) / of_int cur) * of_int sz) + 1"
      using assms tb by (auto simp: afterAt_def Let_def smod_pos)
    with afterAt_full_window [OF assms(1,2,6), of cur prev] full(3) r show ?thesis by simp
  qed
qed

section \<open>Invariant and contract\<close>

text \<open>Counts are never negative and the current window never exceeds the limit.\<close>

definition item_bounds :: "int \<Rightarrow> slidingItem \<Rightarrow> bool" where
  "item_bounds m t \<longleftrightarrow> 0 \<le> si_prev t \<and> 0 \<le> si_curr t \<and> (si_curr t = 0 \<or> si_curr t \<le> m)"

definition sw_invar :: "SlidingWindowStrategy \<Rightarrow> bool" where
  "sw_invar b \<longleftrightarrow>
     (\<forall>k t. sw_storage b k = Some t \<longrightarrow> item_bounds (sw_Max b) t)
     \<and> (sw_storage b \<noteq> Map.empty \<longrightarrow> sw_cleanupRunning b)"

text \<open>The clock is not negative, a limit is set, and two more windows fit \<^verbatim>\<open>int64\<close>.\<close>

definition sw_clock :: "SlidingWindowStrategy \<Rightarrow> nanos \<Rightarrow> bool" where
  "sw_clock b now \<longleftrightarrow> 0 \<le> now \<and> now + 2 * sw_size b < 2 ^ 63 \<and> 1 \<le> sw_Max b"

definition sw_item :: "SlidingWindowStrategy \<Rightarrow> nanos \<Rightarrow> string \<Rightarrow> slidingItem" where
  "sw_item b now k =
     sw_roll (now sdiv sw_size b)
       (case sw_storage b k of
          None \<Rightarrow> \<lparr>si_window = now sdiv sw_size b, si_curr = 0, si_prev = 0\<rparr>
        | Some t \<Rightarrow> t)"

definition sw_admits :: "SlidingWindowStrategy \<Rightarrow> nanos \<Rightarrow> string \<Rightarrow> bool" where
  "sw_admits b now k \<longleftrightarrow>
     weightedCount (si_prev (sw_item b now k)) (si_curr (sw_item b now k)) now (sw_size b) + 1
       \<le> of_int (sw_Max b)"

lemma sw_janitor_live:
  "(if \<not> sw_cleanupRunning b then b\<lparr>sw_cleanupRunning := True\<rparr> else b) = b\<lparr>sw_cleanupRunning := True\<rparr>"
  by (cases b) simp

lemma sw_Take_eq:
  "sw_Take b now k =
     Some (sw_admits b now k,
       b\<lparr>sw_storage := (sw_storage b)(k \<mapsto>
            (if sw_admits b now k then (sw_item b now k)\<lparr>si_curr := si_curr (sw_item b now k) + 1\<rparr>
             else sw_item b now k)),
         sw_cleanupRunning := True\<rparr>)"
  unfolding sw_Take_def Let_def sw_janitor_live sw_admits_def sw_item_def by (simp add: not_le)

lemma sw_roll_bounds: "item_bounds m t \<Longrightarrow> item_bounds m (sw_roll w t)"
  by (simp add: item_bounds_def sw_roll_def Let_def)

lemma sw_item_bounds: "sw_invar b \<Longrightarrow> item_bounds (sw_Max b) (sw_item b now k)"
  unfolding sw_item_def
  by (rule sw_roll_bounds) (auto simp: sw_invar_def item_bounds_def split: option.split)

lemma sw_admits_curr:
  assumes "sw_invar b" and "0 \<le> now" and "sw_admits b now k"
  shows "si_curr (sw_item b now k) + 1 \<le> sw_Max b"
proof -
  let ?t = "sw_item b now k"
  have "0 \<le> si_prev ?t" using sw_item_bounds [OF assms(1)] by (simp add: item_bounds_def)
  from weightedCount_ge_curr [OF assms(2) sw_size_pos this, of "si_curr ?t" b] assms(3)
  have "of_int (si_curr ?t) + 1 \<le> (of_int (sw_Max b) :: rat)" by (simp add: sw_admits_def)
  then show ?thesis by linarith
qed

lemma sw_Take_invar:
  assumes "sw_invar b" and "0 \<le> now" and "sw_Take b now k = Some (r, b')"
  shows "sw_invar b'"
proof -
  let ?t = "sw_item b now k"
  let ?t' = "if sw_admits b now k then ?t\<lparr>si_curr := si_curr ?t + 1\<rparr> else ?t"
  have "item_bounds (sw_Max b) ?t'"
    using sw_item_bounds [OF assms(1), of now k] sw_admits_curr [OF assms(1,2), of k]
    by (auto simp: item_bounds_def)
  moreover have "b' = b\<lparr>sw_storage := (sw_storage b)(k \<mapsto> ?t'), sw_cleanupRunning := True\<rparr>"
    using assms(3) by (auto simp: sw_Take_eq)
  ultimately show ?thesis using assms(1) by (auto simp: sw_invar_def)
qed

lemma sw_After_eq:
  "sw_After b now k =
     (case sw_storage b k of
        None \<Rightarrow> Some 0
      | Some _ \<Rightarrow> Some (afterAt (sw_Max b) (si_prev (sw_item b now k)) (si_curr (sw_item b now k))
                       (sw_size b) now))"
  by (auto simp: sw_After_def sw_item_def sw_roll_def Let_def split: option.split)

lemma sw_afterAt:
  assumes "sw_invar b" and "sw_clock b now" and t_def: "t = sw_item b now k"
  shows "0 \<le> afterAt (sw_Max b) (si_prev t) (si_curr t) (sw_size b) now
    \<and> admits_at (sw_Max b) (si_prev t) (si_curr t) (sw_size b) now
        (now + afterAt (sw_Max b) (si_prev t) (si_curr t) (sw_size b) now)"
proof (rule afterAt_admits)
  show "0 \<le> si_prev t" "0 \<le> si_curr t"
    using sw_item_bounds [OF assms(1)] by (simp_all add: t_def item_bounds_def)
qed (use assms sw_size_pos [of b] in \<open>auto simp: sw_clock_def\<close>)

interpretation sw: strategy sw_strategy sw_invar sw_clock
proof
  fix b now k r b'
  assume "sw_invar b" "sw_clock b now" "Take sw_strategy b now k = Some (r, b')"
  then show "sw_invar b'"
    using sw_Take_invar [of b now k r b'] by (simp add: sw_strategy_def sw_clock_def)
next
  fix b now k
  assume "sw_invar b" "sw_clock b now"
  then show "\<exists>d \<ge> 0. After sw_strategy b now k = Some d"
    using sw_afterAt by (simp add: sw_strategy_def sw_After_eq split: option.split)
qed (auto simp: sw_strategy_def sw_Take_eq sw_Put_def sw_clock_def sw_size_def)

section \<open>Properties\<close>

lemma sw_item_later:
  assumes "sw_storage b k = Some t" and "si_window t \<le> now div sw_size b"
    and "0 \<le> now" and "now \<le> later"
  shows "sw_item b later k = sw_roll (later div sw_size b) (sw_item b now k)"
proof -
  have "now div sw_size b \<le> later div sw_size b"
    using assms sw_size_pos [of b] by (simp add: zdiv_mono1)
  then show ?thesis using assms sw_size_pos [of b]
    by (cases t) (auto simp: sw_item_def sw_roll_def sdiv_pos Let_def)
qed


text \<open>A full window of two requests, asked again 5 ns after it opened.\<close>

definition sw_example :: SlidingWindowStrategy where
  "sw_example = (SlidingWindow 2 10)\<lparr>
     sw_storage := [''k'' \<mapsto> \<lparr>si_window = 2, si_curr = 2, si_prev = 0\<rparr>], sw_cleanupRunning := True\<rparr>"


text \<open>
  Evicting idle keys loses nothing: at every later time a \<^verbatim>\<open>Take\<close> answers the same after a
  sweep as it would have without it.
\<close>

theorem sliding_window_evict_transparent:
  assumes "0 \<le> now" and "now \<le> later"
  shows "map_option fst (sw_Take (snd (sw_evictStale b now)) later k) = map_option fst (sw_Take b later k)"
proof -
  let ?b = "snd (sw_evictStale b now)" and ?sz = "sw_size b"
  have [simp]: "sw_size ?b = ?sz" "sw_Max ?b = sw_Max b"
    by (simp_all add: sw_evictStale_def sw_size_def Let_def)
  have le: "now div ?sz \<le> later div ?sz" using assms sw_size_pos [of b] by (simp add: zdiv_mono1)
  have st: "sw_storage ?b k = (case sw_storage b k of None \<Rightarrow> None
      | Some t \<Rightarrow> if si_window t < now div ?sz - 1 then None else Some t)"
    using assms sw_size_pos [of b]
    by (auto simp: sw_evictStale_def sdiv_pos Let_def dest: fun_cong [of _ _ k])
  have "sw_item ?b later k = sw_item b later k"
    using st le assms sw_size_pos [of b]
    by (cases "sw_storage b k") (auto simp: sw_item_def sw_roll_def sdiv_pos Let_def)
  then show ?thesis by (simp add: sw_Take_eq sw_admits_def)
qed

theorem sliding_window_evict_transparent_witness:
  "map_option fst (sw_Take (snd (sw_evictStale sw_example 95)) 96 ''k'')
     = map_option fst (sw_Take sw_example 96 ''k'')"
  using sliding_window_evict_transparent [of 95 96 sw_example "''k''"] by simp

end
