(* ===== verification/Upstream_Balancer.thy ===== *)
theory Upstream_Balancer
  imports Parapet_Prelude
begin

text \<open>
  What the load balancers of \<^verbatim>\<open>pkg/upstream\<close> share: targets (\<^verbatim>\<open>loadbalancer.go\<close>), the state
  changes they report (\<^verbatim>\<open>state.go\<close>), the active-health gate every balancer consults, and the
  contract \<open>gated_balancer\<close> that the health checker relies on.
\<close>

section \<open>States, reasons, causes\<close>

datatype State = StateClosed | StateOpen | StateHalfOpen

definition State_String :: "State \<Rightarrow> string" where
  "State_String s =
     (case s of StateOpen \<Rightarrow> ''open'' | StateHalfOpen \<Rightarrow> ''half_open'' | StateClosed \<Rightarrow> ''closed'')"

text \<open>The numeric value of a state is its Prometheus gauge value, and orders the states.\<close>

definition State_value :: "State \<Rightarrow> nat" where
  "State_value s = (case s of StateClosed \<Rightarrow> 0 | StateOpen \<Rightarrow> 1 | StateHalfOpen \<Rightarrow> 2)"

instantiation State :: linorder
begin

definition less_eq_State :: "State \<Rightarrow> State \<Rightarrow> bool" where
  "s \<le> t \<longleftrightarrow> State_value s \<le> State_value t"

definition less_State :: "State \<Rightarrow> State \<Rightarrow> bool" where
  "s < t \<longleftrightarrow> State_value s < State_value t"

instance
  by standard
    (auto simp: less_eq_State_def less_State_def State_value_def split: State.splits)

end

datatype Reason =
    ReasonTrip | ReasonReopen | ReasonHeal | ReasonProbe | ReasonExpire | ReasonEject
  | ReasonRecover | ReasonProbeDown | ReasonProbeRecover

definition Reason_String :: "Reason \<Rightarrow> string" where
  "Reason_String r =
     (case r of
        ReasonReopen \<Rightarrow> ''reopen'' | ReasonHeal \<Rightarrow> ''heal'' | ReasonProbe \<Rightarrow> ''probe''
      | ReasonExpire \<Rightarrow> ''expire'' | ReasonEject \<Rightarrow> ''eject'' | ReasonRecover \<Rightarrow> ''recover''
      | ReasonProbeDown \<Rightarrow> ''probe_down'' | ReasonProbeRecover \<Rightarrow> ''probe_recover''
      | ReasonTrip \<Rightarrow> ''trip'')"

datatype ProbeCause =
    CauseNone | CauseTimeout | CauseRefused | CauseReset | CauseDNS | CauseTLS | CauseStatus | CauseError

definition ProbeCause_String :: "ProbeCause \<Rightarrow> string" where
  "ProbeCause_String c =
     (case c of
        CauseTimeout \<Rightarrow> ''timeout'' | CauseRefused \<Rightarrow> ''refused'' | CauseReset \<Rightarrow> ''reset''
      | CauseDNS \<Rightarrow> ''dns'' | CauseTLS \<Rightarrow> ''tls'' | CauseStatus \<Rightarrow> ''status''
      | CauseError \<Rightarrow> ''error'' | CauseNone \<Rightarrow> ''none'')"

record StateChange =
  sc_Host :: string
  sc_From :: State
  sc_To :: State
  sc_Reason :: Reason
  sc_Cause :: ProbeCause

section \<open>Targets and round trips\<close>

record Target =
  tg_Host :: string
  tg_Weight :: int
  tg_MaxConcurrent :: int

definition effectiveWeight :: "Target \<Rightarrow> int" where
  "effectiveWeight t = (if tg_Weight t \<le> 0 then 1 else tg_Weight t)"

lemma effectiveWeight_pos: "1 \<le> effectiveWeight t"
  by (simp add: effectiveWeight_def)

text \<open>
  The result of a transport's round trip: an error or the status of a response. Transports are
  not under \<^verbatim>\<open>pkg/upstream\<close>'s control, so they are parameters.
\<close>

datatype up_error = ErrUnavailable | ErrCanceled | ErrTransport string

type_synonym rt_result = "up_error + int"

text \<open>\<^verbatim>\<open>failed\<close> without a custom \<^verbatim>\<open>IsFailure\<close>, and with one.\<close>

definition failed_by :: "(rt_result \<Rightarrow> bool) option \<Rightarrow> rt_result \<Rightarrow> bool" where
  "failed_by isFailure r =
     (case isFailure of
        Some f \<Rightarrow> f r
      | None \<Rightarrow> (case r of Inl e \<Rightarrow> e \<noteq> ErrCanceled | Inr _ \<Rightarrow> False))"

section \<open>The active-health gate\<close>

text \<open>\<open>None\<close> is the nil gate; an index past the end of the gate is up.\<close>

type_synonym gate = "bool list option"

definition gate_up :: "gate \<Rightarrow> nat \<Rightarrow> bool" where
  "gate_up g i = (case g of None \<Rightarrow> True | Some bs \<Rightarrow> i \<ge> length bs \<or> bs ! i)"

lemma gate_up_nil [simp]: "gate_up None i"
  by (simp add: gate_up_def)

text \<open>
  The contract between a balancer and \<^verbatim>\<open>ActiveHealthCheck\<close>. \<open>pick\<close> chooses an index of the pool
  or sheds the request; \<open>eligible\<close> is the balancer's own verdict on a target at a time; \<open>exact\<close>
  delimits the calls for which its scan reaches every target. Health only removes candidates:
  installing a gate changes nothing else, and as long as some target is up and eligible, the
  chosen one is up and eligible too.
\<close>

locale gated_balancer =
  fixes pool :: "'s \<Rightarrow> nat"
    and gate_of :: "'s \<Rightarrow> gate"
    and setHealthGate :: "gate \<Rightarrow> 's \<Rightarrow> 's"
    and eligible :: "'s \<Rightarrow> nanos \<Rightarrow> nat \<Rightarrow> bool"
    and exact :: "'s \<Rightarrow> nanos \<Rightarrow> bool"
    and pick :: "'s \<Rightarrow> nanos \<Rightarrow> nat option \<times> 's"
  assumes pick_range: "pick s now = (Some i, s') \<Longrightarrow> 0 < pool s \<Longrightarrow> pool s < 2 ^ 32 \<Longrightarrow> i < pool s"
    and pick_sound:
      "pool s < 2 ^ 32 \<Longrightarrow> exact s now \<Longrightarrow> \<exists>i < pool s. eligible s now i \<and> gate_up (gate_of s) i \<Longrightarrow>
         \<exists>i s'. pick s now = (Some i, s') \<and> i < pool s \<and> eligible s now i \<and> gate_up (gate_of s) i"
    and gate_set: "gate_of (setHealthGate g s) = g"
    and pool_set: "pool (setHealthGate g s) = pool s"
    and eligible_set: "eligible (setHealthGate g s) now i = eligible s now i"
    and exact_set: "exact (setHealthGate g s) now = exact s now"
begin

text \<open>Routing around a target the gate marks down.\<close>

lemma avoids_down:
  assumes "pool s < 2 ^ 32" and "exact s now" and "length g = pool s" and "j < pool s" and "\<not> g ! j"
    and "i < pool s" and "g ! i" and "eligible s now i"
  shows "\<exists>k s'. pick (setHealthGate (Some g) s) now = (Some k, s') \<and> k < pool s \<and> k \<noteq> j \<and> g ! k
           \<and> eligible s now k"
proof -
  let ?s = "setHealthGate (Some g) s"
  have "\<exists>i < pool ?s. eligible ?s now i \<and> gate_up (gate_of ?s) i"
    using assms by (auto simp: pool_set eligible_set gate_set gate_up_def)
  with assms(1,2) obtain k s' where
    "pick ?s now = (Some k, s')" "k < pool s" "eligible s now k" "gate_up (Some g) k"
    using pick_sound [of ?s now] by (auto simp: pool_set eligible_set gate_set exact_set)
  with assms show ?thesis by (auto simp: gate_up_def)
qed

end

section \<open>Scanning a rotation\<close>

lemma find_rr_order:
  assumes "n < 2 ^ 32" and "unat start + n \<le> 2 ^ 32" and "\<exists>i < n. P i"
  shows "\<exists>i. List.find P (rr_order start n) = Some i \<and> i < n \<and> P i"
proof -
  from assms have "\<exists>i \<in> set (rr_order start n). P i" by (auto simp: set_rr_order)
  then have "List.find P (rr_order start n) \<noteq> None" by (auto simp: find_None_iff)
  then obtain i where i: "List.find P (rr_order start n) = Some i" by auto
  with find_Some_set [OF i] set_rr_order_subset [OF assms(1), of start] show ?thesis by auto
qed

lemma rr_start_less: "0 < n \<Longrightarrow> n < 2 ^ 32 \<Longrightarrow> unat (start mod (of_nat n :: u32)) < n"
  by (simp add: unat_mod_distrib unat_of_nat)

text \<open>The scan with its fail-open default: the start of the rotation when nothing qualifies.\<close>

definition scan_open :: "(nat \<Rightarrow> bool) \<Rightarrow> u32 \<Rightarrow> nat \<Rightarrow> nat" where
  "scan_open P start n =
     (case List.find P (rr_order start n) of Some i \<Rightarrow> i | None \<Rightarrow> unat (start mod of_nat n))"

lemma scan_open_less: "0 < n \<Longrightarrow> n < 2 ^ 32 \<Longrightarrow> scan_open P start n < n"
  using rr_start_less [of n start] find_Some_set [of P "rr_order start n"] set_rr_order_subset [of n start]
  by (auto simp: scan_open_def split: option.split)

lemma scan_open_sound:
  assumes "n < 2 ^ 32" and "unat start + n \<le> 2 ^ 32" and "\<exists>i < n. P i"
  shows "scan_open P start n < n" and "P (scan_open P start n)"
  using find_rr_order [OF assms] by (auto simp: scan_open_def)

end
