(* ===== verification/Round_Robin.thy ===== *)
theory Round_Robin
  imports Upstream_Balancer
begin

text \<open>
  \<^verbatim>\<open>RoundRobinLoadBalancer\<close> (\<^verbatim>\<open>pkg/upstream/loadbalancer.go\<close>): the cursor, the scan that skips
  targets the gate marks down, and its fail-open default. The cursor is a \<^verbatim>\<open>uint32\<close> and wraps.
\<close>

record RoundRobinLoadBalancer =
  rr_i :: u32
  rr_gate :: gate
  rr_Targets :: "Target list"

definition NewRoundRobinLoadBalancer :: "Target list \<Rightarrow> RoundRobinLoadBalancer" where
  "NewRoundRobinLoadBalancer ts = \<lparr>rr_i = 0, rr_gate = None, rr_Targets = ts\<rparr>"

definition rr_setHealthGate :: "gate \<Rightarrow> RoundRobinLoadBalancer \<Rightarrow> RoundRobinLoadBalancer" where
  "rr_setHealthGate g l = l\<lparr>rr_gate := g\<rparr>"

definition rr_up :: "RoundRobinLoadBalancer \<Rightarrow> nat \<Rightarrow> bool" where
  "rr_up l i = gate_up (rr_gate l) i"

text \<open>The target selection of \<^verbatim>\<open>RoundTrip\<close>: \<open>None\<close> is \<^verbatim>\<open>ErrUnavailable\<close>.\<close>

definition rr_pick :: "RoundRobinLoadBalancer \<Rightarrow> nanos \<Rightarrow> nat option \<times> RoundRobinLoadBalancer" where
  "rr_pick l now =
     (let n = length (rr_Targets l)
      in if n = 0 then (None, l)
         else let i' = rr_i l + 1; start = i' - 1; l' = l\<lparr>rr_i := i'\<rparr>
              in case List.find (rr_up l) (rr_order start n) of
                   Some idx \<Rightarrow> (Some idx, l')
                 | None \<Rightarrow> (Some (unat (start mod of_nat n)), l'))"

definition rr_RoundTrip ::
  "(Target \<Rightarrow> rt_result) \<Rightarrow> RoundRobinLoadBalancer
     \<Rightarrow> string option \<times> rt_result \<times> RoundRobinLoadBalancer"
where
  "rr_RoundTrip transport l =
     (case rr_pick l 0 of
        (None, l') \<Rightarrow> (None, Inl ErrUnavailable, l')
      | (Some i, l') \<Rightarrow> (Some (tg_Host (rr_Targets l ! i)), transport (rr_Targets l ! i), l'))"

text \<open>The scan is exact while the cursor is not among its last values before it wraps.\<close>

definition rr_exact :: "RoundRobinLoadBalancer \<Rightarrow> nanos \<Rightarrow> bool" where
  "rr_exact l now \<longleftrightarrow> unat (rr_i l) + length (rr_Targets l) \<le> 2 ^ 32"

interpretation rr: gated_balancer "\<lambda>l. length (rr_Targets l)" rr_gate rr_setHealthGate
  "\<lambda>_ _ _. True" rr_exact rr_pick
proof
  fix l now i l'
  assume a: "rr_pick l now = (Some i, l')" "0 < length (rr_Targets l)" "length (rr_Targets l) < 2 ^ 32"
  show "i < length (rr_Targets l)"
  proof (cases "List.find (rr_up l) (rr_order (rr_i l) (length (rr_Targets l)))")
    case None
    with a rr_start_less [of "length (rr_Targets l)" "rr_i l"] show ?thesis
      by (auto simp: rr_pick_def Let_def)
  next
    case (Some j)
    with a find_Some_set [OF Some] set_rr_order_subset [OF a(3)] show ?thesis
      by (auto simp: rr_pick_def Let_def)
  qed
next
  fix l now
  assume "length (rr_Targets l) < 2 ^ 32" "rr_exact l now"
    "\<exists>i < length (rr_Targets l). True \<and> gate_up (rr_gate l) i"
  with find_rr_order [of "length (rr_Targets l)" "rr_i l" "rr_up l"]
  show "\<exists>i l'. rr_pick l now = (Some i, l') \<and> i < length (rr_Targets l) \<and> True \<and> gate_up (rr_gate l) i"
    by (auto simp: rr_pick_def rr_exact_def rr_up_def Let_def)
qed (simp_all add: rr_setHealthGate_def rr_exact_def)

section \<open>Rotation\<close>

fun rr_picks :: "nat \<Rightarrow> RoundRobinLoadBalancer \<Rightarrow> nat option list" where
  "rr_picks 0 l = []"
| "rr_picks (Suc k) l = (case rr_pick l 0 of (p, l') \<Rightarrow> p # rr_picks k l')"

lemma rr_pick_ungated:
  assumes "rr_gate l = None" and "0 < length (rr_Targets l)" and "length (rr_Targets l) < 2 ^ 32"
  shows "rr_pick l now = (Some (unat (rr_i l) mod length (rr_Targets l)), l\<lparr>rr_i := rr_i l + 1\<rparr>)"
proof -
  obtain js where "rr_order (rr_i l) (length (rr_Targets l))
      = unat (rr_i l mod of_nat (length (rr_Targets l))) # js"
    using rr_order_Cons [OF assms(2,3)] by blast
  then show ?thesis
    using assms by (simp add: rr_pick_def Let_def rr_up_def unat_mod_distrib unat_of_nat)
qed

lemma rr_picks_ungated:
  assumes "rr_gate l = None" and "0 < length (rr_Targets l)" and "length (rr_Targets l) < 2 ^ 32"
    and "unat (rr_i l) + k \<le> 2 ^ 32"
  shows "rr_picks k l = map (\<lambda>j. Some ((unat (rr_i l) + j) mod length (rr_Targets l))) [0..<k]"
  using assms
proof (induction k arbitrary: l)
  case 0
  then show ?case by simp
next
  case (Suc k)
  let ?l = "l\<lparr>rr_i := rr_i l + 1\<rparr>"
  note p = rr_pick_ungated [OF Suc.prems(1-3)]
  show ?case
  proof (cases k)
    case 0
    with p show ?thesis by simp
  next
    case (Suc k')
    with Suc.prems have u: "unat (rr_i l + 1) = unat (rr_i l) + 1"
      by (simp add: unat_word_ariths)
    have "rr_picks k ?l = map (\<lambda>j. Some ((unat (rr_i l) + Suc j) mod length (rr_Targets l))) [0..<k]"
      using Suc.IH [of ?l] Suc.prems u by simp
    moreover have "[0..<Suc k] = 0 # map Suc [0..<k]" by (simp add: map_Suc_upt upt_conv_Cons)
    ultimately show ?thesis using p by (simp del: upt_Suc)
  qed
qed

lemma count_one_turn: "i < n \<Longrightarrow> count_list (rr_order64 start n) i = 1"
proof -
  assume i: "i < n"
  have "distinct (rr_order64 start n)"
    by (rule card_distinct) (simp add: set_rr_order64, simp add: rr_order64_def)
  then show ?thesis using i by (simp add: count_list_distinct set_rr_order64)
qed

lemma count_turns:
  fixes start :: u32
  assumes "i < n"
  shows "count_list (map (\<lambda>j. (unat start + j) mod n) [0..<q * n]) i = q"
proof (induction q)
  case 0
  then show ?case by simp
next
  case (Suc q)
  have "[0..<Suc q * n] = [0..<q * n] @ [q * n..<q * n + n]"
    using upt_add_eq_append [of 0 "q * n" n] by (simp add: add.commute)
  moreover have "map (\<lambda>j. (unat start + j) mod n) [q * n..<q * n + n] = rr_order64 start n"
  proof (rule nth_equalityI)
    fix j
    assume "j < length (map (\<lambda>j. (unat start + j) mod n) [q * n..<q * n + n])"
    moreover have "unat start + (q * n + j) = (unat start + j) + q * n" by simp
    then have "(unat start + (q * n + j)) mod n = (unat start + j) mod n"
      by (simp only: mod_mult_self1)
    ultimately show "map (\<lambda>j. (unat start + j) mod n) [q * n..<q * n + n] ! j = rr_order64 start n ! j"
      by (simp add: rr_order64_def)
  qed (simp add: rr_order64_def)
  ultimately show ?case using Suc count_one_turn [OF assms] by simp
qed

text \<open>
  C32. Ungated round robin is fair: over any whole number of turns that does not cross the wrap of
  the cursor, each target is picked exactly once per turn.
\<close>

theorem round_robin_fair:
  assumes "rr_gate l = None" and "n = length (rr_Targets l)" and "0 < n" and "n < 2 ^ 32"
    and "unat (rr_i l) + q * n \<le> 2 ^ 32" and "i < n"
  shows "count_list (rr_picks (q * n) l) (Some i) = q"
proof -
  have "rr_picks (q * n) l = map Some (map (\<lambda>j. (unat (rr_i l) + j) mod n) [0..<q * n])"
    using rr_picks_ungated [of l "q * n"] assms by simp
  moreover have "count_list (map Some xs) (Some i) = count_list xs i" for xs :: "nat list"
    by (induction xs) auto
  ultimately show ?thesis using count_turns [OF assms(6)] by (simp del: map_map)
qed

definition rr_three :: "Target list" where
  "rr_three = map (\<lambda>h. \<lparr>tg_Host = h, tg_Weight = 1, tg_MaxConcurrent = 0\<rparr>) [''a'', ''b'', ''c'']"

theorem round_robin_fair_witness:
  "count_list (rr_picks (4 * 3) (NewRoundRobinLoadBalancer rr_three)) (Some 2) = 4"
  by (rule round_robin_fair) (simp_all add: NewRoundRobinLoadBalancer_def rr_three_def)

text \<open>
  While a target is gated up, the scan routes to an up target, except in the last \<open>n\<close> values
  of the cursor before it wraps: with three targets of which only the last is up and the cursor at
  its maximum, the scan visits indices 0, 0 and 1, misses the healthy target, and fails open to a
  target the gate marks down.
\<close>

theorem round_robin_cursor_wrap_misroutes:
  "rr_pick \<lparr>rr_i = - 1, rr_gate = Some [False, False, True], rr_Targets = rr_three\<rparr> now
     = (Some 0, \<lparr>rr_i = 0, rr_gate = Some [False, False, True], rr_Targets = rr_three\<rparr>)
   \<and> \<not> gate_up (Some [False, False, True]) 0 \<and> gate_up (Some [False, False, True]) 2"
proof -
  have "rr_order (- 1) 3 = [0, 0, 1]"
    by (simp add: rr_order_def rr_idx_def upt_conv_Cons)
  moreover have "length rr_three = 3" by (simp add: rr_three_def)
  ultimately show ?thesis by (simp add: rr_pick_def rr_up_def gate_up_def Let_def)
qed

end
