(* ===== verification/Weighted_Round_Robin.thy ===== *)
theory Weighted_Round_Robin
  imports Upstream_Balancer
begin

text \<open>
  \<^verbatim>\<open>WeightedRoundRobinLoadBalancer\<close> (\<^verbatim>\<open>pkg/upstream/weighted.go\<close>): smooth weighted round robin
  with the active-health gate, an abstract specification of one step on the lists of current
  and effective weights, the refinement of \<^verbatim>\<open>pick\<close> to it, and the exact shares it gives.

  Weights and running totals are \<^verbatim>\<open>int64\<close> in the code; they are integers here, and the bounds
  proved for them say when no addition can overflow.
\<close>

record swrrPeer =
  sp_target :: Target
  sp_weight :: int
  sp_current :: int
  sp_wasUp :: bool

record WeightedRoundRobinLoadBalancer =
  wr_total :: int
  wr_peers :: "swrrPeer list"
  wr_gate :: gate

text \<open>The balancer after \<^verbatim>\<open>init\<close>, which runs once before the first pick.\<close>

definition wr_init :: "Target list \<Rightarrow> WeightedRoundRobinLoadBalancer" where
  "wr_init ts =
     \<lparr>wr_total = sum_list (map effectiveWeight ts),
      wr_peers = map (\<lambda>t. \<lparr>sp_target = t, sp_weight = effectiveWeight t, sp_current = 0,
                           sp_wasUp = False\<rparr>) ts,
      wr_gate = None\<rparr>"

definition wr_setHealthGate :: "gate \<Rightarrow> WeightedRoundRobinLoadBalancer \<Rightarrow> WeightedRoundRobinLoadBalancer"
where
  "wr_setHealthGate g l = l\<lparr>wr_gate := g\<rparr>"

text \<open>\<^verbatim>\<open>best < 0 || p.current > l.peers[best].current\<close>: the first of the largest wins.\<close>

definition better :: "nat \<Rightarrow> int \<Rightarrow> (nat \<times> int) option \<Rightarrow> (nat \<times> int) option" where
  "better i c best =
     (case best of None \<Rightarrow> Some (i, c) | Some (j, d) \<Rightarrow> if c > d then Some (i, c) else Some (j, d))"

text \<open>The loop of \<^verbatim>\<open>pick\<close> from index \<open>i\<close>, with \<^verbatim>\<open>best\<close> (and its current weight) and \<^verbatim>\<open>liveTotal\<close>.\<close>

fun wr_scan :: "(nat \<Rightarrow> bool) \<Rightarrow> nat \<Rightarrow> swrrPeer list \<Rightarrow> (nat \<times> int) option \<Rightarrow> int
    \<Rightarrow> swrrPeer list \<times> (nat \<times> int) option \<times> int"
where
  "wr_scan up i [] best liveTotal = ([], best, liveTotal)"
| "wr_scan up i (p # ps) best liveTotal =
     (let isUp = up i;
          p1 = (if isUp \<and> \<not> sp_wasUp p then p\<lparr>sp_current := 0\<rparr> else p);
          p2 = p1\<lparr>sp_wasUp := isUp\<rparr>
      in if \<not> isUp
         then (case wr_scan up (Suc i) ps best liveTotal of (ps', r) \<Rightarrow> (p2 # ps', r))
         else let p3 = p2\<lparr>sp_current := sp_current p2 + sp_weight p2\<rparr>
              in case wr_scan up (Suc i) ps (better i (sp_current p3) best) (liveTotal + sp_weight p3) of
                   (ps', r) \<Rightarrow> (p3 # ps', r))"

text \<open>The loop of \<^verbatim>\<open>pickAllOpen\<close>: every peer, gate ignored.\<close>

fun wr_scan_all :: "nat \<Rightarrow> swrrPeer list \<Rightarrow> (nat \<times> int) option \<Rightarrow> swrrPeer list \<times> (nat \<times> int) option"
where
  "wr_scan_all i [] best = ([], best)"
| "wr_scan_all i (p # ps) best =
     (let p' = p\<lparr>sp_current := sp_current p + sp_weight p\<rparr>
      in case wr_scan_all (Suc i) ps (better i (sp_current p') best) of
           (ps', r) \<Rightarrow> (p' # ps', r))"

definition give_back :: "nat \<Rightarrow> int \<Rightarrow> swrrPeer list \<Rightarrow> swrrPeer list" where
  "give_back i tot ps = ps[i := (ps ! i)\<lparr>sp_current := sp_current (ps ! i) - tot\<rparr>]"

definition pickAllOpen ::
  "WeightedRoundRobinLoadBalancer \<Rightarrow> nat option \<times> WeightedRoundRobinLoadBalancer"
where
  "pickAllOpen l =
     (case wr_scan_all 0 (wr_peers l) None of
        (ps, None) \<Rightarrow> (None, l)
      | (ps, Some (i, _)) \<Rightarrow> (Some i, l\<lparr>wr_peers := give_back i (wr_total l) ps\<rparr>))"

text \<open>
  \<^verbatim>\<open>pick\<close> with the empty-pool check of \<^verbatim>\<open>RoundTrip\<close> before it; \<open>None\<close> is \<^verbatim>\<open>ErrUnavailable\<close>.
\<close>

definition wr_pick ::
  "WeightedRoundRobinLoadBalancer \<Rightarrow> nanos \<Rightarrow> nat option \<times> WeightedRoundRobinLoadBalancer"
where
  "wr_pick l now =
     (if wr_peers l = [] then (None, l)
      else case wr_scan (gate_up (wr_gate l)) 0 (wr_peers l) None 0 of
             (ps, None, _) \<Rightarrow> pickAllOpen (l\<lparr>wr_peers := ps\<rparr>)
           | (ps, Some (i, _), liveTotal) \<Rightarrow> (Some i, l\<lparr>wr_peers := give_back i liveTotal ps\<rparr>))"

definition wr_RoundTrip ::
  "(Target \<Rightarrow> rt_result) \<Rightarrow> WeightedRoundRobinLoadBalancer
     \<Rightarrow> string option \<times> rt_result \<times> WeightedRoundRobinLoadBalancer"
where
  "wr_RoundTrip transport l =
     (case wr_pick l 0 of
        (None, l') \<Rightarrow> (None, Inl ErrUnavailable, l')
      | (Some i, l') \<Rightarrow>
          let t = sp_target (wr_peers l ! i) in (Some (tg_Host t), transport t, l'))"

section \<open>The gate\<close>

lemma better_Some: "\<exists>j c'. better i c best = Some (j, c') \<and> (j = i \<or> best = Some (j, c'))"
  by (auto simp: better_def split: option.splits)

lemma wr_scan_best:
  assumes "wr_scan up i ps best lt = (ps', b, lt')"
  shows "length ps' = length ps
    \<and> (b = best \<or> (\<exists>j c. b = Some (j, c) \<and> i \<le> j \<and> j < i + length ps \<and> up j))
    \<and> (best \<noteq> None \<or> (\<exists>j. i \<le> j \<and> j < i + length ps \<and> up j) \<longrightarrow> b \<noteq> None)"
  using assms
proof (induction up i ps best lt arbitrary: ps' b lt' rule: wr_scan.induct)
  case (1 up i best lt)
  then show ?case by auto
next
  case (2 up i p ps best lt)
  show ?case
  proof (cases "up i")
    case False
    then obtain qs where q: "wr_scan up (Suc i) ps best lt = (qs, b, lt')" and "length ps' = Suc (length qs)"
      using "2.prems" by (auto simp: Let_def split: prod.splits)
    have "i \<noteq> j" if "up j" for j using that False by auto
    with "2.IH"(1) [OF refl refl refl _ q] False \<open>length ps' = Suc (length qs)\<close> show ?thesis
      by (fastforce simp: le_eq_less_or_eq Suc_le_eq)
  next
    case True
    define p3 where "p3 = (let p2 = (if \<not> sp_wasUp p then p\<lparr>sp_current := 0\<rparr> else p)\<lparr>sp_wasUp := True\<rparr>
                    in p2\<lparr>sp_current := sp_current p2 + sp_weight p2\<rparr>)"
    obtain qs where q: "wr_scan up (Suc i) ps (better i (sp_current p3) best) (lt + sp_weight p3) = (qs, b, lt')"
      and "length ps' = Suc (length qs)"
      using True "2.prems" by (auto simp: Let_def p3_def split: prod.splits if_splits)
    with "2.IH"(2) [OF refl refl refl _ refl, of qs b lt'] True
    have "length qs = length ps
      \<and> (b = better i (sp_current p3) best \<or> (\<exists>j c. b = Some (j, c) \<and> Suc i \<le> j \<and> j < Suc i + length ps \<and> up j))
      \<and> b \<noteq> None"
      using better_Some [of i "sp_current p3" best] by (auto simp: Let_def p3_def split: if_splits)
    with \<open>length ps' = Suc (length qs)\<close> True better_Some [of i "sp_current p3" best] show ?thesis by auto
  qed
qed

lemma wr_scan_all_best:
  assumes "wr_scan_all i ps best = (ps', b)"
  shows "length ps' = length ps
    \<and> (b = best \<or> (\<exists>j c. b = Some (j, c) \<and> i \<le> j \<and> j < i + length ps))
    \<and> (best \<noteq> None \<or> ps \<noteq> [] \<longrightarrow> b \<noteq> None)"
  using assms
proof (induction i ps best arbitrary: ps' b rule: wr_scan_all.induct)
  case (2 i p ps best)
  let ?b = "better i (sp_current p + sp_weight p) best"
  obtain qs where q: "wr_scan_all (Suc i) ps ?b = (qs, b)" and l: "length ps' = Suc (length qs)"
    using "2.prems" by (auto simp: Let_def split: prod.splits)
  from "2.IH" [OF refl, of qs b] q l better_Some [of i "sp_current p + sp_weight p" best]
  show ?case by auto
qed auto

lemma pickAllOpen_range:
  assumes "pickAllOpen l = (Some i, l')"
  shows "i < length (wr_peers l)"
  using assms wr_scan_all_best [of 0 "wr_peers l" None]
  by (fastforce simp: pickAllOpen_def split: prod.splits option.splits)

lemma wr_pick_range:
  assumes "wr_pick l now = (Some i, l')"
  shows "i < length (wr_peers l)"
proof -
  obtain ps b lt where s: "wr_scan (gate_up (wr_gate l)) 0 (wr_peers l) None 0 = (ps, b, lt)"
    by (cases "wr_scan (gate_up (wr_gate l)) 0 (wr_peers l) None 0") auto
  note w = wr_scan_best [OF s]
  show ?thesis
  proof (cases b)
    case None
    with assms s have "pickAllOpen (l\<lparr>wr_peers := ps\<rparr>) = (Some i, l')"
      by (simp add: wr_pick_def split: if_splits)
    from pickAllOpen_range [OF this] w show ?thesis by simp
  next
    case (Some jc)
    with assms s w show ?thesis by (auto simp: wr_pick_def split: if_splits)
  qed
qed

lemma wr_pick_sound:
  assumes "i < length (wr_peers l)" and "gate_up (wr_gate l) i"
  shows "\<exists>k l'. wr_pick l now = (Some k, l') \<and> k < length (wr_peers l) \<and> gate_up (wr_gate l) k"
proof -
  obtain ps b lt where s: "wr_scan (gate_up (wr_gate l)) 0 (wr_peers l) None 0 = (ps, b, lt)"
    by (cases "wr_scan (gate_up (wr_gate l)) 0 (wr_peers l) None 0") auto
  from wr_scan_best [OF s] assms obtain j c where "b = Some (j, c)" "j < length (wr_peers l)" "gate_up (wr_gate l) j"
    by auto
  with s assms(1) show ?thesis by (auto simp: wr_pick_def)
qed

interpretation wr: gated_balancer "\<lambda>l. length (wr_peers l)" wr_gate wr_setHealthGate
  "\<lambda>_ _ _. True" "\<lambda>_ _. True" wr_pick
proof
  fix l now i l'
  assume "wr_pick l now = (Some i, l')"
  then show "i < length (wr_peers l)" by (rule wr_pick_range)
next
  fix l :: WeightedRoundRobinLoadBalancer and now
  assume "\<exists>i<length (wr_peers l). True \<and> gate_up (wr_gate l) i"
  then show "\<exists>i s'. wr_pick l now = (Some i, s') \<and> i < length (wr_peers l) \<and> True \<and> gate_up (wr_gate l) i"
    using wr_pick_sound by auto
qed (simp_all add: wr_setHealthGate_def)

section \<open>The abstract step\<close>

text \<open>
  One step of smooth weighted round robin on the current weights \<open>cs\<close> and the weights \<open>ws\<close>: every
  entry gains its weight, the first of the largest wins and gives the total back.
\<close>

definition bumped :: "int list \<Rightarrow> int list \<Rightarrow> int list" where
  "bumped ws cs = map2 (+) cs ws"

fun best_of :: "nat \<Rightarrow> int list \<Rightarrow> (nat \<times> int) option \<Rightarrow> (nat \<times> int) option" where
  "best_of i [] best = best"
| "best_of i (c # cs) best = best_of (Suc i) cs (better i c best)"

definition winner :: "int list \<Rightarrow> nat" where
  "winner cs = (case best_of 0 cs None of Some (i, _) \<Rightarrow> i | None \<Rightarrow> 0)"

definition swrr_step :: "int list \<Rightarrow> int list \<Rightarrow> nat \<times> int list" where
  "swrr_step ws cs =
     (let cs' = bumped ws cs; i = winner cs' in (i, cs'[i := cs' ! i - sum_list ws]))"

fun swrr_run :: "int list \<Rightarrow> nat \<Rightarrow> int list \<Rightarrow> nat list \<times> int list" where
  "swrr_run ws 0 cs = ([], cs)"
| "swrr_run ws (Suc n) cs =
     (case swrr_step ws cs of (i, cs') \<Rightarrow> case swrr_run ws n cs' of (is, cs'') \<Rightarrow> (i # is, cs''))"

lemma best_of_max:
  assumes "best_of i cs best = b" and "\<forall>j c. best = Some (j, c) \<longrightarrow> j < i"
  shows "(cs \<noteq> [] \<or> best \<noteq> None \<longrightarrow> b \<noteq> None)
    \<and> (\<forall>j c. b = Some (j, c) \<longrightarrow> (b = best \<or> i \<le> j \<and> j < i + length cs \<and> cs ! (j - i) = c)
         \<and> (\<forall>d \<in> set cs. d \<le> c) \<and> (\<forall>j' c'. best = Some (j', c') \<longrightarrow> c' \<le> c))"
  using assms
proof (induction i cs best rule: best_of.induct)
  case (2 i c cs best)
  have "\<forall>j d. better i c best = Some (j, d) \<longrightarrow> j < Suc i"
    using "2.prems"(2) by (auto simp: better_def split: option.splits if_splits)
  from "2.IH" [OF _ this] "2.prems"(1)
  have ih: "b \<noteq> None" "\<And>j d. b = Some (j, d) \<Longrightarrow>
      (b = better i c best \<or> Suc i \<le> j \<and> j < Suc i + length cs \<and> cs ! (j - Suc i) = d)
      \<and> (\<forall>e \<in> set cs. e \<le> d) \<and> (\<forall>j' c'. better i c best = Some (j', c') \<longrightarrow> c' \<le> d)"
    using better_Some [of i c best] by auto
  show ?case
  proof (intro conjI allI impI)
    show "b \<noteq> None" by (rule ih)
  next
    fix j d assume b: "b = Some (j, d)"
    note h = ih(2) [OF b]
    show "b = best \<or> i \<le> j \<and> j < i + length (c # cs) \<and> (c # cs) ! (j - i) = d"
      using h b by (auto simp: better_def nth_Cons' split: option.splits if_splits)
    show "\<forall>e\<in>set (c # cs). e \<le> d"
      using h by (auto simp: better_def split: option.splits if_splits)
  next
    fix j d j' c' assume "b = Some (j, d)" and "best = Some (j', c')"
    with ih(2) [of j d] show "c' \<le> d"
      by (auto simp: better_def split: if_splits)
  qed
qed auto

lemma winner_max:
  assumes "cs \<noteq> []"
  shows "winner cs < length cs" and "\<forall>d \<in> set cs. d \<le> cs ! winner cs"
  using best_of_max [OF refl, of None 0 cs] assms by (auto simp: winner_def split: option.splits)

definition swrr_inv :: "int list \<Rightarrow> int list \<Rightarrow> bool" where
  "swrr_inv ws cs \<longleftrightarrow> length cs = length ws \<and> sum_list cs = 0 \<and> (\<forall>c \<in> set cs. - sum_list ws < c)"

lemma length_bumped [simp]: "length cs = length ws \<Longrightarrow> length (bumped ws cs) = length ws"
  by (simp add: bumped_def)

lemma nth_bumped [simp]:
  "length cs = length ws \<Longrightarrow> i < length ws \<Longrightarrow> bumped ws cs ! i = cs ! i + ws ! i"
  by (simp add: bumped_def)

lemma sum_bumped: "length cs = length ws \<Longrightarrow> sum_list (bumped ws cs) = sum_list cs + sum_list ws"
  by (induction cs ws rule: list_induct2) (simp_all add: bumped_def)

lemma sum_list_max_pos:
  fixes cs :: "int list"
  assumes "0 < sum_list cs" and "\<forall>d \<in> set cs. d \<le> m"
  shows "0 < m"
proof (rule ccontr)
  assume "\<not> 0 < m"
  with assms(2) have "\<forall>d \<in> set cs. d \<le> 0" by auto
  then have "sum_list cs \<le> 0" by (induction cs) auto
  with assms(1) show False by simp
qed

lemma sum_list_pos_int:
  fixes ws :: "int list"
  assumes "ws \<noteq> []" and "\<forall>w \<in> set ws. 0 < w"
  shows "0 < sum_list ws"
  using assms(2,1) by (induction ws) (auto, metis add_pos_pos empty_iff list.set(1) sum_list.Nil add.right_neutral)

lemma swrr_step_inv:
  assumes inv: "swrr_inv ws cs" and ne: "ws \<noteq> []" and pos: "\<forall>w \<in> set ws. 0 < w"
    and st: "swrr_step ws cs = (i, cs')"
  shows "swrr_inv ws cs'" and "i < length ws"
    and "j < length ws \<Longrightarrow> cs' ! j = cs ! j + ws ! j - (if j = i then sum_list ws else 0)"
proof -
  let ?b = "bumped ws cs"
  have len: "length cs = length ws" and sum: "sum_list cs = 0"
    and low: "\<And>c. c \<in> set cs \<Longrightarrow> - sum_list ws < c"
    using inv by (auto simp: swrr_inv_def)
  have lb: "length ?b = length ws" using len by simp
  have W: "0 < sum_list ws" using ne pos by (rule sum_list_pos_int)
  have i: "i = winner ?b" and cs': "cs' = ?b[i := ?b ! i - sum_list ws]"
    using st by (auto simp: swrr_step_def Let_def)
  have bne: "?b \<noteq> []" using lb ne by auto
  show il: "i < length ws" using winner_max(1) [OF bne] lb i by simp
  have top: "0 < ?b ! i"
    using sum_list_max_pos [of ?b] winner_max(2) [OF bne] sum_bumped [OF len] sum W i by auto
  show nth: "cs' ! j = cs ! j + ws ! j - (if j = i then sum_list ws else 0)" if "j < length ws" for j
    using that len lb by (simp add: cs' nth_list_update)
  have "length cs' = length ws" using cs' lb by simp
  moreover have "sum_list cs' = 0"
    using sum_list_update_int [of i ?b "?b ! i - sum_list ws"] il lb sum_bumped [OF len] sum by (simp add: cs')
  moreover have "- sum_list ws < cs' ! j" if "j < length ws" for j
  proof (cases "j = i")
    case True
    with that top len lb show ?thesis by (simp add: cs')
  next
    case False
    have "0 < ws ! j" "- sum_list ws < cs ! j" using pos low that len by auto
    with False nth [OF that] show ?thesis by simp
  qed
  ultimately show "swrr_inv ws cs'"
    by (auto simp: swrr_inv_def in_set_conv_nth)
qed

lemma swrr_run_count:
  assumes "swrr_inv ws cs" and "ws \<noteq> []" and "\<forall>w \<in> set ws. 0 < w"
    and "swrr_run ws n cs = (is, cs')" and "j < length ws"
  shows "swrr_inv ws cs' \<and> cs' ! j = cs ! j + int n * ws ! j - sum_list ws * int (count_list is j)"
  using assms(1,4)
proof (induction n arbitrary: cs "is")
  case (Suc n)
  obtain i c1 where s: "swrr_step ws cs = (i, c1)" by (cases "swrr_step ws cs")
  obtain ks where r: "swrr_run ws n c1 = (ks, cs')" and k: "is = i # ks"
    using Suc.prems(2) s by (auto split: prod.splits)
  note st = swrr_step_inv [OF Suc.prems(1) assms(2,3) s]
  from Suc.IH [OF st(1) r] st(3) [OF assms(5)] k show ?case by (auto simp: algebra_simps)
qed auto

text \<open>After a whole number of rounds every share is exact and the weights are back at zero.\<close>

lemma swrr_exact:
  assumes ne: "ws \<noteq> []" and pos: "\<forall>w \<in> set ws. 0 < w"
    and r: "swrr_run ws (q * nat (sum_list ws)) (replicate (length ws) 0) = (is, cs')"
  shows "cs' = replicate (length ws) 0 \<and> (\<forall>j < length ws. int (count_list is j) = int q * ws ! j)"
proof -
  let ?W = "sum_list ws"
  have W: "0 < ?W" using ne pos by (rule sum_list_pos_int)
  have i0: "swrr_inv ws (replicate (length ws) 0)" using W by (simp add: swrr_inv_def sum_list_replicate)
  note c = swrr_run_count [OF i0 ne pos r]
  have inv: "swrr_inv ws cs'" using c [of 0] ne by auto
  then have len: "length cs' = length ws" and sum: "sum_list cs' = 0" by (auto simp: swrr_inv_def)
  have eq: "cs' ! j = ?W * (int q * ws ! j - int (count_list is j))" if "j < length ws" for j
    using c [OF that] that W by (simp add: algebra_simps)
  have nn: "0 \<le> cs' ! j" if "j < length ws" for j
  proof -
    have "- ?W < cs' ! j" using inv that len by (auto simp: swrr_inv_def)
    then have "?W * (-1) < ?W * (int q * ws ! j - int (count_list is j))" using eq [OF that] by simp
    then have "0 \<le> int q * ws ! j - int (count_list is j)" using W by (simp only: mult_less_cancel_left_pos)
    with W eq [OF that] show ?thesis by simp
  qed
  have "\<forall>c \<in> set cs'. c = 0"
    using sum nn len sum_list_nonneg_eq_0_iff [of cs'] by (auto simp: in_set_conv_nth)
  then have z: "cs' = replicate (length ws) 0" using len by (metis replicate_eqI)
  with eq W have "int (count_list is j) = int q * ws ! j" if "j < length ws" for j using that by auto
  with z show ?thesis by simp
qed

section \<open>Refinement\<close>

text \<open>
  An ungated balancer, seen from the specification: the lists of its weights and current weights.
  A peer not yet seen up has a current weight of 0, so the reset of a recovering peer is no change.
\<close>

definition wr_ungated :: "int list \<Rightarrow> int list \<Rightarrow> WeightedRoundRobinLoadBalancer \<Rightarrow> bool" where
  "wr_ungated ws cs l \<longleftrightarrow> wr_gate l = None \<and> map sp_weight (wr_peers l) = ws
     \<and> map sp_current (wr_peers l) = cs \<and> (\<forall>p \<in> set (wr_peers l). sp_wasUp p \<or> sp_current p = 0)"

lemma wr_scan_open:
  assumes "\<forall>j. up j" and "\<forall>p \<in> set ps. sp_wasUp p \<or> sp_current p = 0"
  shows "\<exists>ps'. wr_scan up i ps best lt
      = (ps', best_of i (bumped (map sp_weight ps) (map sp_current ps)) best, lt + sum_list (map sp_weight ps))
    \<and> map sp_weight ps' = map sp_weight ps \<and> (\<forall>p \<in> set ps'. sp_wasUp p)
    \<and> map sp_current ps' = bumped (map sp_weight ps) (map sp_current ps)"
  using assms(2)
proof (induction ps arbitrary: i best lt)
  case Nil
  then show ?case by (simp add: bumped_def)
next
  case (Cons p ps)
  let ?c = "sp_current p + sp_weight p"
  from Cons.IH [of "Suc i" "better i ?c best" "lt + sp_weight p"] Cons.prems
  obtain qs where q: "wr_scan up (Suc i) ps (better i ?c best) (lt + sp_weight p)
      = (qs, best_of (Suc i) (bumped (map sp_weight ps) (map sp_current ps)) (better i ?c best),
         lt + sp_weight p + sum_list (map sp_weight ps))"
    and "map sp_weight qs = map sp_weight ps" "\<forall>p \<in> set qs. sp_wasUp p"
    and "map sp_current qs = bumped (map sp_weight ps) (map sp_current ps)"
    by auto
  moreover have "up i" using assms(1) by blast
  ultimately show ?case using Cons.prems by (auto simp: Let_def bumped_def)
qed

lemma wr_pick_refines:
  assumes "wr_ungated ws cs l" and "ws \<noteq> []" and "swrr_step ws cs = (i, cs')"
  shows "\<exists>l'. wr_pick l now = (Some i, l') \<and> wr_ungated ws cs' l'"
proof -
  have g: "\<forall>j. gate_up (wr_gate l) j" using assms(1) by (simp add: wr_ungated_def gate_up_def)
  have w: "map sp_weight (wr_peers l) = ws" "map sp_current (wr_peers l) = cs"
    and u: "\<forall>p \<in> set (wr_peers l). sp_wasUp p \<or> sp_current p = 0"
    using assms(1) by (simp_all add: wr_ungated_def)
  have ne: "wr_peers l \<noteq> []" using w(1) assms(2) by auto
  have len: "length (bumped ws cs) = length ws" using w by (metis length_bumped length_map)
  then have bne: "bumped ws cs \<noteq> []" using assms(2) by auto
  from wr_scan_open [OF g u, of 0 None 0] obtain ps where
    s: "wr_scan (gate_up (wr_gate l)) 0 (wr_peers l) None 0 = (ps, best_of 0 (bumped ws cs) None, sum_list ws)"
    and ps: "map sp_weight ps = ws" "\<forall>p \<in> set ps. sp_wasUp p" "map sp_current ps = bumped ws cs"
    unfolding w by auto
  from best_of_max [OF refl, of None 0 "bumped ws cs"] bne obtain j c where
    b: "best_of 0 (bumped ws cs) None = Some (j, c)" by auto
  with assms(3) have j: "j = i" and cs': "cs' = (bumped ws cs)[i := bumped ws cs ! i - sum_list ws]"
    by (auto simp: swrr_step_def winner_def Let_def)
  have il: "i < length ps" using winner_max(1) [OF bne] b j len ps(1) by (auto simp: winner_def)
  have "map sp_weight (give_back i (sum_list ws) ps) = ws"
    using ps(1) il by (auto simp: give_back_def map_update list_update_same_conv)
  moreover have "sp_current (ps ! i) = bumped ws cs ! i" using ps(3) il by (metis nth_map)
  then have "map sp_current (give_back i (sum_list ws) ps) = cs'"
    using ps(3) by (simp add: give_back_def map_update cs')
  moreover have "\<forall>p \<in> set (give_back i (sum_list ws) ps). sp_wasUp p"
    using ps(2) nth_mem [OF il] set_update_subset_insert [of ps i] by (fastforce simp: give_back_def)
  moreover have "wr_pick l now = (Some i, l\<lparr>wr_peers := give_back i (sum_list ws) ps\<rparr>)"
    using ne s b j by (simp add: wr_pick_def)
  ultimately show ?thesis using assms(1) by (simp add: wr_ungated_def)
qed

fun wr_picks :: "nat \<Rightarrow> WeightedRoundRobinLoadBalancer \<Rightarrow> nat option list \<times> WeightedRoundRobinLoadBalancer" where
  "wr_picks 0 l = ([], l)"
| "wr_picks (Suc n) l =
     (case wr_pick l 0 of (r, l') \<Rightarrow> case wr_picks n l' of (rs, l'') \<Rightarrow> (r # rs, l''))"

lemma wr_picks_refines:
  assumes "wr_ungated ws cs l" and "ws \<noteq> []" and "swrr_run ws n cs = (is, cs')"
  shows "\<exists>l'. wr_picks n l = (map Some is, l') \<and> wr_ungated ws cs' l'"
  using assms(1,3)
proof (induction n arbitrary: l cs "is")
  case (Suc n)
  obtain i c1 where s: "swrr_step ws cs = (i, c1)" by (cases "swrr_step ws cs")
  obtain ks where r: "swrr_run ws n c1 = (ks, cs')" and k: "is = i # ks"
    using Suc.prems(2) s by (auto split: prod.splits)
  from wr_pick_refines [OF Suc.prems(1) assms(2) s, of 0] obtain l1 where
    p: "wr_pick l 0 = (Some i, l1)" "wr_ungated ws c1 l1" by blast
  from Suc.IH [OF p(2) r] p(1) k show ?case by auto
qed simp

lemma wr_init_ungated:
  "wr_ungated (map effectiveWeight ts) (replicate (length ts) 0) (wr_init ts)"
  by (auto simp: wr_ungated_def wr_init_def comp_def map_replicate_const)

lemma count_list_map_Some: "count_list (map Some xs) (Some x) = count_list xs x"
  by (induction xs) auto

section \<open>A pick under the gate\<close>

lemma wr_scan_nth:
  assumes "wr_scan up i ps best lt = (ps', b, lt')"
  shows "length ps' = length ps"
    and "j < length ps \<Longrightarrow> ps' ! j = (let p = ps ! j in if up (i + j)
          then p\<lparr>sp_current := (if sp_wasUp p then sp_current p else 0) + sp_weight p, sp_wasUp := True\<rparr>
          else p\<lparr>sp_wasUp := False\<rparr>)"
    and "lt' = lt + (\<Sum>j | j < length ps \<and> up (i + j). sp_weight (ps ! j))"
proof -
  have "length ps' = length ps
    \<and> (\<forall>j < length ps. ps' ! j = (let p = ps ! j in if up (i + j)
          then p\<lparr>sp_current := (if sp_wasUp p then sp_current p else 0) + sp_weight p, sp_wasUp := True\<rparr>
          else p\<lparr>sp_wasUp := False\<rparr>))
    \<and> lt' = lt + (\<Sum>j | j < length ps \<and> up (i + j). sp_weight (ps ! j))"
    using assms
  proof (induction ps arbitrary: i best lt ps' b lt')
    case (Cons p ps)
    have split: "{j. j < length (p # ps) \<and> up (i + j)}
        = (if up i then {0} else {}) \<union> Suc ` {j. j < length ps \<and> up (Suc i + j)}"
      by (auto simp: image_iff gr0_conv_Suc split: nat.splits) (metis add_Suc_right not0_implies_Suc Suc_less_eq add_0_right)+
    have sum: "(\<Sum>j | j < length (p # ps) \<and> up (i + j). sp_weight ((p # ps) ! j))
        = (if up i then sp_weight p else 0) + (\<Sum>j | j < length ps \<and> up (Suc i + j). sp_weight (ps ! j))"
      unfolding split by (subst sum.union_disjoint) (auto simp: sum.reindex)
    obtain best1 lt1 qs where q: "wr_scan up (Suc i) ps best1 lt1 = (qs, b, lt')"
      and lt1: "lt1 = lt + (if up i then sp_weight p else 0)"
      and ps': "ps' = (if up i
          then p\<lparr>sp_current := (if sp_wasUp p then sp_current p else 0) + sp_weight p, sp_wasUp := True\<rparr>
          else p\<lparr>sp_wasUp := False\<rparr>) # qs"
      using Cons.prems by (auto simp: Let_def split: prod.splits if_splits)
    from Cons.IH [OF q] show ?case
      unfolding sum lt1 ps' by (auto simp: nth_Cons' Let_def)
  qed auto
  then show "length ps' = length ps"
    and "j < length ps \<Longrightarrow> ps' ! j = (let p = ps ! j in if up (i + j)
          then p\<lparr>sp_current := (if sp_wasUp p then sp_current p else 0) + sp_weight p, sp_wasUp := True\<rparr>
          else p\<lparr>sp_wasUp := False\<rparr>)"
    and "lt' = lt + (\<Sum>j | j < length ps \<and> up (i + j). sp_weight (ps ! j))"
    by blast+
qed

text \<open>The current weight a live peer enters a pick with: a recovering peer starts at 0.\<close>

definition entry :: "swrrPeer \<Rightarrow> int" where
  "entry p = (if sp_wasUp p then sp_current p else 0)"

section \<open>Properties\<close>

text \<open>
  C36. The shares are exact: over any whole number of rounds of \<^verbatim>\<open>total\<close> picks, an ungated balancer
  picks each target exactly its effective weight times per round and is back where it started.
\<close>

theorem weighted_exact_shares:
  assumes "ts \<noteq> []"
  shows "\<exists>rs l'. wr_picks (q * nat (wr_total (wr_init ts))) (wr_init ts) = (rs, l')
    \<and> (\<forall>j < length ts. int (count_list rs (Some j)) = int q * effectiveWeight (ts ! j))
    \<and> map sp_current (wr_peers l') = replicate (length ts) 0"
proof -
  let ?ws = "map effectiveWeight ts"
  have tot: "wr_total (wr_init ts) = sum_list ?ws" by (simp add: wr_init_def)
  have ne: "?ws \<noteq> []" using assms by simp
  have pos: "\<forall>w \<in> set ?ws. 0 < w" by (auto intro: less_le_trans [OF zero_less_one effectiveWeight_pos])
  obtain ks cs where r: "swrr_run ?ws (q * nat (sum_list ?ws)) (replicate (length ?ws) 0) = (ks, cs)"
    by fastforce
  from swrr_exact [OF ne pos r]
  have c: "cs = replicate (length ts) 0" "\<And>j. j < length ts \<Longrightarrow> int (count_list ks j) = int q * effectiveWeight (ts ! j)"
    by auto
  from wr_picks_refines [OF wr_init_ungated ne, of _ ks cs] r obtain l' where
    "wr_picks (q * nat (sum_list ?ws)) (wr_init ts) = (map Some ks, l')" "wr_ungated ?ws cs l'" by auto
  with c tot show ?thesis by (auto simp: wr_ungated_def count_list_map_Some)
qed

text \<open>Three targets of weights 3, 1 and unset.\<close>

definition wr_three :: "Target list" where
  "wr_three = [\<lparr>tg_Host = ''a'', tg_Weight = 3, tg_MaxConcurrent = 0\<rparr>,
     \<lparr>tg_Host = ''b'', tg_Weight = 1, tg_MaxConcurrent = 0\<rparr>,
     \<lparr>tg_Host = ''c'', tg_Weight = 0, tg_MaxConcurrent = 0\<rparr>]"

theorem weighted_exact_shares_witness:
  "\<exists>rs l'. wr_picks (4 * nat (wr_total (wr_init wr_three))) (wr_init wr_three) = (rs, l')
    \<and> int (count_list rs (Some 0)) = 12"
  using weighted_exact_shares [of wr_three 4]
  by (fastforce simp: wr_three_def effectiveWeight_def simp del: wr_picks.simps)

text \<open>
  Under a health gate with a live target, a pick returns a live target, leaves the weight of
  every gated-down target frozen, and keeps the sum of the live current weights, a recovering
  target counting from zero: giving back the live total keeps the ratio of the survivors.
\<close>

theorem weighted_gated_pick:
  assumes "i < length (wr_peers l)" and "gate_up (wr_gate l) i"
  shows "\<exists>k l'. wr_pick l now = (Some k, l') \<and> k < length (wr_peers l) \<and> gate_up (wr_gate l) k
    \<and> (\<forall>j < length (wr_peers l). \<not> gate_up (wr_gate l) j \<longrightarrow> sp_current (wr_peers l' ! j) = sp_current (wr_peers l ! j))
    \<and> (\<Sum>j | j < length (wr_peers l) \<and> gate_up (wr_gate l) j. sp_current (wr_peers l' ! j))
        = (\<Sum>j | j < length (wr_peers l) \<and> gate_up (wr_gate l) j. entry (wr_peers l ! j))"
proof -
  let ?up = "gate_up (wr_gate l)" and ?n = "length (wr_peers l)"
  let ?L = "{j. j < ?n \<and> ?up j}"
  obtain ps b lt where s: "wr_scan ?up 0 (wr_peers l) None 0 = (ps, b, lt)"
    by (cases "wr_scan ?up 0 (wr_peers l) None 0") auto
  from wr_scan_best [OF s] assms obtain k c where b: "b = Some (k, c)" and k: "k < ?n" "?up k"
    by auto
  let ?ps = "give_back k lt ps"
  have p: "wr_pick l now = (Some k, l\<lparr>wr_peers := ?ps\<rparr>)" using s b assms(1) by (auto simp: wr_pick_def)
  have len: "length ps = ?n" using wr_scan_nth(1) [OF s] .
  have lt: "lt = (\<Sum>j\<in>?L. sp_weight (wr_peers l ! j))" using wr_scan_nth(3) [OF s] by simp
  have down: "sp_current (?ps ! j) = sp_current (wr_peers l ! j)" if "j < ?n" "\<not> ?up j" for j
    using that k wr_scan_nth(2) [OF s that(1)] by (cases "k = j") (simp_all add: give_back_def Let_def)
  have live: "sp_current (?ps ! j) = entry (wr_peers l ! j) + sp_weight (wr_peers l ! j) - (if j = k then lt else 0)"
    if "j \<in> ?L" for j
    using that k len wr_scan_nth(2) [OF s, of j]
    by (auto simp: give_back_def nth_list_update Let_def entry_def)
  have "(\<Sum>j\<in>?L. sp_current (?ps ! j))
      = (\<Sum>j\<in>?L. entry (wr_peers l ! j)) + (\<Sum>j\<in>?L. sp_weight (wr_peers l ! j)) - (\<Sum>j\<in>?L. if j = k then lt else 0)"
    unfolding sum.distrib [symmetric] sum_subtractf [symmetric] by (rule sum.cong [OF refl live])
  also have "(\<Sum>j\<in>?L. if j = k then lt else 0) = lt" using k by (simp add: sum.delta)
  finally have "(\<Sum>j\<in>?L. sp_current (?ps ! j)) = (\<Sum>j\<in>?L. entry (wr_peers l ! j))" using lt by simp
  with p k down show ?thesis by auto
qed

theorem weighted_gated_pick_witness:
  "\<exists>k l'. wr_pick (wr_setHealthGate (Some [False, True, True]) (wr_init wr_three)) 0 = (Some k, l')
    \<and> k < 3 \<and> k \<noteq> 0"
proof -
  let ?l = "wr_setHealthGate (Some [False, True, True]) (wr_init wr_three)"
  have "1 < length (wr_peers ?l)" and "gate_up (wr_gate ?l) 1"
    by (simp_all add: wr_setHealthGate_def wr_init_def wr_three_def gate_up_def)
  from weighted_gated_pick [OF this, of 0] obtain k l' where
    p: "wr_pick ?l 0 = (Some k, l')" and k: "k < length (wr_peers ?l)" "gate_up (wr_gate ?l) k" by blast
  from k have "k < 3" and "k \<noteq> 0"
    by (auto simp: wr_setHealthGate_def wr_init_def wr_three_def gate_up_def intro: gr0I)
  with p show ?thesis by blast
qed

end
