(* ===== verification/Ejecting.thy ===== *)
theory Ejecting
  imports Upstream_Balancer "HOL-Library.Multiset"
begin

text \<open>
  \<^verbatim>\<open>EjectingLoadBalancer\<close> (\<^verbatim>\<open>pkg/upstream/ejecting.go\<close>): round robin with passive ejection.
  The operations are given twice: as the code runs them when nothing else touches the target, and
  as a machine with one step per atomic operation, in which recorders of many requests interleave.
  The first is shown to be the second run without interruption. An \<^verbatim>\<open>int32\<close> counter wraps.
\<close>

section \<open>State\<close>

record ejectTarget =
  et_target :: Target
  et_fails :: int
  et_ejections :: int
  et_ejectedUntil :: nanos

record EjectingLoadBalancer =
  ej_i :: u32
  ej_targets :: "ejectTarget list"
  ej_gate :: gate
  ej_Targets :: "Target list"
  ej_MaxFails :: int
  ej_EjectTimeout :: int
  ej_MaxEjectTimeout :: int
  ej_IsFailure :: "(rt_result \<Rightarrow> bool) option"
  ej_observed :: bool

definition NewEjectingLoadBalancer :: "Target list \<Rightarrow> EjectingLoadBalancer" where
  "NewEjectingLoadBalancer ts =
     \<lparr>ej_i = 0, ej_targets = [], ej_gate = None, ej_Targets = ts, ej_MaxFails = 0, ej_EjectTimeout = 0,
      ej_MaxEjectTimeout = 0, ej_IsFailure = None, ej_observed = False\<rparr>"

definition fresh_eject :: "Target \<Rightarrow> ejectTarget" where
  "fresh_eject t = \<lparr>et_target = t, et_fails = 0, et_ejections = 0, et_ejectedUntil = 0\<rparr>"

definition ej_init :: "EjectingLoadBalancer \<Rightarrow> EjectingLoadBalancer" where
  "ej_init l =
     (let mf = (if ej_MaxFails l \<le> 0 then 3 else ej_MaxFails l);
          et = (if ej_EjectTimeout l \<le> 0 then 30000000000 else ej_EjectTimeout l);
          mt = (if ej_MaxEjectTimeout l \<le> 0 then 300000000000 else ej_MaxEjectTimeout l);
          mt' = (if mt < et then et else mt)
      in l\<lparr>ej_MaxFails := mf, ej_EjectTimeout := et, ej_MaxEjectTimeout := mt',
           ej_targets := map fresh_eject (ej_Targets l)\<rparr>)"

section \<open>Operations\<close>

definition ej_setHealthGate :: "gate \<Rightarrow> EjectingLoadBalancer \<Rightarrow> EjectingLoadBalancer" where
  "ej_setHealthGate g l = l\<lparr>ej_gate := g\<rparr>"

definition ej_up :: "EjectingLoadBalancer \<Rightarrow> nat \<Rightarrow> bool" where
  "ej_up l i = gate_up (ej_gate l) i"

definition ej_selectable :: "EjectingLoadBalancer \<Rightarrow> nanos \<Rightarrow> nat \<Rightarrow> bool" where
  "ej_selectable l now i \<longleftrightarrow> et_ejectedUntil (ej_targets l ! i) \<le> now"

text \<open>\<^verbatim>\<open>pick\<close> after the empty-pool check of \<^verbatim>\<open>RoundTrip\<close>; \<open>None\<close> is \<^verbatim>\<open>ErrUnavailable\<close>.\<close>

definition ej_pick :: "EjectingLoadBalancer \<Rightarrow> nanos \<Rightarrow> nat option \<times> EjectingLoadBalancer" where
  "ej_pick l now =
     (let n = length (ej_targets l)
      in if n = 0 then (None, l)
         else let i' = ej_i l + 1; start = i' - 1
              in (Some (scan_open (\<lambda>i. ej_selectable l now i \<and> ej_up l i) start n), l\<lparr>ej_i := i'\<rparr>))"

definition ejectionTimeout :: "EjectingLoadBalancer \<Rightarrow> int \<Rightarrow> int" where
  "ejectionTimeout l e = backoff (ej_EjectTimeout l) (ej_MaxEjectTimeout l) e"

definition eject_change :: "ejectTarget \<Rightarrow> nanos \<Rightarrow> StateChange" where
  "eject_change t prev =
     \<lparr>sc_Host = tg_Host (et_target t), sc_From = (if prev \<noteq> 0 then StateOpen else StateClosed),
      sc_To = StateOpen, sc_Reason = ReasonEject, sc_Cause = CauseNone\<rparr>"

definition recover_change :: "ejectTarget \<Rightarrow> StateChange" where
  "recover_change t =
     \<lparr>sc_Host = tg_Host (et_target t), sc_From = StateOpen, sc_To = StateClosed,
      sc_Reason = ReasonRecover, sc_Cause = CauseNone\<rparr>"

definition ej_eject :: "EjectingLoadBalancer \<Rightarrow> nanos \<Rightarrow> ejectTarget \<Rightarrow> ejectTarget \<times> StateChange list" where
  "ej_eject l now t =
     (let t1 = t\<lparr>et_fails := 0\<rparr>; prev = et_ejectedUntil t1
      in if prev > now then (t1, [])
         else let e = s32 (et_ejections t1 + 1)
              in (t1\<lparr>et_ejectedUntil := now + ejectionTimeout l e, et_ejections := e\<rparr>,
                  if ej_observed l then [eject_change t prev] else []))"

definition ej_failed :: "EjectingLoadBalancer \<Rightarrow> rt_result \<Rightarrow> bool" where
  "ej_failed l r = failed_by (ej_IsFailure l) r"

definition ej_record ::
  "EjectingLoadBalancer \<Rightarrow> nanos \<Rightarrow> rt_result \<Rightarrow> ejectTarget \<Rightarrow> ejectTarget \<times> StateChange list"
where
  "ej_record l now r t =
     (if ej_failed l r
      then let t1 = t\<lparr>et_fails := s32 (et_fails t + 1)\<rparr>
           in if et_fails t1 \<ge> ej_MaxFails l then ej_eject l now t1 else (t1, [])
      else if et_fails t \<noteq> 0 \<or> et_ejections t \<noteq> 0 \<or> et_ejectedUntil t \<noteq> 0
      then (t\<lparr>et_ejectedUntil := 0, et_fails := 0, et_ejections := 0\<rparr>,
            if et_ejectedUntil t \<noteq> 0 \<and> ej_observed l then [recover_change t] else [])
      else (t, []))"

text \<open>\<^verbatim>\<open>RoundTrip\<close> on an initialised balancer: the pick at \<open>now\<close>, the result recorded at \<open>now'\<close>.\<close>

definition ej_RoundTrip ::
  "(Target \<Rightarrow> rt_result) \<Rightarrow> nanos \<Rightarrow> nanos \<Rightarrow> EjectingLoadBalancer
     \<Rightarrow> string option \<times> rt_result \<times> EjectingLoadBalancer \<times> StateChange list"
where
  "ej_RoundTrip transport now now' l =
     (case ej_pick l now of
        (None, l1) \<Rightarrow> (None, Inl ErrUnavailable, l1, [])
      | (Some i, l1) \<Rightarrow>
          let t = ej_targets l1 ! i; r = transport (et_target t)
          in case ej_record l1 now' r t of
               (t', evs) \<Rightarrow> (Some (tg_Host (et_target t)), r, l1\<lparr>ej_targets := (ej_targets l1)[i := t']\<rparr>, evs))"

text \<open>The scan is exact while the cursor is not among its last values before it wraps.\<close>

definition ej_exact :: "EjectingLoadBalancer \<Rightarrow> nanos \<Rightarrow> bool" where
  "ej_exact l now \<longleftrightarrow> unat (ej_i l) + length (ej_targets l) \<le> 2 ^ 32"

interpretation ej: gated_balancer "\<lambda>l. length (ej_targets l)" ej_gate ej_setHealthGate
  ej_selectable ej_exact ej_pick
proof
  fix l now
  assume "length (ej_targets l) < 2 ^ 32" "ej_exact l now"
    and e: "\<exists>i < length (ej_targets l). ej_selectable l now i \<and> gate_up (ej_gate l) i"
  then show "\<exists>i l'. ej_pick l now = (Some i, l') \<and> i < length (ej_targets l)
      \<and> ej_selectable l now i \<and> gate_up (ej_gate l) i"
    using scan_open_sound [of "length (ej_targets l)" "ej_i l" "\<lambda>i. ej_selectable l now i \<and> ej_up l i"]
    by (auto simp: ej_pick_def ej_exact_def ej_up_def Let_def)
qed (auto simp: ej_pick_def Let_def ej_setHealthGate_def ej_exact_def ej_selectable_def
    intro: scan_open_less split: if_splits)

section \<open>Recorders, one atomic operation at a time\<close>

text \<open>
  The program points of \<^verbatim>\<open>record\<close> and \<^verbatim>\<open>eject\<close>. \<open>AtLoad\<close> is the head of the retry loop with the
  time read before it; \<open>AtCount\<close> and \<open>AtCas\<close> carry the loaded deadline; the three guards are the
  loads before the writes of a success.
\<close>

datatype ej_pc =
    AtAdd | AtReset | AtLoad nanos | AtCount nanos nanos | AtCas nanos nanos int | AtStore int
  | AtGuard1 | AtGuard2 | AtGuard3 | AtSwap | AtFails | AtEjections

text \<open>A committed transition: the event, the time the ejector read, and the deadline it set.\<close>

type_synonym ej_commit = "StateChange \<times> nanos \<times> nanos"

fun ej_micro :: "EjectingLoadBalancer \<Rightarrow> nanos \<Rightarrow> ejectTarget \<Rightarrow> ej_pc
    \<Rightarrow> ejectTarget \<times> ej_pc option \<times> ej_commit list"
where
  "ej_micro l now t AtAdd =
     (let f = s32 (et_fails t + 1)
      in (t\<lparr>et_fails := f\<rparr>, if f \<ge> ej_MaxFails l then Some AtReset else None, []))"
| "ej_micro l now t AtReset = (t\<lparr>et_fails := 0\<rparr>, Some (AtLoad now), [])"
| "ej_micro l now t (AtLoad at) =
     (let prev = et_ejectedUntil t in (t, if prev > at then None else Some (AtCount at prev), []))"
| "ej_micro l now t (AtCount at prev) = (t, Some (AtCas at prev (s32 (et_ejections t + 1))), [])"
| "ej_micro l now t (AtCas at prev e) =
     (if et_ejectedUntil t = prev
      then let until = at + ejectionTimeout l e
           in (t\<lparr>et_ejectedUntil := until\<rparr>, Some (AtStore e), [(eject_change t prev, at, until)])
      else (t, Some (AtLoad at), []))"
| "ej_micro l now t (AtStore e) = (t\<lparr>et_ejections := e\<rparr>, None, [])"
| "ej_micro l now t AtGuard1 = (t, Some (if et_fails t \<noteq> 0 then AtSwap else AtGuard2), [])"
| "ej_micro l now t AtGuard2 = (t, Some (if et_ejections t \<noteq> 0 then AtSwap else AtGuard3), [])"
| "ej_micro l now t AtGuard3 = (t, if et_ejectedUntil t \<noteq> 0 then Some AtSwap else None, [])"
| "ej_micro l now t AtSwap =
     (t\<lparr>et_ejectedUntil := 0\<rparr>, Some AtFails,
      if et_ejectedUntil t \<noteq> 0 then [(recover_change t, now, 0)] else [])"
| "ej_micro l now t AtFails = (t\<lparr>et_fails := 0\<rparr>, Some AtEjections, [])"
| "ej_micro l now t AtEjections = (t\<lparr>et_ejections := 0\<rparr>, None, [])"

text \<open>One recorder alone, with fuel for its steps.\<close>

fun ej_alone :: "nat \<Rightarrow> EjectingLoadBalancer \<Rightarrow> nanos \<Rightarrow> ejectTarget \<Rightarrow> ej_pc
    \<Rightarrow> (ejectTarget \<times> ej_commit list) option"
where
  "ej_alone 0 l now t pc = None"
| "ej_alone (Suc n) l now t pc =
     (case ej_micro l now t pc of
        (t', None, evs) \<Rightarrow> Some (t', evs)
      | (t', Some pc', evs) \<Rightarrow> map_option (\<lambda>(t'', evs'). (t'', evs @ evs')) (ej_alone n l now t' pc'))"

text \<open>Six steps are enough for either path; the machine run alone is \<^verbatim>\<open>record\<close>.\<close>

lemma ej_alone_record:
  assumes "ej_observed l"
  shows "\<exists>evs. ej_alone 6 l now t (if ej_failed l r then AtAdd else AtGuard1)
           = Some (fst (ej_record l now r t), evs) \<and> map fst evs = snd (ej_record l now r t)"
  using assms
  by (auto simp: ej_record_def ej_eject_def Let_def eval_nat_numeral eject_change_def recover_change_def)

section \<open>Interleavings\<close>

text \<open>
  A target shared by any number of recorders. A recorder starts at any time, any recorder takes
  its next step, time passes. The log holds the committed transitions, the newest first.
\<close>

type_synonym ej_sys = "ejectTarget \<times> ej_pc multiset \<times> nanos \<times> ej_commit list"

definition opt_mset :: "'a option \<Rightarrow> 'a multiset" where
  "opt_mset x = (case x of None \<Rightarrow> {#} | Some y \<Rightarrow> {#y#})"

inductive ej_step :: "EjectingLoadBalancer \<Rightarrow> ej_sys \<Rightarrow> ej_sys \<Rightarrow> bool" for l where
  failure: "ej_step l (t, T, now, log) (t, add_mset AtAdd T, now, log)"
| success: "ej_step l (t, T, now, log) (t, add_mset AtGuard1 T, now, log)"
| micro: "ej_micro l now t pc = (t', pc', evs) \<Longrightarrow>
     ej_step l (t, add_mset pc T, now, log) (t', T + opt_mset pc', now, evs @ log)"
| tick: "now \<le> now' \<Longrightarrow> ej_step l (t, T, now, log) (t, T, now', log)"

inductive ej_reachable :: "EjectingLoadBalancer \<Rightarrow> ej_sys \<Rightarrow> bool" for l where
  start: "0 < now \<Longrightarrow> ej_reachable l (fresh_eject tg, {#}, now, [])"
| step: "ej_reachable l s \<Longrightarrow> ej_step l s s' \<Longrightarrow> ej_reachable l s'"

text \<open>
  A well-formed log: it starts at \<^verbatim>\<open>StateClosed\<close>, each event leaves the state the previous one
  entered, and an ejection that follows an ejection read its time after the earlier deadline.
\<close>

fun ej_log_ok :: "ej_commit list \<Rightarrow> bool" where
  "ej_log_ok [] \<longleftrightarrow> True"
| "ej_log_ok [(c, at, until)] \<longleftrightarrow> sc_From c = StateClosed"
| "ej_log_ok ((c, at, until) # (c0, at0, until0) # log) \<longleftrightarrow>
     sc_From c = sc_To c0
     \<and> (sc_Reason c = ReasonEject \<and> sc_Reason c0 = ReasonEject \<longrightarrow> until0 \<le> at)
     \<and> ej_log_ok ((c0, at0, until0) # log)"

fun ej_log_state :: "ej_commit list \<Rightarrow> State \<times> nanos" where
  "ej_log_state [] = (StateClosed, 0)"
| "ej_log_state ((c, at, until) # log) = (sc_To c, until)"

fun ej_pc_ok :: "nanos \<Rightarrow> ej_pc \<Rightarrow> bool" where
  "ej_pc_ok now (AtLoad at) \<longleftrightarrow> 0 < at \<and> at \<le> now"
| "ej_pc_ok now (AtCount at prev) \<longleftrightarrow> 0 < at \<and> at \<le> now \<and> prev \<le> at"
| "ej_pc_ok now (AtCas at prev e) \<longleftrightarrow> 0 < at \<and> at \<le> now \<and> prev \<le> at"
| "ej_pc_ok now _ \<longleftrightarrow> True"

definition ej_commit_ok :: "EjectingLoadBalancer \<Rightarrow> ej_commit \<Rightarrow> bool" where
  "ej_commit_ok l x = (case x of (c, at, until) \<Rightarrow>
     (sc_Reason c = ReasonEject \<and> sc_To c = StateOpen \<and> 0 < at
        \<and> at + ej_EjectTimeout l \<le> until \<and> until \<le> at + ej_MaxEjectTimeout l)
     \<or> (sc_Reason c = ReasonRecover \<and> sc_To c = StateClosed \<and> until = 0))"

definition ej_inv :: "EjectingLoadBalancer \<Rightarrow> ej_sys \<Rightarrow> bool" where
  "ej_inv l s = (case s of (t, T, now, log) \<Rightarrow>
     0 < now \<and> (\<forall>pc \<in># T. ej_pc_ok now pc) \<and> ej_log_ok log \<and> (\<forall>x \<in> set log. ej_commit_ok l x)
     \<and> ej_log_state log = (if et_ejectedUntil t = 0 then StateClosed else StateOpen, et_ejectedUntil t))"

text \<open>A configuration as \<^verbatim>\<open>init\<close> leaves it, with a cap that keeps the doubling inside \<^verbatim>\<open>int64\<close>.\<close>

definition ej_config :: "EjectingLoadBalancer \<Rightarrow> bool" where
  "ej_config l \<longleftrightarrow> 0 < ej_MaxFails l \<and> 0 < ej_EjectTimeout l
     \<and> ej_EjectTimeout l \<le> ej_MaxEjectTimeout l \<and> ej_MaxEjectTimeout l \<le> 2 ^ 62"

lemma ej_init_config:
  "ej_EjectTimeout l \<le> 2 ^ 62 \<Longrightarrow> ej_MaxEjectTimeout l \<le> 2 ^ 62 \<Longrightarrow> ej_config (ej_init l)"
  by (simp add: ej_config_def ej_init_def Let_def)

lemma ejectionTimeout_range:
  assumes "ej_config l"
  shows "ej_EjectTimeout l \<le> ejectionTimeout l e" and "ejectionTimeout l e \<le> ej_MaxEjectTimeout l"
    and "0 < ejectionTimeout l e"
proof -
  show 1: "ej_EjectTimeout l \<le> ejectionTimeout l e" and "ejectionTimeout l e \<le> ej_MaxEjectTimeout l"
    using assms backoff_range [of "ej_EjectTimeout l" "ej_MaxEjectTimeout l" e]
    by (simp_all add: ejectionTimeout_def ej_config_def)
  from 1 assms show "0 < ejectionTimeout l e" by (simp add: ej_config_def)
qed

lemma ej_log_ok_Cons:
  "ej_log_ok ((c, at, until) # log) \<longleftrightarrow> sc_From c = fst (ej_log_state log)
     \<and> (\<forall>c0 at0 u0 rest. log = (c0, at0, u0) # rest \<longrightarrow>
          sc_Reason c = ReasonEject \<longrightarrow> sc_Reason c0 = ReasonEject \<longrightarrow> u0 \<le> at)
     \<and> ej_log_ok log"
  by (cases "((c, at, until) # log)" rule: ej_log_ok.cases) auto

lemma ej_pc_ok_mono: "now \<le> now' \<Longrightarrow> ej_pc_ok now pc \<Longrightarrow> ej_pc_ok now' pc"
  by (cases pc) auto

lemma ej_micro_pc_ok:
  "ej_micro l now t pc = (t', Some pc', evs) \<Longrightarrow> 0 < now \<Longrightarrow> ej_pc_ok now pc \<Longrightarrow> ej_pc_ok now pc'"
  by (cases pc) (auto simp: Let_def split: if_splits)

text \<open>The log and the deadline after one atomic operation.\<close>

lemma ej_micro_log:
  assumes cfg: "ej_config l" and m: "ej_micro l now t pc = (t', pc', evs)" and pc: "ej_pc_ok now pc"
    and log: "ej_log_ok log" "\<forall>x \<in> set log. ej_commit_ok l x"
      "ej_log_state log = (if et_ejectedUntil t = 0 then StateClosed else StateOpen, et_ejectedUntil t)"
  shows "ej_log_ok (evs @ log) \<and> (\<forall>x \<in> set (evs @ log). ej_commit_ok l x)
    \<and> ej_log_state (evs @ log)
        = (if et_ejectedUntil t' = 0 then StateClosed else StateOpen, et_ejectedUntil t')"
proof (cases "evs = []")
  case True
  have "et_ejectedUntil t' = et_ejectedUntil t"
    using m True by (cases pc) (auto simp: Let_def split: if_splits)
  with True log show ?thesis by simp
next
  case False
  then consider (cas) at prev e where "pc = AtCas at prev e" | (swap) "pc = AtSwap"
    using m by (cases pc) (auto simp: Let_def split: if_splits)
  then show ?thesis
  proof cases
    case cas
    have prev: "prev = et_ejectedUntil t" "0 < at" "prev \<le> at"
      and evs: "evs = [(eject_change t prev, at, at + ejectionTimeout l e)]"
      and t': "et_ejectedUntil t' = at + ejectionTimeout l e"
      using m cas False pc by (auto simp: Let_def split: if_splits)
    have u0: "u0 \<le> at" if "log = (c0, at0, u0) # rest" for c0 at0 u0 rest
      using that log(3) prev by simp
    have "ej_log_ok (evs @ log)"
      using log(1,3) u0 prev(1) by (simp add: evs ej_log_ok_Cons eject_change_def)
    with ejectionTimeout_range [OF cfg, of e] prev(2) log(2) t' show ?thesis
      by (simp add: evs ej_commit_ok_def eject_change_def)
  next
    case swap
    with m False have nz: "et_ejectedUntil t \<noteq> 0" and evs: "evs = [(recover_change t, now, 0)]"
      and t': "et_ejectedUntil t' = 0"
      by (auto split: if_splits)
    with log show ?thesis
      by (simp add: ej_log_ok_Cons ej_commit_ok_def recover_change_def)
  qed
qed

lemma ej_step_inv:
  assumes "ej_config l" and "ej_step l s s'" and "ej_inv l s"
  shows "ej_inv l s'"
  using assms(2)
proof cases
  case (micro now t pc t' pc' evs T log)
  from assms(3) micro(1) have i: "0 < now" "ej_pc_ok now pc" "\<forall>x \<in># T. ej_pc_ok now x" "ej_log_ok log"
    "\<forall>x \<in> set log. ej_commit_ok l x"
    "ej_log_state log = (if et_ejectedUntil t = 0 then StateClosed else StateOpen, et_ejectedUntil t)"
    by (simp_all add: ej_inv_def)
  have "\<forall>x \<in># opt_mset pc'. ej_pc_ok now x"
    using ej_micro_pc_ok [OF _ i(1,2)] micro(3) by (cases pc') (auto simp: opt_mset_def)
  with ej_micro_log [OF assms(1) micro(3) i(2,4,5,6)] i micro(2) show ?thesis
    by (auto simp: ej_inv_def)
next
  case (tick now now' t T log)
  with assms(3) show ?thesis by (auto simp: ej_inv_def intro: ej_pc_ok_mono)
qed (use assms(3) in \<open>auto simp: ej_inv_def\<close>)

lemma ej_reachable_inv:
  assumes "ej_reachable l s" and "ej_config l"
  shows "ej_inv l s"
  using assms
proof (induction rule: ej_reachable.induct)
  case (start now tg)
  then show ?case by (simp add: ej_inv_def fresh_eject_def)
next
  case (step s s')
  then show ?case by (blast intro: ej_step_inv)
qed

section \<open>Consecutive failures\<close>

fun ej_records :: "EjectingLoadBalancer \<Rightarrow> (nanos \<times> rt_result) list \<Rightarrow> ejectTarget
    \<Rightarrow> ejectTarget \<times> StateChange list"
where
  "ej_records l [] t = (t, [])"
| "ej_records l ((now, r) # rs) t =
     (case ej_record l now r t of (t1, e1) \<Rightarrow> case ej_records l rs t1 of (t2, e2) \<Rightarrow> (t2, e1 @ e2))"

lemma ej_records_below:
  assumes "ej_MaxFails l < 2 ^ 31" and "list_all (\<lambda>(_, r). ej_failed l r) rs"
    and "0 \<le> et_fails t" and "et_fails t + int (length rs) < ej_MaxFails l"
  shows "ej_records l rs t = (t\<lparr>et_fails := et_fails t + int (length rs)\<rparr>, [])"
  using assms(2-4)
proof (induction rs arbitrary: t)
  case (Cons x rs)
  obtain now r where x: "x = (now, r)" by (cases x)
  have "ej_record l now r t = (t\<lparr>et_fails := et_fails t + 1\<rparr>, [])"
    using Cons.prems assms(1) by (simp add: x ej_record_def s32_small Let_def)
  moreover from Cons.IH [of "t\<lparr>et_fails := et_fails t + 1\<rparr>"] Cons.prems
  have "ej_records l rs (t\<lparr>et_fails := et_fails t + 1\<rparr>)
      = (t\<lparr>et_fails := et_fails t + 1 + int (length rs)\<rparr>, [])" by (simp add: x)
  ultimately show ?case by (simp add: x algebra_simps)
qed simp

section \<open>Properties\<close>

text \<open>
  However the recorders of concurrent requests interleave, a target is ejected at most once per
  cooldown: the committed transitions chain from closed to open and back, an ejection on top of an
  ejection happens only at a time past the earlier deadline, every cooldown lies between the base
  and the cap, and the deadline is non-zero exactly while the log says open.
\<close>

theorem ejecting_one_per_window:
  assumes "ej_config l" and "ej_reachable l (t, T, now, log)"
  shows "ej_log_ok log \<and> list_all (ej_commit_ok l) log
    \<and> ej_log_state log = (if et_ejectedUntil t = 0 then StateClosed else StateOpen, et_ejectedUntil t)"
  using ej_reachable_inv [OF assms(2,1)] by (simp add: ej_inv_def list_all_iff)

text \<open>A balancer that ejects on the first failure, and a target failing once at time 5.\<close>

definition ej_example :: EjectingLoadBalancer where
  "ej_example = ej_init ((NewEjectingLoadBalancer [])\<lparr>ej_MaxFails := 1, ej_EjectTimeout := 10,
     ej_MaxEjectTimeout := 40, ej_observed := True\<rparr>)"

definition ej_target :: Target where
  "ej_target = \<lparr>tg_Host = ''a'', tg_Weight = 0, tg_MaxConcurrent = 0\<rparr>"

lemma ej_example_config: "ej_config ej_example"
  by (simp add: ej_example_def ej_config_def ej_init_def NewEjectingLoadBalancer_def Let_def)

lemma ej_run_one:
  assumes "ej_reachable l (t, {#pc#}, now, log)" and "ej_micro l now t pc = (t', Some pc', evs)"
  shows "ej_reachable l (t', {#pc'#}, now, evs @ log)"
  using ej_reachable.step [OF assms(1) ej_step.micro [OF assms(2)]] by (simp add: opt_mset_def)

lemma ej_example_reachable:
  "ej_reachable ej_example ((fresh_eject ej_target)\<lparr>et_ejectedUntil := 15\<rparr>, {#AtStore 1#}, 5,
     [(eject_change (fresh_eject ej_target) 0, 5, 15)])"
proof -
  let ?t = "fresh_eject ej_target"
  have cfg: "ej_MaxFails ej_example = 1" "ejectionTimeout ej_example 1 = 10"
    by (simp_all add: ej_example_def ej_init_def NewEjectingLoadBalancer_def ejectionTimeout_def backoff_def Let_def)
  have 0: "ej_reachable ej_example (?t, {#AtAdd#}, 5, [])"
    using ej_reachable.step [OF ej_reachable.start ej_step.failure] by simp
  have 1: "ej_reachable ej_example (?t\<lparr>et_fails := 1\<rparr>, {#AtReset#}, 5, [])"
    using ej_run_one [OF 0, of "?t\<lparr>et_fails := 1\<rparr>" "AtReset" "[]"]
    by (simp add: cfg fresh_eject_def s32_small opt_mset_def)
  have 2: "ej_reachable ej_example (?t, {#AtLoad 5#}, 5, [])"
    using ej_run_one [OF 1, of ?t "AtLoad 5" "[]"] by (simp add: fresh_eject_def opt_mset_def)
  have 3: "ej_reachable ej_example (?t, {#AtCount 5 0#}, 5, [])"
    using ej_run_one [OF 2, of ?t "AtCount 5 0" "[]"] by (simp add: fresh_eject_def opt_mset_def)
  have 4: "ej_reachable ej_example (?t, {#AtCas 5 0 1#}, 5, [])"
    using ej_run_one [OF 3, of ?t "AtCas 5 0 1" "[]"]
    by (simp add: fresh_eject_def opt_mset_def s32_small)
  show ?thesis
    using ej_run_one [OF 4, of "?t\<lparr>et_ejectedUntil := 15\<rparr>" "AtStore 1" "[(eject_change ?t 0, 5, 15)]"]
    by (simp add: fresh_eject_def opt_mset_def cfg)
qed

theorem ejecting_one_per_window_witness:
  "ej_log_ok [(eject_change (fresh_eject ej_target) 0, 5, 15)]
    \<and> list_all (ej_commit_ok ej_example) [(eject_change (fresh_eject ej_target) 0, 5, 15)]"
  using ejecting_one_per_window [OF ej_example_config ej_example_reachable] by blast

text \<open>
  \<^verbatim>\<open>MaxFails\<close> consecutive failures eject a selectable target and fewer do not: the last one takes
  it out for the base cooldown doubled once per earlier ejection and capped, with one event, and
  one success afterwards restores the target completely.
\<close>

theorem ejecting_threshold:
  assumes "ej_config l" and "ej_MaxFails l < 2 ^ 31"
    and "et_fails t = 0" and "0 \<le> et_ejections t" and "et_ejections t < 2 ^ 31 - 1"
    and "list_all (\<lambda>(_, r). ej_failed l r) rs" and "int (length rs) = ej_MaxFails l - 1"
    and "ej_failed l r" and "et_ejectedUntil t \<le> now" and "\<not> ej_failed l r'"
  shows "\<exists>t1 t2. ej_records l rs t = (t1, [])
    \<and> et_ejectedUntil t1 = et_ejectedUntil t
    \<and> ej_record l now r t1 = (t2, if ej_observed l then [eject_change t (et_ejectedUntil t)] else [])
    \<and> et_ejectedUntil t2 = now + min (ej_MaxEjectTimeout l) (ej_EjectTimeout l * 2 ^ nat (et_ejections t))
    \<and> fst (ej_record l now' r' t2) = fresh_eject (et_target t)"
proof -
  let ?t1 = "t\<lparr>et_fails := ej_MaxFails l - 1\<rparr>"
  let ?d = "ejectionTimeout l (et_ejections t + 1)"
  let ?t2 = "t\<lparr>et_fails := 0, et_ejectedUntil := now + ?d, et_ejections := et_ejections t + 1\<rparr>"
  have 1: "ej_records l rs t = (?t1, [])"
    using ej_records_below [OF assms(2,6)] assms(1,3,7) by (simp add: ej_config_def)
  have 2: "ej_record l now r ?t1 = (?t2, if ej_observed l then [eject_change t (et_ejectedUntil t)] else [])"
    using assms by (simp add: ej_record_def ej_eject_def s32_small ej_config_def eject_change_def Let_def)
  have 3: "?d = min (ej_MaxEjectTimeout l) (ej_EjectTimeout l * 2 ^ nat (et_ejections t))"
    using assms(1,4) backoff_closed [of "ej_EjectTimeout l" "ej_MaxEjectTimeout l" "et_ejections t + 1"]
    by (simp add: ejectionTimeout_def ej_config_def)
  have "fst (ej_record l now' r' ?t2) = fresh_eject (et_target t)"
    using assms(4,10) by (simp add: ej_record_def fresh_eject_def)
  with 1 2 3 show ?thesis by (intro exI [of _ ?t1] exI [of _ ?t2]) simp
qed

theorem ejecting_threshold_witness:
  "\<exists>t1 t2. ej_records ej_example [] (fresh_eject ej_target) = (t1, [])
    \<and> ej_record ej_example 5 (Inl (ErrTransport ''refused'')) t1 = (t2, [eject_change (fresh_eject ej_target) 0])
    \<and> et_ejectedUntil t2 = 15"
proof -
  have l: "ej_MaxFails ej_example = 1" "ej_observed ej_example" "ej_EjectTimeout ej_example = 10"
    "ej_MaxEjectTimeout ej_example = 40" "ej_IsFailure ej_example = None"
    by (simp_all add: ej_example_def ej_init_def NewEjectingLoadBalancer_def Let_def)
  have "ej_failed ej_example (Inl (ErrTransport ''refused''))" and "\<not> ej_failed ej_example (Inr 200)"
    by (simp_all add: ej_failed_def failed_by_def l)
  with ejecting_threshold [OF ej_example_config, of "fresh_eject ej_target" "[]" "Inl (ErrTransport ''refused'')" 5 "Inr 200"]
  show ?thesis by (auto simp: l fresh_eject_def)
qed

end
