(* ===== verification/Circuit_Breaker.thy ===== *)
theory Circuit_Breaker
  imports Upstream_Balancer "HOL-Library.Multiset"
begin

text \<open>
  \<^verbatim>\<open>CircuitBreakingLoadBalancer\<close> (\<^verbatim>\<open>pkg/upstream/circuitbreaker.go\<close>): the packed word of a breaker
  at its width, the operations as they run undisturbed, and a balancer that sheds load instead of
  failing open. The interleaved machine is in \<^verbatim>\<open>Circuit_Interleaving\<close>.
\<close>

unbundle bit_operations_syntax

section \<open>The packed word\<close>

definition cbClosed :: u64 where "cbClosed = 0"
definition cbOpen :: u64 where "cbOpen = 1"
definition cbHalfOpen :: u64 where "cbHalfOpen = 2"

definition cbStateMask :: u64 where "cbStateMask = push_bit 2 1 - 1"
definition cbProbeMask :: u64 where "cbProbeMask = push_bit 2 (push_bit 22 1 - 1)"
definition cbProbeOne :: u64 where "cbProbeOne = push_bit 2 1"
definition cbMaxProbes :: int where "cbMaxProbes = 2 ^ 22 - 1"

definition cbPack :: "u32 \<Rightarrow> u32 \<Rightarrow> u64 \<Rightarrow> u64" where
  "cbPack gen probes state = push_bit 24 (ucast gen) OR push_bit 2 (ucast probes) OR state"

definition cbUnpack :: "u64 \<Rightarrow> u32 \<times> u32 \<times> u64" where
  "cbUnpack v = (ucast (drop_bit 24 v), ucast (drop_bit 2 (v AND cbProbeMask)), v AND cbStateMask)"

definition cb_gen :: "u64 \<Rightarrow> u32" where "cb_gen v = fst (cbUnpack v)"
definition cb_probes :: "u64 \<Rightarrow> u32" where "cb_probes v = fst (snd (cbUnpack v))"
definition cb_st :: "u64 \<Rightarrow> u64" where "cb_st v = snd (snd (cbUnpack v))"

lemma cbUnpack_fields: "cbUnpack v = (cb_gen v, cb_probes v, cb_st v)"
  by (simp add: cb_gen_def cb_probes_def cb_st_def)

lemmas cb_masks = cbStateMask_def cbProbeMask_def cbProbeOne_def

text \<open>The three fields as arithmetic on the value of the word.\<close>

lemma cb_masks_eq: "cbStateMask = mask 2" "cbProbeMask = push_bit 2 (mask 22)" "cbProbeOne = 4"
  by (simp_all add: cbStateMask_def cbProbeMask_def cbProbeOne_def mask_eq_exp_minus_1 push_bit_eq_mult)

lemma cb_st_unat: "unat (cb_st v) = unat v mod 4"
proof -
  have "cb_st v = take_bit 2 v"
    by (simp add: cb_st_def cbUnpack_def cb_masks_eq take_bit_eq_mask)
  then show ?thesis by (simp add: take_bit_eq_mod unat_mod_distrib)
qed

lemma cb_gen_unat: "unat (cb_gen v) = unat v div 2 ^ 24 mod 2 ^ 32"
  by (simp add: cb_gen_def cbUnpack_def unsigned_ucast_eq drop_bit_eq_div unat_div_distrib
      take_bit_eq_mod)

lemma cb_probes_unat: "unat (cb_probes v) = unat v div 4 mod 2 ^ 22"
proof -
  have "drop_bit 2 (v AND cbProbeMask) = take_bit 22 (drop_bit 2 v)"
    by (rule bit_word_eqI) (auto simp: cb_masks_eq bit_simps)
  then have "cb_probes v = ucast (take_bit 22 (drop_bit 2 v))"
    by (simp add: cb_probes_def cbUnpack_def)
  moreover have "unat (take_bit 22 (drop_bit 2 v)) = unat v div 4 mod 2 ^ 22"
    by (simp add: take_bit_eq_mod drop_bit_eq_div unat_div_distrib unat_mod_distrib)
  moreover have "unat v div 4 mod 2 ^ 22 < 2 ^ (32 :: nat)"
    by (rule less_trans [OF mod_less_divisor]) simp_all
  ultimately show ?thesis by (simp add: unsigned_ucast_eq take_bit_eq_mod)
qed

lemma bit_below:
  fixes w :: "'a::len word"
  assumes "unat w < 2 ^ k" and "bit w n"
  shows "n < k"
proof (rule ccontr)
  assume "\<not> n < k"
  then have "unat w < 2 ^ n" using assms(1) by (meson le_trans less_le_trans not_less one_le_numeral power_increasing)
  then have "\<not> bit (unat w) n" by (simp add: bit_iff_odd)
  with assms(2) show False by (simp add: bit_unsigned_iff)
qed

text \<open>Reading back what was packed.\<close>

lemma cb_fields_pack:
  assumes "unat probes < 2 ^ 22" and "unat st < 4"
  shows "cb_gen (cbPack gen probes st) = gen" and "cb_probes (cbPack gen probes st) = probes"
    and "cb_st (cbPack gen probes st) = st"
proof -
  have p: "\<And>n. bit probes n \<Longrightarrow> n < 22" using bit_below [OF assms(1)] .
  have s: "\<And>n. bit st n \<Longrightarrow> n < 2" using bit_below [of st 2] assms(2) by simp
  show "cb_gen (cbPack gen probes st) = gen"
    by (rule bit_word_eqI)
      (auto simp: cb_gen_def cbUnpack_def cbPack_def bit_simps dest!: p s)
  show "cb_probes (cbPack gen probes st) = probes"
    by (rule bit_word_eqI)
      (auto simp: cb_probes_def cbUnpack_def cbPack_def cb_masks_eq bit_simps dest: p s)
  show "cb_st (cbPack gen probes st) = st"
    by (rule bit_word_eqI)
      (auto simp: cb_st_def cbUnpack_def cbPack_def cb_masks_eq bit_simps dest: s)
qed

lemma block_bound:
  fixes x :: nat
  assumes "x < k * c" and "x mod c + d < c"
  shows "x + d < k * c"
proof -
  have "x div c < k" using assms(1) by (simp add: less_mult_imp_div_less)
  then have "Suc (x div c) * c \<le> k * c" by (intro mult_le_mono) simp_all
  then have "c + x div c * c \<le> k * c" by simp
  with assms(2) div_mult_mod_eq [of x c] show ?thesis by linarith
qed

text \<open>Claiming and freeing a slot touches the probe field only.\<close>

lemma cb_fields_claim:
  assumes "unat (cb_probes v) < 2 ^ 22 - 1"
  shows "cb_gen (v + cbProbeOne) = cb_gen v" and "unat (cb_probes (v + cbProbeOne)) = unat (cb_probes v) + 1"
    and "cb_st (v + cbProbeOne) = cb_st v"
proof -
  define x where "x = unat v"
  have y: "(x div 4) mod 2 ^ 22 + 1 < 2 ^ 22" using assms by (simp add: cb_probes_unat x_def)
  have x: "x < 2 ^ 24 * 2 ^ 40" using unsigned_less [of v] by (simp add: x_def)
  have "x mod (4 * 2 ^ 22) = 4 * (x div 4 mod 2 ^ 22) + x mod 4" by (rule mod_mult2_eq)
  moreover have "x mod 4 < 4" by simp
  ultimately have low: "x mod 2 ^ 24 + 4 < 2 ^ 24" using y by simp
  from block_bound [OF _ low, of "2 ^ 40"] x have "x + 4 < 2 ^ 40 * 2 ^ 24" by simp
  then have "x + 4 < 2 ^ 64" by simp
  then have u: "unat (v + cbProbeOne) = x + 4"
    by (simp add: unat_word_ariths cb_masks_eq x_def)
  have d: "(x + 4) div 4 = Suc (x div 4)" by simp
  have "unat (cb_st (v + cbProbeOne)) = unat (cb_st v)" by (simp add: cb_st_unat u x_def)
  then show "cb_st (v + cbProbeOne) = cb_st v" by (simp add: word_unat_eq_iff)
  show "unat (cb_probes (v + cbProbeOne)) = unat (cb_probes v) + 1"
    using y by (simp add: cb_probes_unat u d mod_Suc flip: x_def)
  have "(x + 4) div 2 ^ 24 = (x + 4) div 4 div 2 ^ 22" by (simp add: div_mult2_eq [symmetric])
  also have "\<dots> = x div 4 div 2 ^ 22" using y by (simp add: d div_Suc mod_Suc)
  also have "\<dots> = x div 2 ^ 24" by (simp add: div_mult2_eq [symmetric])
  finally have "unat (cb_gen (v + cbProbeOne)) = unat (cb_gen v)" by (simp add: cb_gen_unat u flip: x_def)
  then show "cb_gen (v + cbProbeOne) = cb_gen v" by (simp add: word_unat_eq_iff)
qed

lemma cb_fields_release:
  assumes "cb_probes v \<noteq> 0"
  shows "cb_gen (v - cbProbeOne) = cb_gen v" and "unat (cb_probes (v - cbProbeOne)) + 1 = unat (cb_probes v)"
    and "cb_st (v - cbProbeOne) = cb_st v"
proof -
  let ?w = "v - cbProbeOne"
  have nz: "unat v div 4 mod 2 ^ 22 \<noteq> 0" using assms by (metis cb_probes_unat unsigned_eq_0_iff)
  then have ge: "4 \<le> unat v" by (cases "unat v < 4") simp_all
  then have u: "unat v = unat ?w + 4"
    by (simp add: cb_masks_eq unat_sub word_le_nat_alt)
  have "unat (cb_probes ?w) < 2 ^ 22 - 1"
  proof (rule ccontr)
    assume "\<not> unat (cb_probes ?w) < 2 ^ 22 - 1"
    moreover have "unat ?w div 4 mod 2 ^ 22 < 2 ^ 22" by (rule mod_less_divisor) simp
    ultimately have "Suc (unat ?w div 4 mod 2 ^ 22) = 2 ^ 22" by (simp add: cb_probes_unat)
    then have "Suc (unat ?w div 4) mod 2 ^ 22 = 0" by (simp only: mod_Suc simp_thms if_True)
    moreover have "unat v div 4 = Suc (unat ?w div 4)" using u by simp
    ultimately show False using nz by simp
  qed
  from cb_fields_claim [OF this]
  show "cb_gen ?w = cb_gen v" and "unat (cb_probes ?w) + 1 = unat (cb_probes v)" and "cb_st ?w = cb_st v"
    by simp_all
qed

lemma cb_state_values:
  "unat cbClosed = 0" "unat cbOpen = 1" "unat cbHalfOpen = 2"
  "cbClosed \<noteq> cbOpen" "cbOpen \<noteq> cbClosed" "cbClosed \<noteq> cbHalfOpen" "cbHalfOpen \<noteq> cbClosed"
  "cbOpen \<noteq> cbHalfOpen" "cbHalfOpen \<noteq> cbOpen"
  by (simp_all add: cbClosed_def cbOpen_def cbHalfOpen_def)

section \<open>State\<close>

record cbState =
  cb_target :: Target
  cb_word :: u64
  cb_openedUntil :: nanos
  cb_halfOpenSince :: nanos
  cb_generations :: int
  cb_failures :: int
  cb_successes :: int

datatype cbAdmission = cbAdmitClosed | cbAdmitProbe

record CircuitBreakingLoadBalancer =
  cb_i :: u32
  cb_breakers :: "cbState list"
  cb_gate :: gate
  cb_Targets :: "Target list"
  cb_FailureThreshold :: int
  cb_SuccessThreshold :: int
  cb_OpenTimeout :: int
  cb_MaxOpenTimeout :: int
  cb_ProbeTimeout :: int
  cb_HalfOpenMaxProbes :: int
  cb_IsFailure :: "(rt_result \<Rightarrow> bool) option"
  cb_observed :: bool

definition NewCircuitBreakingLoadBalancer :: "Target list \<Rightarrow> CircuitBreakingLoadBalancer" where
  "NewCircuitBreakingLoadBalancer ts =
     \<lparr>cb_i = 0, cb_breakers = [], cb_gate = None, cb_Targets = ts, cb_FailureThreshold = 0,
      cb_SuccessThreshold = 0, cb_OpenTimeout = 0, cb_MaxOpenTimeout = 0, cb_ProbeTimeout = 0,
      cb_HalfOpenMaxProbes = 0, cb_IsFailure = None, cb_observed = False\<rparr>"

definition fresh_breaker :: "Target \<Rightarrow> cbState" where
  "fresh_breaker t = \<lparr>cb_target = t, cb_word = 0, cb_openedUntil = 0, cb_halfOpenSince = 0,
     cb_generations = 0, cb_failures = 0, cb_successes = 0\<rparr>"

definition positive_or :: "int \<Rightarrow> int \<Rightarrow> int" where
  "positive_or x d = (if x \<le> 0 then d else x)"

definition cb_init :: "CircuitBreakingLoadBalancer \<Rightarrow> CircuitBreakingLoadBalancer" where
  "cb_init l =
     (let ot = positive_or (cb_OpenTimeout l) 5000000000;
          mt = positive_or (cb_MaxOpenTimeout l) 60000000000;
          hp = positive_or (cb_HalfOpenMaxProbes l) 1
      in l\<lparr>cb_FailureThreshold := positive_or (cb_FailureThreshold l) 5,
           cb_SuccessThreshold := positive_or (cb_SuccessThreshold l) 2,
           cb_OpenTimeout := ot,
           cb_MaxOpenTimeout := (if mt < ot then ot else mt),
           cb_ProbeTimeout := positive_or (cb_ProbeTimeout l) 120000000000,
           cb_HalfOpenMaxProbes := (if hp > cbMaxProbes then cbMaxProbes else hp),
           cb_breakers := map fresh_breaker (cb_Targets l)\<rparr>)"

section \<open>Operations\<close>

definition cb_setHealthGate :: "gate \<Rightarrow> CircuitBreakingLoadBalancer \<Rightarrow> CircuitBreakingLoadBalancer" where
  "cb_setHealthGate g l = l\<lparr>cb_gate := g\<rparr>"

definition cb_up :: "CircuitBreakingLoadBalancer \<Rightarrow> nat \<Rightarrow> bool" where
  "cb_up l i = gate_up (cb_gate l) i"

definition cbExternal :: "u64 \<Rightarrow> State" where
  "cbExternal s = (if s = cbOpen then StateOpen else if s = cbHalfOpen then StateHalfOpen else StateClosed)"

definition cb_change :: "cbState \<Rightarrow> State \<Rightarrow> State \<Rightarrow> Reason \<Rightarrow> StateChange" where
  "cb_change b from to reason =
     \<lparr>sc_Host = tg_Host (cb_target b), sc_From = from, sc_To = to, sc_Reason = reason, sc_Cause = CauseNone\<rparr>"

definition cb_emit ::
  "CircuitBreakingLoadBalancer \<Rightarrow> cbState \<Rightarrow> State \<Rightarrow> State \<Rightarrow> Reason \<Rightarrow> StateChange list"
where
  "cb_emit l b from to reason = (if cb_observed l then [cb_change b from to reason] else [])"

definition openTimeout :: "CircuitBreakingLoadBalancer \<Rightarrow> int \<Rightarrow> int" where
  "openTimeout l g = backoff (cb_OpenTimeout l) (cb_MaxOpenTimeout l) g"

text \<open>The satellite writes of \<^verbatim>\<open>transition\<close> after the word has moved to \<open>nxt\<close>.\<close>

definition cb_settle :: "u64 \<Rightarrow> int \<Rightarrow> cbState \<Rightarrow> cbState" where
  "cb_settle nxt e b =
     (let b1 = b\<lparr>cb_failures := 0, cb_successes := 0\<rparr>
      in if nxt = cbOpen then b1\<lparr>cb_generations := e\<rparr>
         else if nxt = cbClosed then b1\<lparr>cb_generations := 0, cb_openedUntil := 0\<rparr>
         else b1)"

definition cb_transition ::
  "CircuitBreakingLoadBalancer \<Rightarrow> nanos \<Rightarrow> u32 \<Rightarrow> u64 \<Rightarrow> u64 \<Rightarrow> Reason \<Rightarrow> cbState
     \<Rightarrow> bool \<times> cbState \<times> StateChange list"
where
  "cb_transition l now gen from nxt reason b =
     (let e = s32 (cb_generations b + 1); until = now + openTimeout l e
      in case cbUnpack (cb_word b) of (g, _, st) \<Rightarrow>
           if g \<noteq> gen \<or> st \<noteq> from then (False, b, [])
           else let b1 = (if nxt = cbOpen then b\<lparr>cb_openedUntil := until\<rparr> else b)
                in (True, cb_settle nxt e (b1\<lparr>cb_word := cbPack (gen + 1) 0 nxt\<rparr>),
                    cb_emit l b (cbExternal from) (cbExternal nxt) reason))"

definition releaseProbe :: "u32 \<Rightarrow> cbState \<Rightarrow> cbState" where
  "releaseProbe gen b =
     (case cbUnpack (cb_word b) of (g, probes, st) \<Rightarrow>
        if g \<noteq> gen \<or> st \<noteq> cbHalfOpen \<or> probes = 0 then b
        else b\<lparr>cb_word := cb_word b - cbProbeOne\<rparr>)"

text \<open>
  The loop of \<^verbatim>\<open>admit\<close>, with fuel: \<open>now\<close> is the time \<^verbatim>\<open>pick\<close> read and \<open>now'\<close> the one \<^verbatim>\<open>transition\<close>
  reads. The inner option is the result: the generation and admission, or a refusal.
\<close>

fun cb_admit :: "nat \<Rightarrow> CircuitBreakingLoadBalancer \<Rightarrow> nanos \<Rightarrow> nanos \<Rightarrow> cbState
    \<Rightarrow> ((u32 \<times> cbAdmission) option \<times> cbState \<times> StateChange list) option"
where
  "cb_admit 0 l now now' b = None"
| "cb_admit (Suc k) l now now' b =
     (case cbUnpack (cb_word b) of (gen, probes, st) \<Rightarrow>
        if st = cbClosed then Some (Some (0, cbAdmitClosed), b, [])
        else if st = cbOpen then
          (if cb_openedUntil b > now then Some (None, b, [])
           else map_option (\<lambda>(r, b', evs). (r, b', cb_emit l b StateOpen StateHalfOpen ReasonProbe @ evs))
             (cb_admit k l now now' (b\<lparr>cb_halfOpenSince := now, cb_word := cbPack (gen + 1) 0 cbHalfOpen\<rparr>)))
        else if probes \<ge> of_int (cb_HalfOpenMaxProbes l) then
          (if now - cb_halfOpenSince b > cb_ProbeTimeout l
           then case cb_transition l now' gen cbHalfOpen cbOpen ReasonExpire b of (_, b1, e1) \<Rightarrow>
                  map_option (\<lambda>(r, b', evs). (r, b', e1 @ evs)) (cb_admit k l now now' b1)
           else Some (None, b, []))
        else Some (Some (gen, cbAdmitProbe), b\<lparr>cb_word := cb_word b + cbProbeOne\<rparr>, []))"

definition cb_failed :: "CircuitBreakingLoadBalancer \<Rightarrow> rt_result \<Rightarrow> bool" where
  "cb_failed l r = failed_by (cb_IsFailure l) r"

definition cb_record ::
  "CircuitBreakingLoadBalancer \<Rightarrow> nanos \<Rightarrow> u32 \<Rightarrow> cbAdmission \<Rightarrow> bool \<Rightarrow> cbState \<Rightarrow> cbState \<times> StateChange list"
where
  "cb_record l now gen adm failed b =
     (case adm of
        cbAdmitProbe \<Rightarrow>
          if failed then snd (cb_transition l now gen cbHalfOpen cbOpen ReasonReopen b)
          else let b1 = b\<lparr>cb_successes := s32 (cb_successes b + 1)\<rparr>
               in if cb_successes b1 \<ge> cb_SuccessThreshold l
                  then snd (cb_transition l now gen cbHalfOpen cbClosed ReasonHeal b1)
                  else (releaseProbe gen b1, [])
      | cbAdmitClosed \<Rightarrow>
          if failed then
            let b1 = b\<lparr>cb_failures := s32 (cb_failures b + 1)\<rparr>
            in if cb_failures b1 \<ge> cb_FailureThreshold l
               then case cbUnpack (cb_word b1) of (g, _, st) \<Rightarrow>
                      if st = cbClosed then snd (cb_transition l now g cbClosed cbOpen ReasonTrip b1)
                      else (b1, [])
               else (b1, [])
          else (if cb_failures b \<noteq> 0 then b\<lparr>cb_failures := 0\<rparr> else b, []))"

text \<open>The scan of \<^verbatim>\<open>pick\<close>: the first index that is gated up and whose breaker admits.\<close>

fun cb_scan :: "CircuitBreakingLoadBalancer \<Rightarrow> nanos \<Rightarrow> nanos \<Rightarrow> nat list \<Rightarrow> cbState list
    \<Rightarrow> (nat \<times> u32 \<times> cbAdmission) option \<times> cbState list \<times> StateChange list"
where
  "cb_scan l now now' [] bs = (None, bs, [])"
| "cb_scan l now now' (idx # is) bs =
     (if \<not> cb_up l idx then cb_scan l now now' is bs
      else case cb_admit 3 l now now' (bs ! idx) of
             None \<Rightarrow> (None, bs, [])
           | Some (Some (gen, adm), b, evs) \<Rightarrow> (Some (idx, gen, adm), bs[idx := b], evs)
           | Some (None, b, evs) \<Rightarrow>
               (case cb_scan l now now' is (bs[idx := b]) of (r, bs', evs') \<Rightarrow> (r, bs', evs @ evs')))"

definition cb_pick ::
  "CircuitBreakingLoadBalancer \<Rightarrow> nanos \<Rightarrow> nanos
     \<Rightarrow> (nat \<times> u32 \<times> cbAdmission) option \<times> CircuitBreakingLoadBalancer \<times> StateChange list"
where
  "cb_pick l now now' =
     (let i' = cb_i l + 1; start = i' - 1; n = length (cb_breakers l)
      in case cb_scan l now now' (rr_order start n) (cb_breakers l) of
           (r, bs, evs) \<Rightarrow> (r, l\<lparr>cb_i := i', cb_breakers := bs\<rparr>, evs))"

text \<open>
  \<^verbatim>\<open>RoundTrip\<close> on an initialised balancer. A transport result of \<open>None\<close> is a panic: the deferred
  function frees the probe slot and the panic goes on.
\<close>

definition cb_RoundTrip ::
  "(Target \<Rightarrow> rt_result option) \<Rightarrow> nanos \<Rightarrow> nanos \<Rightarrow> nanos \<Rightarrow> CircuitBreakingLoadBalancer
     \<Rightarrow> string option \<times> rt_result option \<times> CircuitBreakingLoadBalancer \<times> StateChange list"
where
  "cb_RoundTrip transport now now' now'' l =
     (if cb_breakers l = [] then (None, Some (Inl ErrUnavailable), l, [])
      else case cb_pick l now now' of
             (None, l1, evs) \<Rightarrow> (None, Some (Inl ErrUnavailable), l1, evs)
           | (Some (i, gen, adm), l1, evs) \<Rightarrow>
               let b = cb_breakers l1 ! i
               in case transport (cb_target b) of
                    None \<Rightarrow>
                      (Some (tg_Host (cb_target b)), None,
                       (if adm = cbAdmitProbe
                        then l1\<lparr>cb_breakers := (cb_breakers l1)[i := releaseProbe gen b]\<rparr> else l1), evs)
                  | Some r \<Rightarrow>
                      (case cb_record l1 now'' gen adm (cb_failed l1 r) b of (b', evs') \<Rightarrow>
                         (Some (tg_Host (cb_target b)), Some r,
                          l1\<lparr>cb_breakers := (cb_breakers l1)[i := b']\<rparr>, evs @ evs')))"

section \<open>The loop of admit ends\<close>

definition cb_config :: "CircuitBreakingLoadBalancer \<Rightarrow> bool" where
  "cb_config l \<longleftrightarrow> 1 \<le> cb_HalfOpenMaxProbes l \<and> cb_HalfOpenMaxProbes l \<le> cbMaxProbes
     \<and> 0 < cb_FailureThreshold l \<and> 0 < cb_SuccessThreshold l \<and> 0 < cb_OpenTimeout l
     \<and> cb_OpenTimeout l \<le> cb_MaxOpenTimeout l \<and> cb_MaxOpenTimeout l \<le> 2 ^ 62 \<and> 0 < cb_ProbeTimeout l"

lemma cb_init_config:
  "cb_OpenTimeout l \<le> 2 ^ 62 \<Longrightarrow> cb_MaxOpenTimeout l \<le> 2 ^ 62 \<Longrightarrow> cb_config (cb_init l)"
  by (simp add: cb_config_def cb_init_def positive_or_def cbMaxProbes_def Let_def)

lemma cb_max_unat:
  assumes "cb_config l"
  shows "unat (of_int (cb_HalfOpenMaxProbes l) :: u32) = nat (cb_HalfOpenMaxProbes l)"
    and "nat (cb_HalfOpenMaxProbes l) < 2 ^ 22" and "0 < nat (cb_HalfOpenMaxProbes l)"
proof -
  let ?m = "nat (cb_HalfOpenMaxProbes l)"
  have m: "?m < 2 ^ 22" "0 < ?m" using assms by (auto simp: cb_config_def cbMaxProbes_def nat_less_iff)
  then show "?m < 2 ^ 22" "0 < ?m" by simp_all
  have "(of_int (cb_HalfOpenMaxProbes l) :: u32) = of_nat ?m" using assms by (simp add: cb_config_def)
  then show "unat (of_int (cb_HalfOpenMaxProbes l) :: u32) = ?m" using m(1) by (simp add: unat_of_nat)
qed

lemma cb_max_nonzero: "cb_config l \<Longrightarrow> \<not> (of_int (cb_HalfOpenMaxProbes l) :: u32) \<le> 0"
  using cb_max_unat [of l] by (auto simp: word_le_nat_alt)

lemma cb_fields_fresh:
  assumes "st = cbClosed \<or> st = cbOpen \<or> st = cbHalfOpen"
  shows "cb_gen (cbPack gen 0 st) = gen" and "cb_probes (cbPack gen 0 st) = 0" and "cb_st (cbPack gen 0 st) = st"
  using assms by (auto simp: cb_fields_pack cb_state_values)

lemma cb_admit_half:
  assumes "cb_config l" and "cb_word b = cbPack g 0 cbHalfOpen"
  shows "cb_admit (Suc k) l now now' b \<noteq> None"
  using cb_max_nonzero [OF assms(1)] assms(2) by (simp add: cbUnpack_fields cb_fields_fresh cb_state_values)

lemma cb_admit_open:
  assumes "cb_config l" and "cb_word b = cbPack g 0 cbOpen"
  shows "cb_admit (Suc (Suc k)) l now now' b \<noteq> None"
proof -
  let ?b = "b\<lparr>cb_halfOpenSince := now, cb_word := cbPack (g + 1) 0 cbHalfOpen\<rparr>"
  have "cb_admit (Suc k) l now now' ?b \<noteq> None" by (rule cb_admit_half [OF assms(1)]) simp
  then show ?thesis
    using assms(2) by (simp add: cb_admit.simps(2) [of "Suc k"] cbUnpack_fields cb_fields_fresh
        cb_state_values del: cb_admit.simps)
qed

text \<open>The only values the state field takes.\<close>

definition cb_valid :: "u64 \<Rightarrow> bool" where
  "cb_valid v \<longleftrightarrow> cb_st v = cbClosed \<or> cb_st v = cbOpen \<or> cb_st v = cbHalfOpen"

lemma cb_admit_total:
  assumes "cb_config l" and "cb_valid (cb_word b)"
  shows "cb_admit (Suc (Suc (Suc k))) l now now' b \<noteq> None"
proof -
  let ?go = "\<lambda>b. cb_admit (Suc (Suc k)) l now now' b \<noteq> None"
  have half: "?go (b\<lparr>cb_halfOpenSince := now, cb_word := cbPack (g + 1) 0 cbHalfOpen\<rparr>)" for g
    by (rule cb_admit_half [OF assms(1)]) simp
  have reopen: "?go (fst (snd (cb_transition l now' (cb_gen (cb_word b)) cbHalfOpen cbOpen ReasonExpire b)))"
    if "cb_st (cb_word b) = cbHalfOpen"
    by (rule cb_admit_open [OF assms(1), of _ "cb_gen (cb_word b) + 1"])
      (simp add: that cb_transition_def cbUnpack_fields cb_settle_def Let_def)
  show ?thesis
    using half reopen assms(2) unfolding cb_valid_def
    by (auto simp: cb_admit.simps(2) [of "Suc (Suc k)"] cbUnpack_fields cb_state_values
        simp del: cb_admit.simps split: prod.splits)
qed

section \<open>The balancer\<close>

text \<open>An index the breaker admits now.\<close>

definition cb_admits :: "CircuitBreakingLoadBalancer \<Rightarrow> nanos \<Rightarrow> nat \<Rightarrow> bool" where
  "cb_admits l now i \<longleftrightarrow>
     (case cb_admit 3 l now now (cb_breakers l ! i) of Some (Some _, _, _) \<Rightarrow> True | _ \<Rightarrow> False)"

definition cb_select :: "CircuitBreakingLoadBalancer \<Rightarrow> nanos \<Rightarrow> nat option \<times> CircuitBreakingLoadBalancer" where
  "cb_select l now = (case cb_pick l now now of (r, l', _) \<Rightarrow> (map_option fst r, l'))"

text \<open>Away from the wrap of the cursor, with valid words.\<close>

definition cb_exact :: "CircuitBreakingLoadBalancer \<Rightarrow> nanos \<Rightarrow> bool" where
  "cb_exact l now \<longleftrightarrow> unat (cb_i l) + length (cb_breakers l) \<le> 2 ^ 32 \<and> cb_config l
     \<and> (\<forall>b \<in> set (cb_breakers l). cb_valid (cb_word b))"

lemma cb_scan_range:
  "cb_scan l now now' is bs = (Some (i, g, adm), bs', evs) \<Longrightarrow> i \<in> set is \<and> cb_up l i"
  by (induction l now now' "is" bs arbitrary: bs' evs rule: cb_scan.induct)
    (auto split: if_splits option.splits prod.splits)

lemma cb_scan_first:
  assumes "distinct is" and "set is \<subseteq> {..<length bs}"
    and "\<And>i. i \<in> set is \<Longrightarrow> cb_admit 3 l now now' (bs ! i) \<noteq> None"
    and "j \<in> set is" and "cb_up l j" and "adm j" and "\<And>i. i \<in> set is \<Longrightarrow> adm i \<longleftrightarrow>
       (case cb_admit 3 l now now' (bs ! i) of Some (Some _, _, _) \<Rightarrow> True | _ \<Rightarrow> False)"
  shows "\<exists>i g a bs' evs. cb_scan l now now' is bs = (Some (i, g, a), bs', evs) \<and> i \<in> set is \<and> adm i \<and> cb_up l i"
  using assms
proof (induction "is" arbitrary: bs)
  case (Cons idx rest)
  show ?case
  proof (cases "cb_up l idx \<and> adm idx")
    case True
    with Cons.prems(7) [of idx] show ?thesis by (auto split: option.splits)
  next
    case False
    with Cons.prems have j: "j \<in> set rest" by auto
    show ?thesis
    proof (cases "cb_up l idx")
      case False
      have "\<exists>i g a bs' evs. cb_scan l now now' rest bs = (Some (i, g, a), bs', evs) \<and> i \<in> set rest \<and> adm i \<and> cb_up l i"
        using Cons.prems j by (intro Cons.IH) auto
      with False show ?thesis by auto
    next
      case True
      with \<open>\<not> (cb_up l idx \<and> adm idx)\<close> Cons.prems(3,7) [of idx] obtain b e where
        a: "cb_admit 3 l now now' (bs ! idx) = Some (None, b, e)"
        by (cases "cb_admit 3 l now now' (bs ! idx)") (auto split: option.splits prod.splits, metis not_None_eq surj_pair)
      have "\<exists>i g a bs' evs. cb_scan l now now' rest (bs[idx := b]) = (Some (i, g, a), bs', evs)
          \<and> i \<in> set rest \<and> adm i \<and> cb_up l i"
        using Cons.prems j by (intro Cons.IH) (auto simp: nth_list_update)
      with a True show ?thesis by auto
    qed
  qed
qed simp

lemma rr_order_distinct:
  assumes "n < 2 ^ 32" and "unat start + n \<le> 2 ^ 32"
  shows "distinct (rr_order start n)"
  using assms by (auto simp: rr_order_eq_64 set_rr_order64 intro!: card_distinct) (simp add: rr_order64_def)

lemma cb_select_sound:
  assumes "length (cb_breakers l) < 2 ^ 32" and "cb_exact l now"
    and "i < length (cb_breakers l)" and "cb_admits l now i" and "gate_up (cb_gate l) i"
  shows "\<exists>i l'. cb_select l now = (Some i, l') \<and> i < length (cb_breakers l) \<and> cb_admits l now i
    \<and> gate_up (cb_gate l) i"
proof -
  let ?n = "length (cb_breakers l)" and ?is = "rr_order (cb_i l) (length (cb_breakers l))"
  have w: "unat (cb_i l) + ?n \<le> 2 ^ 32" using assms(2) by (simp add: cb_exact_def)
  have set: "set ?is = {..<?n}" using set_rr_order [OF assms(1) w] by auto
  have "\<exists>i g a bs' evs. cb_scan l now now ?is (cb_breakers l) = (Some (i, g, a), bs', evs)
      \<and> i \<in> set ?is \<and> cb_admits l now i \<and> cb_up l i"
  proof (rule cb_scan_first [where j = i and adm = "cb_admits l now"])
    fix k assume "k \<in> set ?is"
    then have "cb_config l" and "cb_valid (cb_word (cb_breakers l ! k))"
      using assms(2) by (simp_all add: set cb_exact_def)
    from cb_admit_total [OF this, of 0] show "cb_admit 3 l now now (cb_breakers l ! k) \<noteq> None"
      by (simp add: eval_nat_numeral del: cb_admit.simps)
  qed (use assms set rr_order_distinct [OF assms(1) w] in \<open>simp_all add: cb_up_def cb_admits_def\<close>)
  then obtain k g a bs' evs where
    s: "cb_scan l now now ?is (cb_breakers l) = (Some (k, g, a), bs', evs)"
    and k: "k \<in> set ?is" "cb_admits l now k" "cb_up l k" by blast
  from s have "cb_select l now = (Some k, l\<lparr>cb_i := cb_i l + 1, cb_breakers := bs'\<rparr>)"
    by (simp add: cb_select_def cb_pick_def Let_def)
  with k set show ?thesis by (auto simp: cb_up_def)
qed

lemma cb_admit_gate: "cb_admit k (cb_setHealthGate g l) now now' b = cb_admit k l now now' b"
  by (induction k l now now' b rule: cb_admit.induct)
    (simp_all add: cb_setHealthGate_def cb_emit_def cb_transition_def openTimeout_def Let_def
      split: prod.splits)

interpretation cb: gated_balancer "\<lambda>l. length (cb_breakers l)" cb_gate cb_setHealthGate
  cb_admits cb_exact cb_select
proof
  fix l now i l'
  assume a: "cb_select l now = (Some i, l')" "length (cb_breakers l) < 2 ^ 32"
  then obtain g adm bs evs where
    "cb_scan l now now (rr_order (cb_i l) (length (cb_breakers l))) (cb_breakers l) = (Some (i, g, adm), bs, evs)"
    by (auto simp: cb_select_def cb_pick_def Let_def split: prod.splits)
  from cb_scan_range [OF this] set_rr_order_subset [OF a(2)] show "i < length (cb_breakers l)" by auto
next
  fix l now
  assume "length (cb_breakers l) < 2 ^ 32" "cb_exact l now"
    "\<exists>i < length (cb_breakers l). cb_admits l now i \<and> gate_up (cb_gate l) i"
  then show "\<exists>i l'. cb_select l now = (Some i, l') \<and> i < length (cb_breakers l) \<and> cb_admits l now i
      \<and> gate_up (cb_gate l) i"
    using cb_select_sound by blast
next
  fix g l now i
  show "cb_admits (cb_setHealthGate g l) now i = cb_admits l now i"
    unfolding cb_admits_def cb_admit_gate by (simp add: cb_setHealthGate_def)
qed (simp_all add: cb_setHealthGate_def cb_exact_def cb_config_def)

section \<open>Properties\<close>

text \<open>
  The packed word loses nothing: unpacking a packed generation, probe count and state gives
  them back, for every probe count up to the clamp and every state of the machine.
\<close>

theorem circuit_pack_roundtrip:
  assumes "unat probes \<le> nat cbMaxProbes" and "st = cbClosed \<or> st = cbOpen \<or> st = cbHalfOpen"
  shows "cbUnpack (cbPack gen probes st) = (gen, probes, st)"
proof -
  have "unat probes < 2 ^ 22" and "unat st < 4"
    using assms by (auto simp: cbMaxProbes_def cb_state_values)
  then show ?thesis by (simp add: cbUnpack_fields cb_fields_pack)
qed

theorem circuit_pack_roundtrip_witness: "cbUnpack (cbPack (- 1) 4194303 cbHalfOpen) = (- 1, 4194303, cbHalfOpen)"
  by (rule circuit_pack_roundtrip) (simp_all add: cbMaxProbes_def)

text \<open>
  A consecutive run of failures trips a closed breaker: one failure short of the threshold
  leaves it closed, the next one opens it for the backed-off cooldown, no request is admitted
  until the deadline, and at the deadline the next request is admitted as a probe.
\<close>

theorem circuit_trips:
  assumes cfg: "cb_config l" and st: "cb_st (cb_word b) = cbClosed"
    and f: "cb_failures b = cb_FailureThreshold l - 1" "cb_FailureThreshold l < 2 ^ 31"
    and g: "0 \<le> cb_generations b" "cb_generations b < 2 ^ 31 - 1"
  shows "\<exists>b'. cb_record l now gen cbAdmitClosed True b
           = (b', cb_emit l b StateClosed StateOpen ReasonTrip)
    \<and> cb_openedUntil b' = now + min (cb_MaxOpenTimeout l) (cb_OpenTimeout l * 2 ^ nat (cb_generations b))
    \<and> (\<forall>t < cb_openedUntil b'. cb_admit 3 l t t' b' = Some (None, b', []))
    \<and> (\<exists>b''. cb_admit 3 l (cb_openedUntil b') t' b'
           = Some (Some (cb_gen (cb_word b) + 2, cbAdmitProbe), b'', cb_emit l b StateOpen StateHalfOpen ReasonProbe))"
proof -
  define e where "e = cb_generations b + 1"
  define d where "d = openTimeout l e"
  define b1 where "b1 = b\<lparr>cb_openedUntil := now + d, cb_word := cbPack (cb_gen (cb_word b) + 1) 0 cbOpen,
     cb_failures := 0, cb_successes := 0, cb_generations := e\<rparr>"
  have d: "d = min (cb_MaxOpenTimeout l) (cb_OpenTimeout l * 2 ^ nat (cb_generations b))"
    using backoff_closed [of "cb_OpenTimeout l" "cb_MaxOpenTimeout l" e] cfg g
    by (simp add: d_def e_def openTimeout_def cb_config_def)
  have s: "s32 (cb_failures b + 1) = cb_FailureThreshold l" "s32 (cb_generations b + 1) = e"
    using f g cfg by (simp_all add: s32_small cb_config_def e_def)
  have r: "cb_record l now gen cbAdmitClosed True b = (b1, cb_emit l b StateClosed StateOpen ReasonTrip)"
    using st
    by (simp add: cb_record_def cb_transition_def cbUnpack_fields cb_settle_def cbExternal_def
        cb_state_values s b1_def d_def cb_emit_def cb_change_def Let_def)
  have closed: "cb_admit 3 l t t' b1 = Some (None, b1, [])" if "t < cb_openedUntil b1" for t
    using that by (simp add: eval_nat_numeral b1_def cbUnpack_fields cb_fields_fresh cb_state_values)
  have probe: "\<exists>b''. cb_admit 3 l (cb_openedUntil b1) t' b1
      = Some (Some (cb_gen (cb_word b) + 2, cbAdmitProbe), b'', cb_emit l b StateOpen StateHalfOpen ReasonProbe)"
    using cb_max_nonzero [OF cfg]
    by (simp add: eval_nat_numeral b1_def cbUnpack_fields cb_fields_fresh cb_state_values cb_emit_def
        cb_change_def)
  have "cb_openedUntil b1 = now + d" by (simp add: b1_def)
  with r d closed probe show ?thesis by auto
qed

definition cb_pool :: "Target list" where
  "cb_pool = [\<lparr>tg_Host = ''a'', tg_Weight = 0, tg_MaxConcurrent = 0\<rparr>,
     \<lparr>tg_Host = ''b'', tg_Weight = 0, tg_MaxConcurrent = 0\<rparr>, \<lparr>tg_Host = ''c'', tg_Weight = 0, tg_MaxConcurrent = 0\<rparr>]"

definition cb_example :: CircuitBreakingLoadBalancer where
  "cb_example = cb_init (NewCircuitBreakingLoadBalancer cb_pool)"

lemma cb_example_config: "cb_config cb_example"
  unfolding cb_example_def by (rule cb_init_config) (simp_all add: NewCircuitBreakingLoadBalancer_def)

lemma cb_st_zero: "cb_st 0 = cbClosed" "cb_gen 0 = 0" "cb_probes 0 = 0"
  by (simp_all add: cb_st_def cb_gen_def cb_probes_def cbUnpack_def cbClosed_def)

theorem circuit_trips_witness:
  "\<exists>b'. cb_record cb_example 100 0 cbAdmitClosed True ((fresh_breaker (hd cb_pool))\<lparr>cb_failures := 4\<rparr>) = (b', [])
    \<and> cb_openedUntil b' = 5000000100"
proof -
  let ?b = "(fresh_breaker (hd cb_pool))\<lparr>cb_failures := 4\<rparr>"
  have l: "cb_FailureThreshold cb_example = 5" "cb_OpenTimeout cb_example = 5000000000"
    "cb_MaxOpenTimeout cb_example = 60000000000" "\<not> cb_observed cb_example"
    by (simp_all add: cb_example_def cb_init_def NewCircuitBreakingLoadBalancer_def positive_or_def Let_def)
  have "cb_st (cb_word ?b) = cbClosed" and "cb_failures ?b = cb_FailureThreshold cb_example - 1"
    and "cb_FailureThreshold cb_example < 2 ^ 31" and "0 \<le> cb_generations ?b" and "cb_generations ?b < 2 ^ 31 - 1"
    by (simp_all add: l fresh_breaker_def cb_st_zero)
  from circuit_trips [OF cb_example_config this, of 100 0 0] show ?thesis
    by (auto simp: l cb_emit_def fresh_breaker_def)
qed

text \<open>
  A probe that overstayed is not inert when it succeeds late: its success counts towards the
  threshold of the present half-open generation, so with a threshold of two a single success of
  this generation closes the breaker.
\<close>

theorem circuit_stale_success_counts:
  assumes "cb_SuccessThreshold l = 2" and "cb_successes b = 0"
    and "cb_st (cb_word b) = cbHalfOpen" and "stale \<noteq> cb_gen (cb_word b)"
  shows "\<exists>b1 b2. cb_record l now stale cbAdmitProbe False b = (b1, [])
    \<and> cb_word b1 = cb_word b \<and> cb_successes b1 = 1
    \<and> cb_record l now' (cb_gen (cb_word b)) cbAdmitProbe False b1
        = (b2, cb_emit l b StateHalfOpen StateClosed ReasonHeal)
    \<and> cb_st (cb_word b2) = cbClosed"
  using assms
  by (simp add: cb_record_def releaseProbe_def cbUnpack_fields cb_transition_def cb_settle_def cb_emit_def
      cb_change_def cbExternal_def s32_def cb_state_values cb_fields_fresh Let_def)

theorem circuit_stale_success_counts_witness:
  "\<exists>b1 b2. cb_record cb_example 0 2 cbAdmitProbe False
       ((fresh_breaker (hd cb_pool))\<lparr>cb_word := cbPack 4 1 cbHalfOpen\<rparr>) = (b1, [])
    \<and> cb_record cb_example 0 4 cbAdmitProbe False b1 = (b2, []) \<and> cb_st (cb_word b2) = cbClosed"
proof -
  let ?b = "(fresh_breaker (hd cb_pool))\<lparr>cb_word := cbPack 4 1 cbHalfOpen\<rparr>"
  have f: "cb_gen (cb_word ?b) = 4" "cb_st (cb_word ?b) = cbHalfOpen"
    by (simp_all add: cb_fields_pack cb_state_values)
  have l: "cb_SuccessThreshold cb_example = 2" "\<not> cb_observed cb_example"
    by (simp_all add: cb_example_def cb_init_def NewCircuitBreakingLoadBalancer_def positive_or_def Let_def)
  have s: "cb_successes ?b = 0" by (simp add: fresh_breaker_def)
  from circuit_stale_success_counts [OF l(1) s f(2), of 2 0 0] f(1) show ?thesis
    by (auto simp: l cb_emit_def)
qed

text \<open>
  At the wrap of the cursor the breaker sheds load it could serve: with three closed breakers
  of which only the last is gated up, the scan visits 0, 0 and 1 and answers unavailable.
\<close>

theorem circuit_cursor_wrap_sheds:
  "cb_select (cb_example\<lparr>cb_i := - 1, cb_gate := Some [False, False, True]\<rparr>) now
     = (None, cb_example\<lparr>cb_i := 0, cb_gate := Some [False, False, True]\<rparr>)
   \<and> cb_admits (cb_example\<lparr>cb_i := - 1, cb_gate := Some [False, False, True]\<rparr>) now 2"
proof -
  have o: "rr_order (- 1) 3 = [0, 0, 1]"
    by (simp add: rr_order_def rr_idx_def upt_conv_Cons)
  have b: "cb_breakers cb_example = map fresh_breaker cb_pool" and n: "length cb_pool = 3"
    by (simp_all add: cb_example_def cb_init_def NewCircuitBreakingLoadBalancer_def cb_pool_def Let_def)
  have "cb_admits (cb_example\<lparr>cb_i := - 1, cb_gate := Some [False, False, True]\<rparr>) now 2"
    by (simp add: cb_admits_def b cb_pool_def fresh_breaker_def eval_nat_numeral cbUnpack_fields cb_st_zero)
  then show ?thesis
    by (simp add: cb_select_def cb_pick_def o b n cb_up_def gate_up_def Let_def)
qed

end
