(* ===== verification/Circuit_Interleaving.thy ===== *)
theory Circuit_Interleaving
  imports Circuit_Breaker
begin

text \<open>
  The breaker of \<^verbatim>\<open>Circuit_Breaker\<close> under contention: \<^verbatim>\<open>admit\<close>, \<^verbatim>\<open>record\<close>, \<^verbatim>\<open>transition\<close> and
  \<^verbatim>\<open>releaseProbe\<close> cut at their atomic operations, any number of requests interleaving over one
  breaker, and the bound on concurrent probes in every reachable state.
\<close>

section \<open>Program points\<close>

text \<open>
  A running \<^verbatim>\<open>transition\<close>: its arguments, and the picker's time when it runs inside \<^verbatim>\<open>admit\<close> (which
  then goes round its loop).
\<close>

record cb_call =
  cl_gen :: u32
  cl_from :: u64
  cl_next :: u64
  cl_reason :: Reason
  cl_admit :: "nanos option"

text \<open>
  \<open>Ad\<close>: admit, \<open>Rc\<close>: record, \<open>Tr\<close>: transition, \<open>Rl\<close>: releaseProbe, \<open>Flight\<close>: the round trip. A word in
  a program point is the value the loop loaded; \<open>e\<close> and the deadline are the locals of \<^verbatim>\<open>transition\<close>.
\<close>

datatype cb_pc =
    AdLoad nanos | AdOpen nanos u64 | AdStamp nanos u64 | AdFlip nanos u64 | AdFull nanos u32
  | AdClaim nanos u64
  | Flight cbAdmission u32
  | RcSucc u32 | RcFail | RcTrip | RcOk | RcClear
  | TrStart cb_call | TrLoad cb_call int nanos | TrPublish cb_call int nanos u64
  | TrCas cb_call int nanos u64 | TrFails cb_call int | TrSuccs cb_call int | TrGens cb_call int
  | TrUntil cb_call
  | RlLoad u32 | RlCas u32 u64

text \<open>Where control goes when \<^verbatim>\<open>transition\<close> returns.\<close>

definition tr_return :: "cb_call \<Rightarrow> cb_pc option" where
  "tr_return c = map_option AdLoad (cl_admit c)"

text \<open>One atomic operation of one thread, with the transition it commits, if any.\<close>

fun cb_micro :: "CircuitBreakingLoadBalancer \<Rightarrow> nanos \<Rightarrow> cbState \<Rightarrow> cb_pc
    \<Rightarrow> cbState \<times> cb_pc option \<times> StateChange list"
where
  "cb_micro l now b (AdLoad at) =
     (let v = cb_word b
      in (b, if cb_st v = cbClosed then Some (Flight cbAdmitClosed 0)
             else if cb_st v = cbOpen then Some (AdOpen at v)
             else if cb_probes v \<ge> of_int (cb_HalfOpenMaxProbes l) then Some (AdFull at (cb_gen v))
             else Some (AdClaim at v), []))"
| "cb_micro l now b (AdOpen at v) = (b, if cb_openedUntil b > at then None else Some (AdStamp at v), [])"
| "cb_micro l now b (AdStamp at v) = (b\<lparr>cb_halfOpenSince := at\<rparr>, Some (AdFlip at v), [])"
| "cb_micro l now b (AdFlip at v) =
     (if cb_word b = v
      then (b\<lparr>cb_word := cbPack (cb_gen v + 1) 0 cbHalfOpen\<rparr>, Some (AdLoad at),
            [cb_change b StateOpen StateHalfOpen ReasonProbe])
      else (b, Some (AdLoad at), []))"
| "cb_micro l now b (AdFull at gen) =
     (b, if at - cb_halfOpenSince b > cb_ProbeTimeout l
         then Some (TrStart \<lparr>cl_gen = gen, cl_from = cbHalfOpen, cl_next = cbOpen,
                             cl_reason = ReasonExpire, cl_admit = Some at\<rparr>)
         else None, [])"
| "cb_micro l now b (AdClaim at v) =
     (if cb_word b = v then (b\<lparr>cb_word := v + cbProbeOne\<rparr>, Some (Flight cbAdmitProbe (cb_gen v)), [])
      else (b, Some (AdLoad at), []))"
| "cb_micro l now b (Flight adm gen) = (b, Some (Flight adm gen), [])"
| "cb_micro l now b (RcSucc gen) =
     (let b1 = b\<lparr>cb_successes := s32 (cb_successes b + 1)\<rparr>
      in (b1, if cb_successes b1 \<ge> cb_SuccessThreshold l
              then Some (TrStart \<lparr>cl_gen = gen, cl_from = cbHalfOpen, cl_next = cbClosed,
                                  cl_reason = ReasonHeal, cl_admit = None\<rparr>)
              else Some (RlLoad gen), []))"
| "cb_micro l now b RcFail =
     (let b1 = b\<lparr>cb_failures := s32 (cb_failures b + 1)\<rparr>
      in (b1, if cb_failures b1 \<ge> cb_FailureThreshold l then Some RcTrip else None, []))"
| "cb_micro l now b RcTrip =
     (let v = cb_word b
      in (b, if cb_st v = cbClosed
             then Some (TrStart \<lparr>cl_gen = cb_gen v, cl_from = cbClosed, cl_next = cbOpen,
                                 cl_reason = ReasonTrip, cl_admit = None\<rparr>)
             else None, []))"
| "cb_micro l now b RcOk = (b, if cb_failures b \<noteq> 0 then Some RcClear else None, [])"
| "cb_micro l now b RcClear = (b\<lparr>cb_failures := 0\<rparr>, None, [])"
| "cb_micro l now b (TrStart c) =
     (if cl_next c = cbOpen
      then let e = s32 (cb_generations b + 1) in (b, Some (TrLoad c e (now + openTimeout l e)), [])
      else (b, Some (TrLoad c 0 0), []))"
| "cb_micro l now b (TrLoad c e until) =
     (let v = cb_word b
      in (b, if cb_gen v \<noteq> cl_gen c \<or> cb_st v \<noteq> cl_from c then tr_return c
             else Some (TrPublish c e until v), []))"
| "cb_micro l now b (TrPublish c e until v) =
     (if cl_next c = cbOpen then b\<lparr>cb_openedUntil := until\<rparr> else b, Some (TrCas c e until v), [])"
| "cb_micro l now b (TrCas c e until v) =
     (if cb_word b = v
      then (b\<lparr>cb_word := cbPack (cl_gen c + 1) 0 (cl_next c)\<rparr>, Some (TrFails c e),
            [cb_change b (cbExternal (cl_from c)) (cbExternal (cl_next c)) (cl_reason c)])
      else (b, Some (TrLoad c e until), []))"
| "cb_micro l now b (TrFails c e) = (b\<lparr>cb_failures := 0\<rparr>, Some (TrSuccs c e), [])"
| "cb_micro l now b (TrSuccs c e) = (b\<lparr>cb_successes := 0\<rparr>, Some (TrGens c e), [])"
| "cb_micro l now b (TrGens c e) =
     (if cl_next c = cbOpen then (b\<lparr>cb_generations := e\<rparr>, tr_return c, [])
      else if cl_next c = cbClosed then (b\<lparr>cb_generations := 0\<rparr>, Some (TrUntil c), [])
      else (b, tr_return c, []))"
| "cb_micro l now b (TrUntil c) = (b\<lparr>cb_openedUntil := 0\<rparr>, tr_return c, [])"
| "cb_micro l now b (RlLoad gen) =
     (let v = cb_word b
      in (b, if cb_gen v \<noteq> gen \<or> cb_st v \<noteq> cbHalfOpen \<or> cb_probes v = 0 then None
             else Some (RlCas gen v), []))"
| "cb_micro l now b (RlCas gen v) =
     (if cb_word b = v then (b\<lparr>cb_word := v - cbProbeOne\<rparr>, None, [])
      else (b, Some (RlLoad gen), []))"

text \<open>
  What the round trip does when it ends: \<open>Some failed\<close> is a result, \<open>None\<close> a panic, which frees the
  slot of a probe and records nothing.
\<close>

definition cb_landed :: "cbAdmission \<Rightarrow> u32 \<Rightarrow> bool option \<Rightarrow> cb_pc option" where
  "cb_landed adm gen outcome =
     (case (adm, outcome) of
        (cbAdmitProbe, Some True) \<Rightarrow>
          Some (TrStart \<lparr>cl_gen = gen, cl_from = cbHalfOpen, cl_next = cbOpen,
                         cl_reason = ReasonReopen, cl_admit = None\<rparr>)
      | (cbAdmitProbe, Some False) \<Rightarrow> Some (RcSucc gen)
      | (cbAdmitProbe, None) \<Rightarrow> Some (RlLoad gen)
      | (cbAdmitClosed, Some True) \<Rightarrow> Some RcFail
      | (cbAdmitClosed, Some False) \<Rightarrow> Some RcOk
      | (cbAdmitClosed, None) \<Rightarrow> None)"

section \<open>Interleavings\<close>

definition opt_thread :: "cb_pc option \<Rightarrow> cb_pc multiset" where
  "opt_thread x = (case x of None \<Rightarrow> {#} | Some pc \<Rightarrow> {#pc#})"

type_synonym cb_sys = "cbState \<times> cb_pc multiset \<times> nanos \<times> StateChange list"

inductive cb_step :: "CircuitBreakingLoadBalancer \<Rightarrow> cb_sys \<Rightarrow> cb_sys \<Rightarrow> bool" for l where
  arrive: "cb_step l (b, T, now, log) (b, add_mset (AdLoad now) T, now, log)"
| land: "cb_step l (b, add_mset (Flight adm gen) T, now, log)
     (b, T + opt_thread (cb_landed adm gen outcome), now, log)"
| micro: "cb_micro l now b pc = (b', pc', evs) \<Longrightarrow>
     cb_step l (b, add_mset pc T, now, log) (b', T + opt_thread pc', now, evs @ log)"
| tick: "now \<le> now' \<Longrightarrow> cb_step l (b, T, now, log) (b, T, now', log)"

inductive cb_reachable :: "CircuitBreakingLoadBalancer \<Rightarrow> cb_sys \<Rightarrow> bool" for l where
  start: "cb_reachable l (fresh_breaker t, {#}, now, [])"
| step: "cb_reachable l s \<Longrightarrow> cb_step l s s' \<Longrightarrow> cb_reachable l s'"

section \<open>What one step does to the word\<close>

text \<open>A thread that owns a probe slot of generation \<open>g\<close>.\<close>

definition owns :: "u32 \<Rightarrow> cb_call \<Rightarrow> bool" where
  "owns g c \<longleftrightarrow> cl_admit c = None \<and> cl_from c = cbHalfOpen \<and> cl_gen c = g"

fun holds :: "u32 \<Rightarrow> cb_pc \<Rightarrow> bool" where
  "holds g (Flight cbAdmitProbe gen) \<longleftrightarrow> gen = g"
| "holds g (RcSucc gen) \<longleftrightarrow> gen = g"
| "holds g (RlLoad gen) \<longleftrightarrow> gen = g"
| "holds g (RlCas gen v) \<longleftrightarrow> gen = g"
| "holds g (TrStart c) \<longleftrightarrow> owns g c"
| "holds g (TrLoad c e u) \<longleftrightarrow> owns g c"
| "holds g (TrPublish c e u v) \<longleftrightarrow> owns g c"
| "holds g (TrCas c e u v) \<longleftrightarrow> owns g c"
| "holds g _ \<longleftrightarrow> False"

definition opt_holds :: "u32 \<Rightarrow> cb_pc option \<Rightarrow> bool" where
  "opt_holds g x = (case x of None \<Rightarrow> False | Some pc \<Rightarrow> holds g pc)"

text \<open>The edges of the state machine and the transitions that may run.\<close>

definition cb_edge :: "State \<Rightarrow> State \<Rightarrow> Reason \<Rightarrow> bool" where
  "cb_edge from to reason \<longleftrightarrow> (from, to, reason) \<in>
     {(StateClosed, StateOpen, ReasonTrip), (StateOpen, StateHalfOpen, ReasonProbe),
      (StateHalfOpen, StateOpen, ReasonReopen), (StateHalfOpen, StateOpen, ReasonExpire),
      (StateHalfOpen, StateClosed, ReasonHeal)}"

definition call_ok :: "cb_call \<Rightarrow> bool" where
  "call_ok c \<longleftrightarrow> (cl_next c = cbOpen \<or> cl_next c = cbClosed)
     \<and> cb_edge (cbExternal (cl_from c)) (cbExternal (cl_next c)) (cl_reason c)
     \<and> (cl_from c = cbClosed \<or> cl_from c = cbHalfOpen)"

fun cb_pc_ok :: "CircuitBreakingLoadBalancer \<Rightarrow> cb_pc \<Rightarrow> bool" where
  "cb_pc_ok l (AdOpen at v) \<longleftrightarrow> cb_st v = cbOpen"
| "cb_pc_ok l (AdStamp at v) \<longleftrightarrow> cb_st v = cbOpen"
| "cb_pc_ok l (AdFlip at v) \<longleftrightarrow> cb_st v = cbOpen"
| "cb_pc_ok l (AdClaim at v) \<longleftrightarrow> cb_st v = cbHalfOpen \<and> cb_probes v < of_int (cb_HalfOpenMaxProbes l)"
| "cb_pc_ok l (TrStart c) \<longleftrightarrow> call_ok c"
| "cb_pc_ok l (TrLoad c e u) \<longleftrightarrow> call_ok c"
| "cb_pc_ok l (TrPublish c e u v) \<longleftrightarrow> call_ok c \<and> cb_gen v = cl_gen c \<and> cb_st v = cl_from c"
| "cb_pc_ok l (TrCas c e u v) \<longleftrightarrow> call_ok c \<and> cb_gen v = cl_gen c \<and> cb_st v = cl_from c"
| "cb_pc_ok l (RlCas gen v) \<longleftrightarrow> cb_gen v = gen \<and> cb_st v = cbHalfOpen \<and> cb_probes v \<noteq> 0"
| "cb_pc_ok l _ \<longleftrightarrow> True"

text \<open>
  The four ways a step may touch the word: not at all (its slot kept, or given up only when the
  word has moved on), a claim, a release, and a transition to the next generation.
\<close>

definition eff_keep :: "cbState \<Rightarrow> cb_pc \<Rightarrow> cbState \<Rightarrow> cb_pc option \<Rightarrow> StateChange list \<Rightarrow> bool" where
  "eff_keep b pc b' pc' evs \<longleftrightarrow> cb_word b' = cb_word b \<and> evs = []
     \<and> (\<forall>g. opt_holds g pc' \<longrightarrow> holds g pc)
     \<and> (\<forall>g. holds g pc \<longrightarrow> opt_holds g pc' \<or> g \<noteq> cb_gen (cb_word b)
           \<or> cb_st (cb_word b) \<noteq> cbHalfOpen \<or> cb_probes (cb_word b) = 0)"

definition eff_claim ::
  "CircuitBreakingLoadBalancer \<Rightarrow> cbState \<Rightarrow> cb_pc \<Rightarrow> cbState \<Rightarrow> cb_pc option \<Rightarrow> StateChange list \<Rightarrow> bool"
where
  "eff_claim l b pc b' pc' evs \<longleftrightarrow> cb_word b' = cb_word b + cbProbeOne \<and> evs = []
     \<and> cb_st (cb_word b) = cbHalfOpen \<and> cb_probes (cb_word b) < of_int (cb_HalfOpenMaxProbes l)
     \<and> (\<forall>g. \<not> holds g pc) \<and> (\<forall>g. opt_holds g pc' \<longleftrightarrow> g = cb_gen (cb_word b))"

definition eff_release :: "cbState \<Rightarrow> cb_pc \<Rightarrow> cbState \<Rightarrow> cb_pc option \<Rightarrow> StateChange list \<Rightarrow> bool" where
  "eff_release b pc b' pc' evs \<longleftrightarrow> cb_word b' = cb_word b - cbProbeOne \<and> evs = []
     \<and> cb_st (cb_word b) = cbHalfOpen \<and> cb_probes (cb_word b) \<noteq> 0
     \<and> (\<forall>g. holds g pc \<longleftrightarrow> g = cb_gen (cb_word b)) \<and> (\<forall>g. \<not> opt_holds g pc')"

definition eff_move :: "cbState \<Rightarrow> cbState \<Rightarrow> cb_pc option \<Rightarrow> StateChange list \<Rightarrow> bool" where
  "eff_move b b' pc' evs \<longleftrightarrow> (\<exists>nxt reason. cb_word b' = cbPack (cb_gen (cb_word b) + 1) 0 nxt
     \<and> (nxt = cbClosed \<or> nxt = cbOpen \<or> nxt = cbHalfOpen)
     \<and> evs = [cb_change b (cbExternal (cb_st (cb_word b))) (cbExternal nxt) reason]
     \<and> cb_edge (cbExternal (cb_st (cb_word b))) (cbExternal nxt) reason \<and> (\<forall>g. \<not> opt_holds g pc'))"

lemmas eff_defs = eff_keep_def eff_claim_def eff_release_def eff_move_def

lemma opt_holds_simps [simp]:
  "opt_holds g None = False" "opt_holds g (Some pc) = holds g pc" "\<not> opt_holds g (tr_return c)"
  by (auto simp: opt_holds_def tr_return_def split: option.splits)

lemma cb_micro_effect:
  assumes "cb_micro l now b pc = (b', pc', evs)" and "cb_pc_ok l pc"
  shows "eff_keep b pc b' pc' evs \<or> eff_claim l b pc b' pc' evs \<or> eff_release b pc b' pc' evs
    \<or> eff_move b b' pc' evs"
proof (cases pc)
  case (AdFlip at v)
  with assms show ?thesis
    by (auto simp: eff_keep_def eff_move_def cbExternal_def cb_edge_def cb_state_values split: if_splits)
next
  case (AdClaim at v)
  with assms show ?thesis by (auto simp: eff_keep_def eff_claim_def split: if_splits)
next
  case (RlCas gen v)
  with assms show ?thesis by (auto simp: eff_keep_def eff_release_def split: if_splits)
next
  case (TrCas c e u v)
  show ?thesis
  proof (cases "cb_word b = v")
    case True
    with assms TrCas have "eff_move b b' pc' evs"
      unfolding eff_move_def
      by (intro exI [of _ "cl_next c"] exI [of _ "cl_reason c"]) (auto simp: call_ok_def)
    then show ?thesis by blast
  next
    case False
    with assms TrCas show ?thesis by (auto simp: eff_keep_def)
  qed
next
  case (Flight adm gen)
  with assms show ?thesis by (auto simp: eff_keep_def)
qed (use assms in \<open>auto simp: eff_keep_def owns_def Let_def cb_state_values split: if_splits\<close>)

lemma cb_micro_pc_ok:
  assumes "cb_micro l now b pc = (b', Some pc', evs)" and "cb_pc_ok l pc" and "cb_valid (cb_word b)"
  shows "cb_pc_ok l pc'"
  using assms
  by (cases pc) (auto simp: Let_def cb_valid_def call_ok_def cb_edge_def cbExternal_def cb_state_values
      tr_return_def split: if_splits)

section \<open>The invariant\<close>

fun cb_log_state :: "StateChange list \<Rightarrow> State" where
  "cb_log_state [] = StateClosed"
| "cb_log_state (c # log) = sc_To c"

text \<open>Every event is an edge of the machine and leaves the state the event before it entered.\<close>

fun cb_log_ok :: "StateChange list \<Rightarrow> bool" where
  "cb_log_ok [] \<longleftrightarrow> True"
| "cb_log_ok (c # log) \<longleftrightarrow>
     sc_From c = cb_log_state log \<and> cb_edge (sc_From c) (sc_To c) (sc_Reason c) \<and> cb_log_ok log"

definition holders :: "u32 \<Rightarrow> cb_pc multiset \<Rightarrow> nat" where
  "holders g T = size (filter_mset (holds g) T)"

definition cb_counts :: "cbState \<Rightarrow> cb_pc multiset \<Rightarrow> nat \<Rightarrow> bool" where
  "cb_counts b T n \<longleftrightarrow> unat (cb_gen (cb_word b)) = n
     \<and> (\<forall>g. 0 < holders g T \<longrightarrow> unat g \<le> n)
     \<and> (cb_st (cb_word b) = cbHalfOpen \<longrightarrow> unat (cb_probes (cb_word b)) = holders (cb_gen (cb_word b)) T)"

definition cb_sys_inv :: "CircuitBreakingLoadBalancer \<Rightarrow> cb_sys \<Rightarrow> bool" where
  "cb_sys_inv l s = (case s of (b, T, now, log) \<Rightarrow>
     cb_valid (cb_word b) \<and> (\<forall>pc \<in># T. cb_pc_ok l pc)
     \<and> cb_log_ok log \<and> cb_log_state log = cbExternal (cb_st (cb_word b))
     \<and> unat (cb_probes (cb_word b)) \<le> nat (cb_HalfOpenMaxProbes l)
     \<and> (length log < 2 ^ 32 \<longrightarrow> cb_counts b T (length log)))"

lemma holders_simps [simp]:
  "holders g {#} = 0"
  "holders g (add_mset pc T) = (if holds g pc then 1 else 0) + holders g T"
  "holders g (T + opt_thread x) = (if opt_holds g x then 1 else 0) + holders g T"
  by (auto simp: holders_def opt_thread_def split: option.splits)

lemma cb_valid_word:
  assumes "cb_config l" and "cb_valid (cb_word b)"
    and "eff_keep b pc b' pc' evs \<or> eff_claim l b pc b' pc' evs \<or> eff_release b pc b' pc' evs \<or> eff_move b b' pc' evs"
    and "unat (cb_probes (cb_word b)) \<le> nat (cb_HalfOpenMaxProbes l)"
  shows "cb_valid (cb_word b')" and "unat (cb_probes (cb_word b')) \<le> nat (cb_HalfOpenMaxProbes l)"
proof -
  note m = cb_max_unat [OF assms(1)]
  consider (keep) "eff_keep b pc b' pc' evs" | (claim) "eff_claim l b pc b' pc' evs"
    | (release) "eff_release b pc b' pc' evs" | (move) "eff_move b b' pc' evs"
    using assms(3) by blast
  then have "cb_valid (cb_word b') \<and> unat (cb_probes (cb_word b')) \<le> nat (cb_HalfOpenMaxProbes l)"
  proof cases
    case claim
    then have p: "unat (cb_probes (cb_word b)) < nat (cb_HalfOpenMaxProbes l)"
      using m(1) by (simp add: eff_claim_def word_less_nat_alt)
    then have "unat (cb_probes (cb_word b)) < 2 ^ 22 - 1" using m(2) by simp
    note f = cb_fields_claim [OF this]
    from claim p f show ?thesis by (simp add: eff_claim_def cb_valid_def)
  next
    case release
    then have "cb_probes (cb_word b) \<noteq> 0" by (simp add: eff_release_def)
    note f = cb_fields_release [OF this]
    have "unat (cb_probes (cb_word b')) \<le> unat (cb_probes (cb_word b))"
      using f(2) release by (simp add: eff_release_def)
    with release f(3) assms(4) show ?thesis by (simp add: eff_release_def cb_valid_def)
  next
    case move
    then show ?thesis by (auto simp: eff_move_def cb_valid_def cb_fields_fresh)
  qed (use assms in \<open>simp add: eff_keep_def\<close>)
  then show "cb_valid (cb_word b')" and "unat (cb_probes (cb_word b')) \<le> nat (cb_HalfOpenMaxProbes l)" by simp_all
qed

lemma unat_suc: "Suc (unat (g :: u32)) < 2 ^ 32 \<Longrightarrow> unat (g + 1) = Suc (unat g)"
  by (simp add: unat_word_ariths)

text \<open>The slot count stays exact while fewer than \<open>2 ^ 32\<close> transitions have happened.\<close>

lemma cb_counts_step:
  assumes cfg: "cb_config l" and inv: "cb_counts b (add_mset pc T) n"
    and eff: "eff_keep b pc b' pc' evs \<or> eff_claim l b pc b' pc' evs \<or> eff_release b pc b' pc' evs \<or> eff_move b b' pc' evs"
    and n: "n + length evs < 2 ^ 32"
  shows "cb_counts b' (T + opt_thread pc') (n + length evs)"
proof -
  note m = cb_max_unat [OF cfg]
  let ?w = "cb_word b" and ?w' = "cb_word b'"
  have gen: "unat (cb_gen ?w) = n" using inv by (simp add: cb_counts_def)
  have le: "unat g \<le> n" if "0 < holders g T \<or> holds g pc" for g
  proof -
    have "0 < holders g (add_mset pc T)" using that by auto
    with inv show ?thesis unfolding cb_counts_def by blast
  qed
  have cnt: "unat (cb_probes ?w) = (if holds (cb_gen ?w) pc then 1 else 0) + holders (cb_gen ?w) T"
    if "cb_st ?w = cbHalfOpen" using inv that by (simp add: cb_counts_def)
  consider (keep) "eff_keep b pc b' pc' evs" | (claim) "eff_claim l b pc b' pc' evs"
    | (release) "eff_release b pc b' pc' evs" | (move) "eff_move b b' pc' evs"
    using eff by blast
  then show ?thesis
  proof cases
    case keep
    then have k: "?w' = ?w" "evs = []" "\<And>g. opt_holds g pc' \<Longrightarrow> holds g pc"
      and d: "\<And>g. holds g pc \<Longrightarrow> opt_holds g pc' \<or> g \<noteq> cb_gen ?w \<or> cb_st ?w \<noteq> cbHalfOpen \<or> cb_probes ?w = 0"
      by (auto simp: eff_keep_def)
    have "opt_holds (cb_gen ?w) pc' = holds (cb_gen ?w) pc" if "cb_st ?w = cbHalfOpen"
      using k(3) [of "cb_gen ?w"] d [of "cb_gen ?w"] cnt [OF that] that by auto
    with gen le cnt k show ?thesis by (auto simp: cb_counts_def)
  next
    case claim
    then have p: "unat (cb_probes ?w) < 2 ^ 22 - 1"
      using m by (simp add: eff_claim_def word_less_nat_alt)
    have c: "?w' = ?w + cbProbeOne" "evs = []" "cb_st ?w = cbHalfOpen" "\<not> holds (cb_gen ?w) pc"
      "\<And>g. opt_holds g pc' \<longleftrightarrow> g = cb_gen ?w"
      using claim by (auto simp: eff_claim_def)
    from cb_fields_claim [OF p] gen le cnt c show ?thesis by (auto simp: cb_counts_def)
  next
    case release
    have c: "?w' = ?w - cbProbeOne" "evs = []" "cb_st ?w = cbHalfOpen" "holds (cb_gen ?w) pc"
      "\<And>g. \<not> opt_holds g pc'" "cb_probes ?w \<noteq> 0"
      using release by (auto simp: eff_release_def)
    from cb_fields_release [OF c(6)] gen le cnt c(1-5) show ?thesis by (auto simp: cb_counts_def)
  next
    case move
    then obtain nxt where c: "?w' = cbPack (cb_gen ?w + 1) 0 nxt"
      "nxt = cbClosed \<or> nxt = cbOpen \<or> nxt = cbHalfOpen" "length evs = 1" "\<And>g. \<not> opt_holds g pc'"
      by (auto simp: eff_move_def)
    have g': "unat (cb_gen ?w + 1) = Suc n" using unat_suc [of "cb_gen ?w"] n gen c(3) by simp
    have "holders (cb_gen ?w + 1) T = 0" using le [of "cb_gen ?w + 1"] g' by (cases "holders (cb_gen ?w + 1) T") auto
    with c g' le cb_fields_fresh [OF c(2), of "cb_gen ?w + 1"] show ?thesis
      by (auto simp: cb_counts_def intro: le_SucI)
  qed
qed

lemma cb_landed_holds:
  "opt_holds g (cb_landed adm gen outcome) \<longleftrightarrow> holds g (Flight adm gen)"
  by (cases adm; cases outcome) (auto simp: cb_landed_def owns_def split: bool.splits)

lemma cb_landed_ok: "cb_landed adm gen outcome = Some pc \<Longrightarrow> cb_pc_ok l pc"
  by (cases adm; cases outcome)
    (auto simp: cb_landed_def call_ok_def cb_edge_def cbExternal_def cb_state_values split: bool.splits)

lemma opt_thread_ok:
  assumes "\<And>pc. x = Some pc \<Longrightarrow> P pc" and "\<forall>pc \<in># T. P pc"
  shows "\<forall>pc \<in># T + opt_thread x. P pc"
  using assms by (cases x) (auto simp: opt_thread_def)

lemma cb_log_step:
  assumes "eff_keep b pc b' pc' evs \<or> eff_claim l b pc b' pc' evs \<or> eff_release b pc b' pc' evs \<or> eff_move b b' pc' evs"
    and "cb_config l" and "cb_log_ok log" and "cb_log_state log = cbExternal (cb_st (cb_word b))"
  shows "cb_log_ok (evs @ log) \<and> cb_log_state (evs @ log) = cbExternal (cb_st (cb_word b'))"
proof -
  note m = cb_max_unat [OF assms(2)]
  consider (keep) "eff_keep b pc b' pc' evs" | (claim) "eff_claim l b pc b' pc' evs"
    | (release) "eff_release b pc b' pc' evs" | (move) "eff_move b b' pc' evs"
    using assms(1) by blast
  then show ?thesis
  proof cases
    case claim
    then have "unat (cb_probes (cb_word b)) < 2 ^ 22 - 1"
      using m by (simp add: eff_claim_def word_less_nat_alt)
    from cb_fields_claim(3) [OF this] claim assms(3,4) show ?thesis by (simp add: eff_claim_def)
  next
    case move
    with assms(3,4) show ?thesis by (auto simp: eff_move_def cb_change_def cb_fields_fresh)
  qed (use assms(3,4) cb_fields_release(3) [of "cb_word b"] in \<open>auto simp: eff_keep_def eff_release_def\<close>)
qed

lemma cb_step_inv:
  assumes "cb_config l" and "cb_step l s s'" and "cb_sys_inv l s"
  shows "cb_sys_inv l s'"
  using assms(2)
proof cases
  case (land b adm gen T now log outcome)
  have "cb_counts b (T + opt_thread (cb_landed adm gen outcome)) n = cb_counts b (add_mset (Flight adm gen) T) n" for n
    by (simp add: cb_counts_def cb_landed_holds)
  with land assms(3) opt_thread_ok [of "cb_landed adm gen outcome" "cb_pc_ok l" T] cb_landed_ok show ?thesis
    by (auto simp: cb_sys_inv_def)
next
  case (micro now b pc b' pc' evs T log)
  from assms(3) micro(1) have i: "cb_valid (cb_word b)" "cb_pc_ok l pc" "\<forall>x \<in># T. cb_pc_ok l x" "cb_log_ok log"
    "cb_log_state log = cbExternal (cb_st (cb_word b))"
    "unat (cb_probes (cb_word b)) \<le> nat (cb_HalfOpenMaxProbes l)"
    and c: "length log < 2 ^ 32 \<Longrightarrow> cb_counts b (add_mset pc T) (length log)"
    by (simp_all add: cb_sys_inv_def)
  note eff = cb_micro_effect [OF micro(3) i(2)]
  have ok: "\<forall>x \<in># T + opt_thread pc'. cb_pc_ok l x"
    using cb_micro_pc_ok [OF _ i(2,1)] micro(3) i(3) by (intro opt_thread_ok) auto
  have cnt: "cb_counts b' (T + opt_thread pc') (length (evs @ log))" if "length (evs @ log) < 2 ^ 32"
    using cb_counts_step [OF assms(1) c eff] that by (simp add: add.commute)
  from ok cnt cb_valid_word [OF assms(1) i(1) eff i(6)] cb_log_step [OF eff assms(1) i(4,5)] micro(2)
  show ?thesis by (simp add: cb_sys_inv_def)
next
  case (arrive b T now log)
  have "cb_counts b (add_mset (AdLoad now) T) n = cb_counts b T n" for n by (simp add: cb_counts_def)
  with arrive assms(3) show ?thesis by (simp add: cb_sys_inv_def)
qed (use assms(3) in \<open>simp add: cb_sys_inv_def\<close>)

lemma cb_reachable_inv:
  assumes "cb_reachable l s" and "cb_config l"
  shows "cb_sys_inv l s"
  using assms
proof (induction rule: cb_reachable.induct)
  case (start t now)
  then show ?case
    by (simp add: cb_sys_inv_def fresh_breaker_def cb_st_zero cb_valid_def cbExternal_def cb_counts_def cb_state_values)
next
  case (step s s')
  then show ?case by (blast intro: cb_step_inv)
qed

section \<open>One thread alone\<close>

text \<open>
  A thread that runs \<open>n\<close> atomic operations with nothing in between. Run this way the machine is the
  sequential breaker: nine steps are enough for \<^verbatim>\<open>record\<close> and sixteen for \<^verbatim>\<open>admit\<close>.
\<close>

fun cb_alone :: "nat \<Rightarrow> CircuitBreakingLoadBalancer \<Rightarrow> nanos \<Rightarrow> cbState \<Rightarrow> cb_pc
    \<Rightarrow> cbState \<times> cb_pc option \<times> StateChange list"
where
  "cb_alone 0 l now b pc = (b, Some pc, [])"
| "cb_alone (Suc n) l now b pc =
     (case cb_micro l now b pc of
        (b1, None, e1) \<Rightarrow> (b1, None, e1)
      | (b1, Some pc1, e1) \<Rightarrow> (case cb_alone n l now b1 pc1 of (b2, r, e2) \<Rightarrow> (b2, r, e2 @ e1)))"

lemma cb_alone_reachable:
  assumes "cb_reachable l (b, add_mset pc T, now, log)" and "cb_alone n l now b pc = (b', Some pc', evs)"
  shows "cb_reachable l (b', add_mset pc' T, now, evs @ log)"
  using assms
proof (induction n arbitrary: b pc log evs)
  case (Suc n)
  then obtain b1 pc1 e1 e2 where m: "cb_micro l now b pc = (b1, Some pc1, e1)"
    and a: "cb_alone n l now b1 pc1 = (b', Some pc', e2)" and e: "evs = e2 @ e1"
    by (auto split: prod.splits option.splits)
  from cb_reachable.step [OF Suc.prems(1) cb_step.micro [OF m]]
  have "cb_reachable l (b1, add_mset pc1 T, now, e1 @ log)" by (simp add: opt_thread_def)
  from Suc.IH [OF this a] e show ?case by simp
qed simp

lemmas cb_eval = eval_nat_numeral cbUnpack_fields cb_state_values cb_fields_fresh cb_transition_def
  cb_settle_def cb_emit_def cb_change_def tr_return_def cbExternal_def Let_def

lemma cb_alone_record:
  assumes "cb_observed l" and "cb_landed adm gen (Some failed) = Some pc"
  shows "\<exists>evs. cb_alone 9 l now b pc = (fst (cb_record l now gen adm failed b), None, evs)
    \<and> evs = snd (cb_record l now gen adm failed b)"
proof (cases adm; cases failed)
  assume "adm = cbAdmitClosed" "failed"
  with assms show ?thesis by (auto simp: cb_landed_def cb_record_def cb_eval split: if_splits)
next
  assume "adm = cbAdmitClosed" "\<not> failed"
  with assms show ?thesis by (auto simp: cb_landed_def cb_record_def cb_eval split: if_splits)
next
  assume "adm = cbAdmitProbe" "failed"
  with assms show ?thesis by (auto simp: cb_landed_def cb_record_def cb_eval split: if_splits)
next
  assume "adm = cbAdmitProbe" "\<not> failed"
  with assms show ?thesis
    by (auto simp: cb_landed_def cb_record_def cb_eval releaseProbe_def split: if_splits)
qed

lemma cb_alone_admit:
  assumes "cb_config l" and "cb_observed l" and "cb_valid (cb_word b)"
    and a: "cb_admit 3 l now now b = Some (r, b', evs)"
  shows "cb_alone 16 l now b (AdLoad now)
    = (b', map_option (\<lambda>(gen, adm). Flight adm gen) r, rev evs)"
proof -
  note nz = cb_max_nonzero [OF assms(1)]
  consider (closed) "cb_st (cb_word b) = cbClosed" | (opened) "cb_st (cb_word b) = cbOpen"
    | (half) "cb_st (cb_word b) = cbHalfOpen"
    using assms(3) by (auto simp: cb_valid_def)
  then show ?thesis
  proof cases
    case closed
    with a show ?thesis by (auto simp: cb_eval)
  next
    case opened
    with a nz assms(2) show ?thesis by (auto simp: cb_eval split: if_splits)
  next
    case half
    with a nz assms(2) show ?thesis by (auto simp: cb_eval split: if_splits)
  qed
qed

section \<open>Properties\<close>

text \<open>
  C15. However admissions, results, panics and time-outs of concurrent requests interleave, the
  breaker never has more than \<^verbatim>\<open>HalfOpenMaxProbes\<close> probes of one half-open generation under way, and
  the count in the word is exactly the number of requests holding a slot, for the first \<open>2 ^ 32\<close>
  transitions, after which the generation counter repeats.
\<close>

theorem circuit_probe_cap:
  assumes "cb_config l" and "cb_reachable l (b, T, now, log)" and "length log < 2 ^ 32"
    and "cb_st (cb_word b) = cbHalfOpen"
  shows "holders (cb_gen (cb_word b)) T = unat (cb_probes (cb_word b))
    \<and> int (holders (cb_gen (cb_word b)) T) \<le> cb_HalfOpenMaxProbes l"
  using cb_reachable_inv [OF assms(2,1)] assms
  by (auto simp: cb_sys_inv_def cb_counts_def cb_config_def)

text \<open>
  A breaker that trips on one failure: it fails at time 5, and at time 6000000000 a request holds
  the only probe slot of the half-open generation.
\<close>

definition cb_touchy :: CircuitBreakingLoadBalancer where
  "cb_touchy = cb_init ((NewCircuitBreakingLoadBalancer cb_pool)\<lparr>cb_FailureThreshold := 1, cb_observed := True\<rparr>)"

lemma cb_touchy_fields:
  "cb_FailureThreshold cb_touchy = 1" "cb_HalfOpenMaxProbes cb_touchy = 1" "cb_observed cb_touchy"
  "cb_OpenTimeout cb_touchy = 5000000000" "cb_MaxOpenTimeout cb_touchy = 60000000000"
  by (simp_all add: cb_touchy_def cb_init_def NewCircuitBreakingLoadBalancer_def positive_or_def
      cbMaxProbes_def Let_def)

lemma cb_touchy_config: "cb_config cb_touchy"
  unfolding cb_touchy_def by (rule cb_init_config) (simp_all add: NewCircuitBreakingLoadBalancer_def)

lemma cb_probing_reachable:
  "\<exists>b T log. cb_reachable cb_touchy (b, add_mset (Flight cbAdmitProbe 2) T, 6000000000, log)
     \<and> cb_st (cb_word b) = cbHalfOpen \<and> cb_gen (cb_word b) = 2 \<and> length log = 2"
proof -
  let ?b = "fresh_breaker (hd cb_pool)" and ?l = cb_touchy
  have "cb_reachable ?l (?b, {#AdLoad 5#}, 5, [])"
    using cb_reachable.step [OF cb_reachable.start cb_step.arrive] by simp
  from cb_alone_reachable [OF this, of 1 ?b "Flight cbAdmitClosed 0" "[]"]
  have "cb_reachable ?l (?b, {#Flight cbAdmitClosed 0#}, 5, [])"
    by (simp add: fresh_breaker_def cb_st_zero)
  from cb_reachable.step [OF this cb_step.land [of _ _ _ _ "{#}" _ _ "Some True"]]
  have "cb_reachable ?l (?b, {#RcFail#}, 5, [])" by (simp add: cb_landed_def opt_thread_def)
  moreover obtain b1 where b1: "cb_alone 6 ?l 5 ?b RcFail
      = (b1, Some (TrFails \<lparr>cl_gen = 0, cl_from = cbClosed, cl_next = cbOpen, cl_reason = ReasonTrip, cl_admit = None\<rparr> 1),
         [cb_change ?b StateClosed StateOpen ReasonTrip])"
    and w1: "cb_word b1 = cbPack 1 0 cbOpen" and u1: "cb_openedUntil b1 = 5000000005"
    by (simp add: cb_eval fresh_breaker_def cb_touchy_fields cb_st_zero s32_small openTimeout_def backoff_def)
  ultimately obtain T log where
    "cb_reachable ?l (b1, T, 5, log)" and log: "length log = 1"
    using cb_alone_reachable by fastforce
  from cb_reachable.step [OF this(1) cb_step.tick [of 5 6000000000]]
  have "cb_reachable ?l (b1, T, 6000000000, log)" by simp
  from cb_reachable.step [OF this cb_step.arrive]
  have "cb_reachable ?l (b1, add_mset (AdLoad 6000000000) T, 6000000000, log)" .
  moreover obtain b2 evs where "cb_alone 6 ?l 6000000000 b1 (AdLoad 6000000000) = (b2, Some (Flight cbAdmitProbe 2), evs)"
    and "length evs = 1" and "cb_word b2 = cbPack 2 0 cbHalfOpen + cbProbeOne"
    by (simp add: cb_eval w1 u1 cb_touchy_fields)
  moreover have "cb_st (cbPack 2 0 cbHalfOpen + cbProbeOne) = cbHalfOpen"
    "cb_gen (cbPack 2 0 cbHalfOpen + cbProbeOne) = 2"
    using cb_fields_claim [of "cbPack 2 0 cbHalfOpen"] by (simp_all add: cb_fields_fresh)
  ultimately show ?thesis using cb_alone_reachable log by fastforce
qed

theorem circuit_probe_cap_witness:
  "\<exists>b T log. cb_reachable cb_touchy (b, add_mset (Flight cbAdmitProbe 2) T, 6000000000, log)
     \<and> holders 2 (add_mset (Flight cbAdmitProbe 2) T) \<le> 1"
proof -
  from cb_probing_reachable obtain b T log where
    r: "cb_reachable cb_touchy (b, add_mset (Flight cbAdmitProbe 2) T, 6000000000, log)"
    and b: "cb_st (cb_word b) = cbHalfOpen" "cb_gen (cb_word b) = 2" and "length log = 2" by blast
  from circuit_probe_cap [OF cb_touchy_config r] this
  have "holders 2 (add_mset (Flight cbAdmitProbe 2) T) \<le> 1" by (simp add: cb_touchy_fields)
  with r show ?thesis by blast
qed

text \<open>
  The committed transitions of a breaker form a path of its state machine, whatever the
  interleaving: each event leaves the state the previous one entered, along one of the five edges,
  and the last one entered the state now in the word.
\<close>

theorem circuit_transitions_chain:
  assumes "cb_config l" and "cb_reachable l (b, T, now, log)"
  shows "cb_log_ok log \<and> cb_log_state log = cbExternal (cb_st (cb_word b)) \<and> cb_valid (cb_word b)
    \<and> unat (cb_probes (cb_word b)) \<le> nat (cb_HalfOpenMaxProbes l)"
  using cb_reachable_inv [OF assms(2,1)] by (simp add: cb_sys_inv_def)

theorem circuit_transitions_chain_witness:
  "\<exists>b T log. cb_reachable cb_touchy (b, T, 6000000000, log) \<and> cb_log_ok log \<and> cb_log_state log = StateHalfOpen"
proof -
  from cb_probing_reachable obtain b T log where
    r: "cb_reachable cb_touchy (b, add_mset (Flight cbAdmitProbe 2) T, 6000000000, log)"
    and "cb_st (cb_word b) = cbHalfOpen" by blast
  with circuit_transitions_chain [OF cb_touchy_config r] show ?thesis
    by (auto simp: cbExternal_def cb_state_values)
qed

end
