(* ===== verification/Least_Conn.thy ===== *)
theory Least_Conn
  imports Complex_Main Upstream_Balancer "HOL-Library.Multiset"
begin

text \<open>
  \<^verbatim>\<open>LeastConnLoadBalancer\<close> (\<^verbatim>\<open>pkg/upstream/leastconn.go\<close>, \<^verbatim>\<open>leastconn_observe.go\<close>): the scan for the
  least weighted load under the bulkhead cap, the shed reasons, and the claim and release of a slot.
  The operations are given as they run undisturbed and as a machine with one step per atomic
  operation, in which requests interleave and the health gate flips at any time. In-flight counts
  and weights are integers; the products compared are assumed not to overflow \<^verbatim>\<open>int64\<close>.
\<close>

section \<open>State\<close>

record lcPeer =
  lc_target :: Target
  lc_weight :: int
  lc_cap :: int
  lc_active :: int

record LeastConnLoadBalancer =
  lc_i :: u32
  lc_peers :: "lcPeer list"
  lc_gate :: gate
  lc_Targets :: "Target list"
  lc_observed :: bool

datatype ShedReason = ShedEmpty | ShedSaturated | ShedAllDark

definition ShedReason_String :: "ShedReason \<Rightarrow> string" where
  "ShedReason_String r =
     (case r of ShedSaturated \<Rightarrow> ''saturated'' | ShedAllDark \<Rightarrow> ''all_dark'' | _ \<Rightarrow> ''empty'')"

record TargetLoad =
  tl_Host :: string
  tl_Active :: int
  tl_Cap :: int

definition NewLeastConnLoadBalancer :: "Target list \<Rightarrow> LeastConnLoadBalancer" where
  "NewLeastConnLoadBalancer ts =
     \<lparr>lc_i = 0, lc_peers = [], lc_gate = None, lc_Targets = ts, lc_observed = False\<rparr>"

definition lc_peer_of :: "Target \<Rightarrow> lcPeer" where
  "lc_peer_of t = \<lparr>lc_target = t, lc_weight = effectiveWeight t,
     lc_cap = (if tg_MaxConcurrent t > 0 then tg_MaxConcurrent t else 0), lc_active = 0\<rparr>"

definition lc_init :: "LeastConnLoadBalancer \<Rightarrow> LeastConnLoadBalancer" where
  "lc_init l = l\<lparr>lc_peers := map lc_peer_of (lc_Targets l)\<rparr>"

section \<open>Operations\<close>

definition lc_setHealthGate :: "gate \<Rightarrow> LeastConnLoadBalancer \<Rightarrow> LeastConnLoadBalancer" where
  "lc_setHealthGate g l = l\<lparr>lc_gate := g\<rparr>"

definition lc_up :: "LeastConnLoadBalancer \<Rightarrow> nat \<Rightarrow> bool" where
  "lc_up l i = gate_up (lc_gate l) i"

text \<open>At or over the bulkhead cap; a cap of 0 is no cap.\<close>

definition lc_full :: "lcPeer \<Rightarrow> bool" where
  "lc_full c \<longleftrightarrow> lc_cap c \<noteq> 0 \<and> lc_active c \<ge> lc_cap c"

text \<open>\<^verbatim>\<open>best == nil || a*best.weight < bestA*c.weight\<close>, with \<^verbatim>\<open>best\<close> an index and \<^verbatim>\<open>bestA\<close> its load.\<close>

definition lc_better :: "lcPeer list \<Rightarrow> nat \<Rightarrow> int \<Rightarrow> (nat \<times> int) option \<Rightarrow> (nat \<times> int) option" where
  "lc_better ps idx a best =
     (case best of
        None \<Rightarrow> Some (idx, a)
      | Some (j, bestA) \<Rightarrow>
          if a * lc_weight (ps ! j) < bestA * lc_weight (ps ! idx) then Some (idx, a) else best)"

text \<open>One scan: the best candidate, and whether a gated-up peer was seen.\<close>

fun lc_scan :: "(nat \<Rightarrow> bool) \<Rightarrow> bool \<Rightarrow> lcPeer list \<Rightarrow> nat list \<Rightarrow> (nat \<times> int) option \<Rightarrow> bool
    \<Rightarrow> (nat \<times> int) option \<times> bool"
where
  "lc_scan up failOpen ps [] best sawUp = (best, sawUp)"
| "lc_scan up failOpen ps (idx # is) best sawUp =
     (if \<not> failOpen \<and> \<not> up idx then lc_scan up failOpen ps is best sawUp
      else let sawUp' = (sawUp \<or> \<not> failOpen); c = ps ! idx
           in if lc_full c then lc_scan up failOpen ps is best sawUp'
              else lc_scan up failOpen ps is (lc_better ps idx (lc_active c) best) sawUp')"

definition lc_add :: "nat \<Rightarrow> int \<Rightarrow> lcPeer list \<Rightarrow> lcPeer list" where
  "lc_add i d ps = ps[i := (ps ! i)\<lparr>lc_active := lc_active (ps ! i) + d\<rparr>]"

text \<open>
  \<^verbatim>\<open>pick\<close> undisturbed, after the empty-pool check of \<^verbatim>\<open>RoundTrip\<close>: the gated scan, the fail-open scan
  when no peer was up, and the claim of a slot, which nothing can take in between.
\<close>

definition lc_pick :: "LeastConnLoadBalancer \<Rightarrow> (ShedReason + nat) \<times> LeastConnLoadBalancer" where
  "lc_pick l =
     (if lc_peers l = [] then (Inl ShedEmpty, l)
      else
        let i' = lc_i l + 1; start = i' - 1; l1 = l\<lparr>lc_i := i'\<rparr>;
            ps = lc_peers l; is = rr_order64 start (length ps);
            claim = (\<lambda>i. (Inr i, l1\<lparr>lc_peers := lc_add i 1 ps\<rparr>))
        in case lc_scan (lc_up l) False ps is None False of
             (Some (i, _), _) \<Rightarrow> claim i
           | (None, True) \<Rightarrow> (Inl ShedSaturated, l1)
           | (None, False) \<Rightarrow>
               (case lc_scan (lc_up l) True ps is None False of
                  (Some (i, _), _) \<Rightarrow> claim i
                | (None, sawUp) \<Rightarrow> (Inl (if sawUp then ShedSaturated else ShedAllDark), l1)))"

definition lc_shed :: "LeastConnLoadBalancer \<Rightarrow> ShedReason \<Rightarrow> ShedReason list" where
  "lc_shed l r = (if lc_observed l then [r] else [])"

definition Inflight :: "LeastConnLoadBalancer \<Rightarrow> TargetLoad list" where
  "Inflight l = map (\<lambda>p. \<lparr>tl_Host = tg_Host (lc_target p), tl_Active = lc_active p, tl_Cap = lc_cap p\<rparr>)
     (lc_peers l)"

text \<open>The outcome of the transport, and \<^verbatim>\<open>dec\<close> with the \<^verbatim>\<open>sync.Once\<close> that guards it.\<close>

datatype lc_outcome = TripPanics | TripNoBody rt_result | TripBody rt_result

definition lc_dec :: "nat \<Rightarrow> bool \<times> lcPeer list \<Rightarrow> bool \<times> lcPeer list" where
  "lc_dec i s = (case s of (fired, ps) \<Rightarrow> if fired then s else (True, lc_add i (- 1) ps))"

text \<open>
  The part of \<^verbatim>\<open>RoundTrip\<close> after the pick: the inline \<^verbatim>\<open>dec\<close> of a result without a body, and the
  deferred one unless it was handed to the body. The result says whether it has fired.
\<close>

definition lc_finish :: "nat \<Rightarrow> lc_outcome \<Rightarrow> lcPeer list \<Rightarrow> bool \<times> lcPeer list" where
  "lc_finish i out ps =
     (case out of
        TripPanics \<Rightarrow> lc_dec i (False, ps)
      | TripNoBody r \<Rightarrow> lc_dec i (lc_dec i (False, ps))
      | TripBody r \<Rightarrow> (False, ps))"

text \<open>\<^verbatim>\<open>Close\<close> of the wrapped body: the inner close, then \<^verbatim>\<open>dec\<close>.\<close>

definition lcBody_Close :: "nat \<Rightarrow> bool \<times> lcPeer list \<Rightarrow> bool \<times> lcPeer list" where
  "lcBody_Close i s = lc_dec i s"

section \<open>What a scan finds\<close>

definition lc_candidate :: "(nat \<Rightarrow> bool) \<Rightarrow> bool \<Rightarrow> lcPeer list \<Rightarrow> nat \<Rightarrow> bool" where
  "lc_candidate up failOpen ps i \<longleftrightarrow> (failOpen \<or> up i) \<and> \<not> lc_full (ps ! i)"

text \<open>Load \<open>a\<close> at weight \<open>w\<close> is at most load \<open>a'\<close> at weight \<open>w'\<close>, by cross-multiplication.\<close>

definition lighter :: "int \<Rightarrow> int \<Rightarrow> int \<Rightarrow> int \<Rightarrow> bool" where
  "lighter a w a' w' \<longleftrightarrow> a * w' \<le> a' * w"

lemma lighter_trans:
  assumes "lighter a w b v" and "lighter b v c u" and "0 < w" and "0 < v" and "0 < u"
  shows "lighter a w c u"
proof -
  have "a * v * u \<le> b * w * u" using assms(1,5) by (simp add: lighter_def)
  moreover have "b * u * w \<le> c * v * w" using assms(2,3) by (simp add: lighter_def)
  ultimately have "(a * u) * v \<le> (c * w) * v" by (simp add: algebra_simps)
  with assms(4) show ?thesis by (simp add: lighter_def)
qed

lemma lc_scan_saw_open: "snd (lc_scan up True ps is best saw) = saw"
  by (induction "is" arbitrary: best saw) (simp_all add: Let_def)

lemma lc_scan_saw: "snd (lc_scan up False ps is best saw) \<longleftrightarrow> saw \<or> (\<exists>i \<in> set is. up i)"
  by (induction "is" arbitrary: best saw) (auto simp: Let_def)

lemma lc_scan_mem:
  "fst (lc_scan up fo ps is best saw) = Some (i, a) \<Longrightarrow> i \<in> set is \<or> best = Some (i, a)"
proof (induction "is" arbitrary: best saw)
  case (Cons idx rest)
  have "i \<in> set rest \<or> best = Some (i, a) \<or> lc_better ps idx (lc_active (ps ! idx)) best = Some (i, a)"
    using Cons by (auto simp: Let_def split: if_splits)
  then show ?case by (auto simp: lc_better_def split: option.splits if_splits)
qed simp

text \<open>
  The result \<open>b\<close> of a scan of \<open>is\<close> that began with \<open>best\<close>: a candidate, or the old best, that is no
  heavier than any candidate and than the old best.
\<close>

definition lc_best_ok :: "(nat \<Rightarrow> bool) \<Rightarrow> bool \<Rightarrow> lcPeer list \<Rightarrow> nat list \<Rightarrow> (nat \<times> int) option
    \<Rightarrow> (nat \<times> int) option \<Rightarrow> bool"
where
  "lc_best_ok up fo ps is best b \<longleftrightarrow>
     (case b of
        None \<Rightarrow> best = None \<and> (\<forall>i \<in> set is. \<not> lc_candidate up fo ps i)
      | Some (j, a) \<Rightarrow>
          (b = best \<or> j \<in> set is \<and> lc_candidate up fo ps j \<and> a = lc_active (ps ! j))
          \<and> (\<forall>i \<in> set is. lc_candidate up fo ps i \<longrightarrow>
               lighter a (lc_weight (ps ! j)) (lc_active (ps ! i)) (lc_weight (ps ! i)))
          \<and> (\<forall>k c. best = Some (k, c) \<longrightarrow> lighter a (lc_weight (ps ! j)) c (lc_weight (ps ! k))))"

lemma lc_best_skip:
  "lc_best_ok up fo ps is best b \<Longrightarrow> \<not> lc_candidate up fo ps idx \<Longrightarrow> lc_best_ok up fo ps (idx # is) best b"
  by (cases b) (auto simp: lc_best_ok_def)

lemma lc_best_take:
  assumes ok: "lc_best_ok up fo ps is (lc_better ps idx (lc_active (ps ! idx)) best) b"
    and c: "lc_candidate up fo ps idx" and w: "\<And>i. i < length ps \<Longrightarrow> 0 < lc_weight (ps ! i)"
    and r: "set (idx # is) \<subseteq> {..<length ps}" "\<And>k c. best = Some (k, c) \<Longrightarrow> k < length ps"
  shows "lc_best_ok up fo ps (idx # is) best b"
proof -
  let ?a = "lc_active (ps ! idx)" and ?w = "\<lambda>i. lc_weight (ps ! i)"
  have "lc_better ps idx ?a best \<noteq> None" by (cases best) (auto simp: lc_better_def)
  then obtain m x where m: "lc_better ps idx ?a best = Some (m, x)" by auto
  have mx: "(m, x) = (idx, ?a) \<or> best = Some (m, x)" "m < length ps"
    "lighter x (?w m) ?a (?w idx)" "\<And>k c. best = Some (k, c) \<Longrightarrow> lighter x (?w m) c (?w k)"
    using m r by (auto simp: lc_better_def lighter_def split: option.splits if_splits)
  obtain j a where b: "b = Some (j, a)" using ok m by (cases b) (auto simp: lc_best_ok_def)
  have jm: "lighter a (?w j) x (?w m)"
    and src: "b = Some (m, x) \<or> j \<in> set is \<and> lc_candidate up fo ps j \<and> a = lc_active (ps ! j)"
    and min: "\<And>i. i \<in> set is \<Longrightarrow> lc_candidate up fo ps i \<Longrightarrow> lighter a (?w j) (lc_active (ps ! i)) (?w i)"
    using ok m b by (auto simp: lc_best_ok_def)
  have j: "j < length ps" using src b mx(2) r(1) by auto
  have "lighter a (?w j) ?a (?w idx)"
    using lighter_trans [OF jm mx(3)] w j mx(2) r(1) by simp
  moreover have "lighter a (?w j) c (?w k)" if "best = Some (k, c)" for k c
    using lighter_trans [OF jm mx(4) [OF that]] w j mx(2) r(2) [OF that] by simp
  moreover have "b = best \<or> j \<in> set (idx # is) \<and> lc_candidate up fo ps j \<and> a = lc_active (ps ! j)"
    using src mx(1) b c by auto
  ultimately show ?thesis using b min by (simp add: lc_best_ok_def)
qed

lemma lc_scan_best:
  assumes "\<And>i. i < length ps \<Longrightarrow> 0 < lc_weight (ps ! i)" and "set is \<subseteq> {..<length ps}"
    and "\<And>k c. best = Some (k, c) \<Longrightarrow> k < length ps"
  shows "lc_best_ok up fo ps is best (fst (lc_scan up fo ps is best saw))"
  using assms(2,3)
proof (induction "is" arbitrary: best saw)
  case Nil
  then show ?case by (simp add: lc_best_ok_def lighter_def split: option.split)
next
  case (Cons idx rest)
  have rest: "set rest \<subseteq> {..<length ps}" using Cons.prems(1) by simp
  show ?case
  proof (cases "lc_candidate up fo ps idx")
    case False
    then have "lc_scan up fo ps (idx # rest) best saw
        = lc_scan up fo ps rest best (if \<not> fo \<and> \<not> up idx then saw else saw \<or> \<not> fo)"
      by (auto simp: lc_candidate_def Let_def)
    moreover have "lc_best_ok up fo ps rest best (fst (lc_scan up fo ps rest best s))" for s
      using rest Cons.prems(2) by (rule Cons.IH)
    ultimately show ?thesis using False lc_best_skip by metis
  next
    case True
    let ?best = "lc_better ps idx (lc_active (ps ! idx)) best"
    let ?saw = "saw \<or> \<not> fo"
    have s: "lc_scan up fo ps (idx # rest) best saw = lc_scan up fo ps rest ?best ?saw"
      using True by (auto simp: lc_candidate_def Let_def)
    have idx: "idx < length ps" using Cons.prems(1) by simp
    have "k < length ps" if "?best = Some (k, c)" for k c
    proof (cases "k = idx")
      case False
      with that have "best = Some (k, c)" by (auto simp: lc_better_def split: option.splits if_splits)
      then show ?thesis by (rule Cons.prems(2))
    qed (simp add: idx)
    with rest have "lc_best_ok up fo ps rest ?best (fst (lc_scan up fo ps rest ?best ?saw))"
      by (rule Cons.IH)
    from lc_best_take [OF this True assms(1) Cons.prems] s show ?thesis by (simp only:)
  qed
qed

section \<open>The pick\<close>

definition lc_invar :: "LeastConnLoadBalancer \<Rightarrow> bool" where
  "lc_invar l \<longleftrightarrow> (\<forall>p \<in> set (lc_peers l). 0 < lc_weight p \<and> 0 \<le> lc_cap p)"

lemma lc_init_invar: "lc_invar (lc_init l)"
  using effectiveWeight_pos by (auto simp: lc_invar_def lc_init_def lc_peer_of_def intro: less_le_trans [OF zero_less_one])

text \<open>The peer a pick may choose: by the gate, or any when the gate has the whole pool down.\<close>

definition lc_dark :: "LeastConnLoadBalancer \<Rightarrow> bool" where
  "lc_dark l \<longleftrightarrow> (\<forall>i < length (lc_peers l). \<not> lc_up l i)"

definition lc_selectable :: "LeastConnLoadBalancer \<Rightarrow> nat \<Rightarrow> bool" where
  "lc_selectable l i \<longleftrightarrow> i < length (lc_peers l) \<and> (lc_up l i \<or> lc_dark l) \<and> \<not> lc_full (lc_peers l ! i)"

lemma lc_scan_spec:
  assumes "lc_invar l"
  shows "lc_best_ok (lc_up l) fo (lc_peers l) (rr_order64 start (length (lc_peers l))) None
    (fst (lc_scan (lc_up l) fo (lc_peers l) (rr_order64 start (length (lc_peers l))) None False))"
  using assms by (intro lc_scan_best) (auto simp: lc_invar_def set_rr_order64)

lemma lc_pick_cases:
  assumes "lc_invar l" and "lc_peers l \<noteq> []"
  shows "(\<exists>i. lc_pick l = (Inr i, l\<lparr>lc_i := lc_i l + 1, lc_peers := lc_add i 1 (lc_peers l)\<rparr>)
        \<and> lc_selectable l i
        \<and> (\<forall>j. lc_selectable l j \<longrightarrow> lighter (lc_active (lc_peers l ! i)) (lc_weight (lc_peers l ! i))
              (lc_active (lc_peers l ! j)) (lc_weight (lc_peers l ! j))))
    \<or> (\<forall>j. \<not> lc_selectable l j)
      \<and> lc_pick l = (Inl (if lc_dark l then ShedAllDark else ShedSaturated), l\<lparr>lc_i := lc_i l + 1\<rparr>)"
proof -
  let ?ps = "lc_peers l" and ?is = "rr_order64 (lc_i l) (length (lc_peers l))"
  let ?s = "\<lambda>fo. lc_scan (lc_up l) fo ?ps ?is None False"
  have ok: "lc_best_ok (lc_up l) fo ?ps ?is None (fst (?s fo))" for fo by (rule lc_scan_spec [OF assms(1)])
  have saw: "snd (?s False) \<longleftrightarrow> \<not> lc_dark l" "\<not> snd (?s True)"
    by (auto simp: lc_scan_saw lc_scan_saw_open set_rr_order64 lc_dark_def)
  have sel: "lc_selectable l j \<longleftrightarrow> j \<in> set ?is \<and> lc_candidate (lc_up l) (lc_dark l) ?ps j" for j
    by (auto simp: lc_selectable_def lc_candidate_def set_rr_order64)
  have dark: "fst (?s False) = None" if "lc_dark l"
    using ok [of False] that
    by (auto simp: lc_best_ok_def lc_candidate_def lc_dark_def set_rr_order64 split: option.splits)
  have pick: "lc_pick l = (case fst (?s (lc_dark l)) of
      Some (i, _) \<Rightarrow> (Inr i, l\<lparr>lc_i := lc_i l + 1, lc_peers := lc_add i 1 ?ps\<rparr>)
    | None \<Rightarrow> (Inl (if lc_dark l then ShedAllDark else ShedSaturated), l\<lparr>lc_i := lc_i l + 1\<rparr>))"
    using assms(2) saw dark
    by (cases "lc_dark l"; cases "?s False"; cases "?s True")
      (auto simp: lc_pick_def Let_def split: option.splits bool.splits)
  show ?thesis
  proof (cases "fst (?s (lc_dark l))")
    case None
    with ok [of "lc_dark l"] pick sel show ?thesis by (simp add: lc_best_ok_def)
  next
    case (Some x)
    obtain i a where x: "x = (i, a)" by (cases x)
    with Some ok [of "lc_dark l"] have "lc_best_ok (lc_up l) (lc_dark l) ?ps ?is None (Some (i, a))" by simp
    then have m: "i \<in> set ?is" "lc_candidate (lc_up l) (lc_dark l) ?ps i"
      "a = lc_active (?ps ! i)"
      and min: "\<forall>j \<in> set ?is. lc_candidate (lc_up l) (lc_dark l) ?ps j \<longrightarrow>
         lighter a (lc_weight (?ps ! i)) (lc_active (?ps ! j)) (lc_weight (?ps ! j))"
      by (auto simp: lc_best_ok_def)
    have "lc_pick l = (Inr i, l\<lparr>lc_i := lc_i l + 1, lc_peers := lc_add i 1 ?ps\<rparr>)"
      using pick Some x by simp
    moreover have "lc_selectable l i" using m sel by blast
    moreover have "\<forall>j. lc_selectable l j \<longrightarrow>
        lighter (lc_active (?ps ! i)) (lc_weight (?ps ! i)) (lc_active (?ps ! j)) (lc_weight (?ps ! j))"
      using min sel unfolding m(3) by blast
    ultimately show ?thesis by blast
  qed
qed

definition lc_select :: "LeastConnLoadBalancer \<Rightarrow> nanos \<Rightarrow> nat option \<times> LeastConnLoadBalancer" where
  "lc_select l now = (case lc_pick l of (Inl _, l') \<Rightarrow> (None, l') | (Inr i, l') \<Rightarrow> (Some i, l'))"

lemma lc_select_range:
  assumes "lc_select l now = (Some i, l')"
  shows "i < length (lc_peers l)"
proof -
  let ?s = "\<lambda>fo. lc_scan (lc_up l) fo (lc_peers l) (rr_order64 (lc_i l) (length (lc_peers l))) None False"
  have "\<exists>fo a. fst (?s fo) = Some (i, a)"
  proof (cases "fst (?s False)")
    case (Some x)
    with assms show ?thesis
      by (intro exI [of _ False], cases x, cases "?s False")
        (auto simp: lc_select_def lc_pick_def Let_def split: if_splits)
  next
    case None
    with assms show ?thesis
      by (intro exI [of _ True], cases "?s False", cases "?s True")
        (auto simp: lc_select_def lc_pick_def Let_def split: if_splits option.splits bool.splits)
  qed
  then obtain fo a where "fst (?s fo) = Some (i, a)" by blast
  from lc_scan_mem [OF this] show ?thesis by (simp add: set_rr_order64)
qed

interpretation lc: gated_balancer "\<lambda>l. length (lc_peers l)" lc_gate lc_setHealthGate
  "\<lambda>l _ i. \<not> lc_full (lc_peers l ! i)" "\<lambda>l _. lc_invar l" lc_select
proof
  fix l now i l'
  assume "lc_select l now = (Some i, l')"
  then show "i < length (lc_peers l)" by (rule lc_select_range)
next
  fix l :: LeastConnLoadBalancer and now
  assume a: "lc_invar l" "\<exists>i < length (lc_peers l). \<not> lc_full (lc_peers l ! i) \<and> gate_up (lc_gate l) i"
  then have ne: "lc_peers l \<noteq> []" and d: "\<not> lc_dark l" and s: "\<exists>j. lc_selectable l j"
    by (auto simp: lc_dark_def lc_up_def lc_selectable_def)
  from lc_pick_cases [OF a(1) ne] s obtain i l' where "lc_pick l = (Inr i, l')" and i: "lc_selectable l i"
    by blast
  with d show "\<exists>i l'. lc_select l now = (Some i, l') \<and> i < length (lc_peers l)
      \<and> \<not> lc_full (lc_peers l ! i) \<and> gate_up (lc_gate l) i"
    by (auto simp: lc_select_def lc_selectable_def lc_up_def)
qed (simp_all add: lc_setHealthGate_def lc_invar_def)

section \<open>Requests, one atomic operation at a time\<close>

text \<open>
  The program points of a request. \<open>Scan\<close> is at index \<open>k\<close> of the rotation, \<open>Read\<close> about to load the
  load of a peer, \<open>Claim\<close> and \<open>Reload\<close> in the loop of \<^verbatim>\<open>claim\<close>; each carries the start of the rotation
  and the fail-open flag for a re-scan. \<open>Trip\<close> holds a slot during the round trip, and \<open>Body\<close> is a
  response body in the hands of the caller, with its \<^verbatim>\<open>sync.Once\<close>.
\<close>

datatype lc_pc =
    Scan u32 bool nat "(nat \<times> int) option" bool
  | Read u32 bool nat "(nat \<times> int) option" bool
  | Claim u32 bool nat int
  | Reload u32 bool nat
  | Trip nat
  | Body nat bool

type_synonym lc_gate_fun = "nat \<Rightarrow> bool"

fun lc_micro :: "lc_gate_fun \<Rightarrow> lcPeer list \<Rightarrow> lc_pc \<Rightarrow> lcPeer list \<times> lc_pc option" where
  "lc_micro up ps (Scan start fo k best saw) =
     (let n = length ps; idx = (unat start + k) mod n
      in (ps, if k < n then
                (if fo then Some (Read start fo k best saw)
                 else if up idx then Some (Read start fo k best True)
                 else Some (Scan start fo (Suc k) best saw))
              else (case best of
                      Some (i, a) \<Rightarrow> Some (Claim start fo i a)
                    | None \<Rightarrow> if \<not> fo \<and> \<not> saw then Some (Scan start True 0 None False) else None)))"
| "lc_micro up ps (Read start fo k best saw) =
     (let idx = (unat start + k) mod length ps; c = ps ! idx
      in (ps, Some (Scan start fo (Suc k)
                (if lc_full c then best else lc_better ps idx (lc_active c) best) saw)))"
| "lc_micro up ps (Claim start fo i expected) =
     (let c = ps ! i
      in if lc_cap c = 0 then (lc_add i 1 ps, Some (Trip i))
         else if expected \<ge> lc_cap c then (ps, Some (Scan start fo 0 None False))
         else if lc_active c = expected
         then (ps[i := c\<lparr>lc_active := expected + 1\<rparr>], Some (Trip i))
         else (ps, Some (Reload start fo i)))"
| "lc_micro up ps (Reload start fo i) = (ps, Some (Claim start fo i (lc_active (ps ! i))))"
| "lc_micro up ps (Trip i) = (ps, Some (Trip i))"
| "lc_micro up ps (Body i fired) =
     (case lcBody_Close i (fired, ps) of (fired', ps') \<Rightarrow> (ps', Some (Body i fired')))"

definition lc_opt :: "lc_pc option \<Rightarrow> lc_pc multiset" where
  "lc_opt x = (case x of None \<Rightarrow> {#} | Some pc \<Rightarrow> {#pc#})"

text \<open>What is left of a request when its round trip ends: a body, or nothing.\<close>

definition lc_left :: "nat \<Rightarrow> lc_outcome \<Rightarrow> bool \<Rightarrow> lc_pc option" where
  "lc_left i out fired = (case out of TripBody r \<Rightarrow> Some (Body i fired) | _ \<Rightarrow> None)"

inductive lc_step :: "u32 \<times> lcPeer list \<times> lc_pc multiset \<Rightarrow> u32 \<times> lcPeer list \<times> lc_pc multiset \<Rightarrow> bool" where
  arrive: "lc_step (cur, ps, T) (cur + 1, ps, add_mset (Scan cur False 0 None False) T)"
| micro: "lc_micro up ps pc = (ps', pc') \<Longrightarrow> lc_step (cur, ps, add_mset pc T) (cur, ps', T + lc_opt pc')"
| finish: "lc_finish i out ps = (fired, ps') \<Longrightarrow>
     lc_step (cur, ps, add_mset (Trip i) T) (cur, ps', T + lc_opt (lc_left i out fired))"

inductive lc_reachable :: "Target list \<Rightarrow> u32 \<times> lcPeer list \<times> lc_pc multiset \<Rightarrow> bool" for ts where
  start: "ts \<noteq> [] \<Longrightarrow> lc_reachable ts (0, map lc_peer_of ts, {#})"
| step: "lc_reachable ts s \<Longrightarrow> lc_step s s' \<Longrightarrow> lc_reachable ts s'"

text \<open>A thread holds a slot of peer \<open>i\<close> while its round trip runs or its body has not been closed.\<close>

definition lc_held :: "nat \<Rightarrow> lc_pc multiset \<Rightarrow> nat" where
  "lc_held i T = count T (Trip i) + count T (Body i False)"

fun lc_pc_ok :: "nat \<Rightarrow> lc_pc \<Rightarrow> bool" where
  "lc_pc_ok n (Scan start fo k best saw) \<longleftrightarrow> (\<forall>i a. best = Some (i, a) \<longrightarrow> i < n)"
| "lc_pc_ok n (Read start fo k best saw) \<longleftrightarrow> (\<forall>i a. best = Some (i, a) \<longrightarrow> i < n)"
| "lc_pc_ok n (Claim start fo i a) \<longleftrightarrow> i < n"
| "lc_pc_ok n (Reload start fo i) \<longleftrightarrow> i < n"
| "lc_pc_ok n (Trip i) \<longleftrightarrow> i < n"
| "lc_pc_ok n (Body i fired) \<longleftrightarrow> i < n"

definition lc_peers_ok :: "Target list \<Rightarrow> lcPeer list \<Rightarrow> lc_pc multiset \<Rightarrow> bool" where
  "lc_peers_ok ts ps T \<longleftrightarrow> length ps = length ts
     \<and> (\<forall>i < length ts. lc_cap (ps ! i) = lc_cap (lc_peer_of (ts ! i)) \<and> lc_weight (ps ! i) = effectiveWeight (ts ! i)
          \<and> lc_active (ps ! i) = int (lc_held i T)
          \<and> (lc_cap (ps ! i) \<noteq> 0 \<longrightarrow> lc_active (ps ! i) \<le> lc_cap (ps ! i)))"

lemma lc_held_simps [simp]:
  "lc_held i {#} = 0"
  "lc_held i (add_mset pc T) = (if pc = Trip i \<or> pc = Body i False then 1 else 0) + lc_held i T"
  "lc_held i (T + lc_opt x) = (if x = Some (Trip i) \<or> x = Some (Body i False) then 1 else 0) + lc_held i T"
  by (auto simp: lc_held_def lc_opt_def split: option.splits)

lemma lc_peers_ok_add:
  assumes "lc_peers_ok ts ps T" and "i < length ts"
    and "\<And>j. int (lc_held j T') = int (lc_held j T) + (if j = i then d else 0)"
    and "lc_cap (ps ! i) \<noteq> 0 \<Longrightarrow> lc_active (ps ! i) + d \<le> lc_cap (ps ! i)"
  shows "lc_peers_ok ts (lc_add i d ps) T'"
  using assms by (auto simp: lc_peers_ok_def lc_add_def nth_list_update)

lemma lc_peers_ok_same:
  assumes "lc_peers_ok ts ps T" and "\<And>j. lc_held j T' = lc_held j T"
  shows "lc_peers_ok ts ps T'"
  using assms(1) unfolding lc_peers_ok_def assms(2) .

lemma lc_micro_pc_ok:
  assumes "lc_micro up ps pc = (ps', Some pc')" and "lc_pc_ok (length ps) pc" and "ps \<noteq> []"
  shows "lc_pc_ok (length ps) pc'"
  using assms
  by (cases pc) (auto simp: Let_def lc_better_def lcBody_Close_def split: if_splits option.splits prod.splits)

lemma lc_micro_ok:
  assumes m: "lc_micro up ps pc = (ps', pc')" and ok: "lc_peers_ok ts ps (add_mset pc T)"
    and pc: "lc_pc_ok (length ts) pc"
  shows "lc_peers_ok ts ps' (T + lc_opt pc')"
proof -
  consider (claim) start fo i e where "pc = Claim start fo i e" | (body) i fired where "pc = Body i fired"
    | (trip) i where "pc = Trip i"
    | (other) "ps' = ps" "\<And>j. pc \<noteq> Trip j" "\<And>j b. pc \<noteq> Body j b" "\<And>j. pc' \<noteq> Some (Trip j)" "\<And>j b. pc' \<noteq> Some (Body j b)"
    using m by (cases pc) (auto simp: Let_def split: if_splits option.splits)
  then show ?thesis
  proof cases
    case claim
    have i: "i < length ts" using pc claim by simp
    let ?c = "ps ! i"
    consider (grow) "ps' = lc_add i 1 ps" "pc' = Some (Trip i)" "lc_cap ?c \<noteq> 0 \<Longrightarrow> lc_active ?c + 1 \<le> lc_cap ?c"
      | (stay) "ps' = ps" "pc' = Some (Scan start fo 0 None False) \<or> pc' = Some (Reload start fo i)"
      using m claim by (auto simp: Let_def lc_add_def split: if_splits)
    then show ?thesis
    proof cases
      case grow
      show ?thesis unfolding grow(1)
        by (rule lc_peers_ok_add [OF ok i]) (use grow claim in auto)
    next
      case stay
      show ?thesis unfolding stay(1) by (rule lc_peers_ok_same [OF ok]) (use stay(2) claim in auto)
    qed
  next
    case body
    have i: "i < length ts" using pc body by simp
    show ?thesis
    proof (cases fired)
      case True
      with m body have "ps' = ps" "pc' = Some (Body i True)" by (simp_all add: lcBody_Close_def lc_dec_def)
      then show ?thesis using lc_peers_ok_same [OF ok] body True by simp
    next
      case False
      with m body have s: "ps' = lc_add i (- 1) ps" "pc' = Some (Body i True)"
        by (auto simp: lcBody_Close_def lc_dec_def)
      have "lc_cap (ps ! i) \<noteq> 0 \<Longrightarrow> lc_active (ps ! i) - 1 \<le> lc_cap (ps ! i)"
        using ok i by (auto simp: lc_peers_ok_def)
      then show ?thesis unfolding s(1) by (intro lc_peers_ok_add [OF ok i]) (use s body False in auto)
    qed
  next
    case trip
    with m have "ps' = ps" "pc' = Some (Trip i)" by simp_all
    then show ?thesis using lc_peers_ok_same [OF ok] trip by simp
  next
    case other
    show ?thesis unfolding other(1) by (rule lc_peers_ok_same [OF ok]) (use other in auto)
  qed
qed

lemma lc_finish_ok:
  assumes f: "lc_finish i out ps = (fired, ps')" and ok: "lc_peers_ok ts ps (add_mset (Trip i) T)"
    and i: "i < length ts"
  shows "lc_peers_ok ts ps' (T + lc_opt (lc_left i out fired))"
proof -
  have "lc_cap (ps ! i) \<noteq> 0 \<Longrightarrow> lc_active (ps ! i) - 1 \<le> lc_cap (ps ! i)"
    using ok i by (auto simp: lc_peers_ok_def)
  then have freed: "lc_peers_ok ts (lc_add i (- 1) ps) T"
    by (intro lc_peers_ok_add [OF ok i]) auto
  show ?thesis
  proof (cases out)
    case (TripBody r)
    with f have "ps' = ps" "\<not> fired" by (simp_all add: lc_finish_def)
    with TripBody show ?thesis using lc_peers_ok_same [OF ok] by (auto simp: lc_left_def)
  qed (use f freed in \<open>auto simp: lc_finish_def lc_dec_def lc_left_def lc_opt_def\<close>)
qed

definition lc_sys_inv :: "Target list \<Rightarrow> u32 \<times> lcPeer list \<times> lc_pc multiset \<Rightarrow> bool" where
  "lc_sys_inv ts s = (case s of (cur, ps, T) \<Rightarrow>
     ts \<noteq> [] \<and> lc_peers_ok ts ps T \<and> (\<forall>pc \<in># T. lc_pc_ok (length ts) pc))"

lemma lc_step_inv:
  assumes "lc_step s s'" and "lc_sys_inv ts s"
  shows "lc_sys_inv ts s'"
  using assms(1)
proof cases
  case (arrive cur ps T)
  with assms(2) lc_peers_ok_same [of ts ps T] show ?thesis by (auto simp: lc_sys_inv_def)
next
  case (micro up ps pc ps' pc' cur T)
  from assms(2) micro(1) have i: "ts \<noteq> []" "lc_peers_ok ts ps (add_mset pc T)" "lc_pc_ok (length ts) pc"
    "\<forall>x \<in># T. lc_pc_ok (length ts) x"
    by (simp_all add: lc_sys_inv_def)
  have len: "length ps = length ts" "ps \<noteq> []" using i(1,2) by (auto simp: lc_peers_ok_def)
  have "\<forall>x \<in># lc_opt pc'. lc_pc_ok (length ts) x"
    using lc_micro_pc_ok [of up ps pc ps'] micro(3) i(3) len by (cases pc') (auto simp: lc_opt_def)
  with lc_micro_ok [OF micro(3) i(2,3)] i(1,4) micro(2) show ?thesis by (auto simp: lc_sys_inv_def)
next
  case (finish i out ps fired ps' cur T)
  from assms(2) finish(1) have j: "ts \<noteq> []" "lc_peers_ok ts ps (add_mset (Trip i) T)" "i < length ts"
    "\<forall>x \<in># T. lc_pc_ok (length ts) x"
    by (simp_all add: lc_sys_inv_def)
  have "\<forall>x \<in># lc_opt (lc_left i out fired). lc_pc_ok (length ts) x"
    using j(3) by (cases out) (simp_all add: lc_left_def lc_opt_def)
  with lc_finish_ok [OF finish(3) j(2,3)] j(1,4) finish(2) show ?thesis by (auto simp: lc_sys_inv_def)
qed

lemma lc_reachable_inv: "lc_reachable ts s \<Longrightarrow> lc_sys_inv ts s"
proof (induction rule: lc_reachable.induct)
  case start
  then show ?case by (simp add: lc_sys_inv_def lc_peers_ok_def lc_peer_of_def)
next
  case (step s s')
  then show ?case by (blast intro: lc_step_inv)
qed

section \<open>Properties\<close>

text \<open>
  C20. The bulkhead is hard: in every interleaving of picks, results, panics and body closes, with
  the health gate flipping at any time, the in-flight count of a target is exactly the number of
  requests holding a slot of it, each slot is returned once however often the body is closed, and
  a target with a cap never has more requests in flight than the cap.
\<close>

theorem leastconn_bulkhead:
  assumes "lc_reachable ts (cur, ps, T)" and "i < length ts"
  shows "lc_active (ps ! i) = int (lc_held i T)
    \<and> (0 < tg_MaxConcurrent (ts ! i) \<longrightarrow> int (lc_held i T) \<le> tg_MaxConcurrent (ts ! i))"
proof -
  have p: "lc_peers_ok ts ps T" using lc_reachable_inv [OF assms(1)] by (simp add: lc_sys_inv_def)
  then have "lc_cap (ps ! i) = lc_cap (lc_peer_of (ts ! i))" "lc_active (ps ! i) = int (lc_held i T)"
    "lc_cap (ps ! i) \<noteq> 0 \<longrightarrow> lc_active (ps ! i) \<le> lc_cap (ps ! i)"
    using assms(2) by (auto simp: lc_peers_ok_def)
  then show ?thesis by (auto simp: lc_peer_of_def)
qed

text \<open>One target with a cap of 2, and a request holding a slot of it.\<close>

definition lc_one :: "Target list" where
  "lc_one = [\<lparr>tg_Host = ''a'', tg_Weight = 0, tg_MaxConcurrent = 2\<rparr>]"

lemma lc_one_reachable:
  "lc_reachable lc_one (1, [(lc_peer_of (hd lc_one))\<lparr>lc_active := 1\<rparr>], {#Trip 0#})"
proof -
  let ?p = "lc_peer_of (hd lc_one)"
  have p: "lc_cap ?p = 2" "lc_active ?p = 0" "map lc_peer_of lc_one = [?p]"
    by (simp_all add: lc_one_def lc_peer_of_def)
  note go = lc_reachable.step [OF _ lc_step.micro [where T = "{#}" and up = "\<lambda>_. True"]]
  have 0: "lc_reachable lc_one (0 + 1, map lc_peer_of lc_one, {#Scan 0 False 0 None False#})"
    by (rule lc_reachable.step [OF lc_reachable.start lc_step.arrive]) (simp add: lc_one_def)
  from go [OF 0] have 1: "lc_reachable lc_one (1, [?p], {#Read 0 False 0 None True#})"
    by (simp add: p lc_opt_def)
  from go [OF 1] have 2: "lc_reachable lc_one (1, [?p], {#Scan 0 False 1 (Some (0, 0)) True#})"
    by (simp add: p lc_opt_def lc_full_def lc_better_def)
  from go [OF 2] have 3: "lc_reachable lc_one (1, [?p], {#Claim 0 False 0 0#})"
    by (simp add: p lc_opt_def)
  from go [OF 3] show ?thesis by (simp add: p lc_opt_def)
qed

theorem leastconn_bulkhead_witness:
  "lc_active ((lc_peer_of (hd lc_one))\<lparr>lc_active := 1\<rparr>) = int (lc_held 0 {#Trip 0#})
    \<and> int (lc_held 0 {#Trip 0#}) \<le> 2"
  using leastconn_bulkhead [OF lc_one_reachable, of 0] by (simp add: lc_one_def)

text \<open>
  A pick takes a slot on a target of least weighted load: among the targets the gate has up and
  that are under their cap (all under their cap when the gate has the whole pool down) it chooses one
  with the smallest ratio of in-flight requests to weight, and it sheds exactly when there is none,
  as saturated if some target is up and as all dark otherwise.
\<close>

theorem leastconn_least_load:
  assumes "lc_invar l" and "lc_peers l \<noteq> []"
  shows "(\<exists>i. lc_pick l = (Inr i, l\<lparr>lc_i := lc_i l + 1, lc_peers := lc_add i 1 (lc_peers l)\<rparr>)
        \<and> lc_selectable l i
        \<and> (\<forall>j. lc_selectable l j \<longrightarrow>
             rat_of_int (lc_active (lc_peers l ! i)) / rat_of_int (lc_weight (lc_peers l ! i))
             \<le> rat_of_int (lc_active (lc_peers l ! j)) / rat_of_int (lc_weight (lc_peers l ! j))))
    \<or> (\<forall>j. \<not> lc_selectable l j)
      \<and> lc_pick l = (Inl (if lc_dark l then ShedAllDark else ShedSaturated), l\<lparr>lc_i := lc_i l + 1\<rparr>)"
proof -
  have ratio: "lighter (lc_active p) (lc_weight p) (lc_active q) (lc_weight q) \<longleftrightarrow>
      rat_of_int (lc_active p) / rat_of_int (lc_weight p) \<le> rat_of_int (lc_active q) / rat_of_int (lc_weight q)"
    if "0 < lc_weight p" and "0 < lc_weight q" for p q :: lcPeer
  proof -
    have w: "0 < rat_of_int (lc_weight p)" "0 < rat_of_int (lc_weight q)" using that by simp_all
    have "lighter (lc_active p) (lc_weight p) (lc_active q) (lc_weight q) \<longleftrightarrow>
        rat_of_int (lc_active p) * rat_of_int (lc_weight q) \<le> rat_of_int (lc_active q) * rat_of_int (lc_weight p)"
      by (simp only: lighter_def of_int_le_iff flip: of_int_mult)
    with w show ?thesis by (simp add: divide_le_eq pos_le_divide_eq)
  qed
  have "0 < lc_weight (lc_peers l ! i)" if "lc_selectable l i" for i
    using assms(1) that by (simp add: lc_invar_def lc_selectable_def)
  with ratio lc_pick_cases [OF assms] show ?thesis by meson
qed

theorem leastconn_least_load_witness:
  "\<exists>i. lc_pick (lc_init (NewLeastConnLoadBalancer lc_one))
     = (Inr i, (lc_init (NewLeastConnLoadBalancer lc_one))\<lparr>lc_i := 1, lc_peers := lc_add i 1 (map lc_peer_of lc_one)\<rparr>)"
proof -
  let ?l = "lc_init (NewLeastConnLoadBalancer lc_one)"
  have f: "lc_peers ?l = map lc_peer_of lc_one" "lc_i ?l = 0" "lc_gate ?l = None"
    by (simp_all add: lc_init_def NewLeastConnLoadBalancer_def)
  have ne: "lc_peers ?l \<noteq> []" unfolding f by (simp add: lc_one_def)
  have "lc_selectable ?l 0"
    unfolding lc_selectable_def lc_up_def f by (simp add: lc_one_def lc_peer_of_def lc_full_def gate_up_def)
  with leastconn_least_load [OF lc_init_invar ne] f show ?thesis by auto
qed

end
