(* ===== verification/Latency_Ejecting.thy ===== *)
theory Latency_Ejecting
  imports Complex_Main Upstream_Balancer
begin

text \<open>
  \<^verbatim>\<open>LatencyEjectingLoadBalancer\<close> (\<^verbatim>\<open>pkg/upstream/latencyejecting.go\<close>): the decayed mean of a target's
  latency, the pool median, the outlier test with its guard rails, and the pick with its panic mode.
  Floating-point values are real numbers and \<^verbatim>\<open>math.Exp\<close> is the exponential function; a mean of 0 is
  the code's zero bit pattern, which stands for no value yet. The operations run undisturbed; the
  race of concurrent ejectors for a deadline is the one treated in \<^verbatim>\<open>Ejecting\<close>.
\<close>

section \<open>State\<close>

record latPeer =
  lp_target :: Target
  lp_ewma :: real
  lp_lastNanos :: nanos
  lp_samples :: nat
  lp_ejections :: int
  lp_ejectedUntil :: nanos

record LatencyEjectingLoadBalancer =
  la_i :: u32
  la_tau :: real
  la_peers :: "latPeer list"
  la_gate :: gate
  la_Targets :: "Target list"
  la_EjectionFactor :: real
  la_MinSamples :: nat
  la_MinHosts :: int
  la_HalfLife :: int
  la_MinEjectDelta :: int
  la_MinEjectLatency :: int
  la_MaxEjectionPercent :: int
  la_PanicThreshold :: int
  la_EjectTimeout :: int
  la_MaxEjectTimeout :: int
  la_observed :: bool

definition NewLatencyEjectingLoadBalancer :: "Target list \<Rightarrow> LatencyEjectingLoadBalancer" where
  "NewLatencyEjectingLoadBalancer ts =
     \<lparr>la_i = 0, la_tau = 0, la_peers = [], la_gate = None, la_Targets = ts, la_EjectionFactor = 0,
      la_MinSamples = 0, la_MinHosts = 0, la_HalfLife = 0, la_MinEjectDelta = 0, la_MinEjectLatency = 0,
      la_MaxEjectionPercent = 0, la_PanicThreshold = 0, la_EjectTimeout = 0, la_MaxEjectTimeout = 0,
      la_observed = False\<rparr>"

definition fresh_lat :: "Target \<Rightarrow> latPeer" where
  "fresh_lat t = \<lparr>lp_target = t, lp_ewma = 0, lp_lastNanos = 0, lp_samples = 0, lp_ejections = 0,
     lp_ejectedUntil = 0\<rparr>"

definition la_init :: "LatencyEjectingLoadBalancer \<Rightarrow> LatencyEjectingLoadBalancer" where
  "la_init l =
     (let mp = (if la_MaxEjectionPercent l \<le> 0 \<or> la_MaxEjectionPercent l > 100 then 30
                else la_MaxEjectionPercent l);
          pt = (if la_PanicThreshold l \<le> 0 \<or> la_PanicThreshold l > 100 then 50 else la_PanicThreshold l);
          et = (if la_EjectTimeout l \<le> 0 then 30000000000 else la_EjectTimeout l);
          mt = (if la_MaxEjectTimeout l \<le> 0 then 300000000000 else la_MaxEjectTimeout l);
          hl = (if la_HalfLife l \<le> 0 then 10000000000 else la_HalfLife l)
      in l\<lparr>la_EjectionFactor := (if la_EjectionFactor l \<le> 1 then 3 else la_EjectionFactor l),
           la_MinSamples := (if la_MinSamples l = 0 then 100 else la_MinSamples l),
           la_MinHosts := (if la_MinHosts l < 2 then 3 else la_MinHosts l),
           la_HalfLife := hl,
           la_MinEjectDelta := (if la_MinEjectDelta l \<le> 0 then 50000000 else la_MinEjectDelta l),
           la_MaxEjectionPercent := mp,
           la_PanicThreshold := (if pt \<le> mp then mp + 1 else pt),
           la_EjectTimeout := et,
           la_MaxEjectTimeout := (if mt < et then et else mt),
           la_tau := real_of_int hl / ln 2,
           la_peers := map fresh_lat (la_Targets l)\<rparr>)"

section \<open>Operations\<close>

definition la_setHealthGate :: "gate \<Rightarrow> LatencyEjectingLoadBalancer \<Rightarrow> LatencyEjectingLoadBalancer" where
  "la_setHealthGate g l = l\<lparr>la_gate := g\<rparr>"

definition la_up :: "LatencyEjectingLoadBalancer \<Rightarrow> nat \<Rightarrow> bool" where
  "la_up l i = gate_up (la_gate l) i"

definition ejectedCount :: "latPeer list \<Rightarrow> nanos \<Rightarrow> nat" where
  "ejectedCount ps now = length (filter (\<lambda>p. lp_ejectedUntil p > now) ps)"

text \<open>More of the pool ejected than the panic threshold allows.\<close>

definition la_panic :: "LatencyEjectingLoadBalancer \<Rightarrow> nanos \<Rightarrow> bool" where
  "la_panic l now \<longleftrightarrow>
     int (ejectedCount (la_peers l) now) * 100 > la_PanicThreshold l * int (length (la_peers l))"

text \<open>\<^verbatim>\<open>pick\<close> after the empty-pool check of \<^verbatim>\<open>RoundTrip\<close>; \<open>None\<close> is \<^verbatim>\<open>ErrUnavailable\<close>.\<close>

definition la_pick ::
  "LatencyEjectingLoadBalancer \<Rightarrow> nanos \<Rightarrow> nat option \<times> LatencyEjectingLoadBalancer"
where
  "la_pick l now =
     (let n = length (la_peers l)
      in if n = 0 then (None, l)
         else let i' = la_i l + 1; start = i' - 1; l' = l\<lparr>la_i := i'\<rparr>
              in if la_panic l now then (Some (unat (start mod of_nat n)), l')
                 else (Some (scan_open (\<lambda>i. lp_ejectedUntil (la_peers l ! i) \<le> now \<and> la_up l i) start n), l'))"

definition lat_observe :: "real \<Rightarrow> nanos \<Rightarrow> real \<Rightarrow> latPeer \<Rightarrow> latPeer" where
  "lat_observe sample now tau p =
     (let nxt = (if lp_ewma p = 0 then sample
                 else let dt = real_of_int (max 0 (now - lp_lastNanos p)); w = exp (- dt / tau)
                      in w * lp_ewma p + (1 - w) * sample)
      in p\<lparr>lp_samples := lp_samples p + 1, lp_ewma := nxt, lp_lastNanos := now\<rparr>)"

definition poolMedian :: "nat \<Rightarrow> latPeer list \<Rightarrow> real \<times> int" where
  "poolMedian minSamples ps =
     (let vals = sort (map lp_ewma (filter (\<lambda>p. \<not> lp_samples p < minSamples \<and> lp_ewma p \<noteq> 0) ps));
          m = length vals
      in if vals = [] then (0, 0)
         else if m mod 2 = 1 then (vals ! (m div 2), int m)
         else ((vals ! (m div 2 - 1) + vals ! (m div 2)) / 2, int m))"

definition la_ejectionTimeout :: "LatencyEjectingLoadBalancer \<Rightarrow> int \<Rightarrow> int" where
  "la_ejectionTimeout l e = backoff (la_EjectTimeout l) (la_MaxEjectTimeout l) e"

definition lat_change :: "latPeer \<Rightarrow> State \<Rightarrow> State \<Rightarrow> Reason \<Rightarrow> StateChange" where
  "lat_change p from to reason =
     \<lparr>sc_Host = tg_Host (lp_target p), sc_From = from, sc_To = to, sc_Reason = reason, sc_Cause = CauseNone\<rparr>"

definition maybeHeal :: "LatencyEjectingLoadBalancer \<Rightarrow> latPeer \<Rightarrow> latPeer \<times> StateChange list" where
  "maybeHeal l p =
     (if lp_ejections p \<noteq> 0 \<or> lp_ejectedUntil p \<noteq> 0
      then (p\<lparr>lp_ejectedUntil := 0, lp_ejections := 0\<rparr>,
            if lp_ejectedUntil p \<noteq> 0 \<and> la_observed l then [lat_change p StateOpen StateClosed ReasonRecover]
            else [])
      else (p, []))"

definition la_eject ::
  "LatencyEjectingLoadBalancer \<Rightarrow> nanos \<Rightarrow> latPeer \<Rightarrow> latPeer \<times> StateChange list"
where
  "la_eject l now p =
     (let prev = lp_ejectedUntil p
      in if prev > now then (p, [])
         else let e = s32 (lp_ejections p + 1)
              in (p\<lparr>lp_ejectedUntil := now + la_ejectionTimeout l e, lp_ejections := e, lp_ewma := 0,
                    lp_samples := 0\<rparr>,
                  if la_observed l
                  then [lat_change p (if prev \<noteq> 0 then StateOpen else StateClosed) StateOpen ReasonEject]
                  else []))"

text \<open>
  \<^verbatim>\<open>record\<close> for peer \<open>i\<close> after a round trip of \<open>d\<close> nanoseconds that gave a response: the sample, then the
  outlier test against the pool. \<open>now\<close>, \<open>now'\<close> and \<open>now''\<close> are the three readings of the clock.
\<close>

definition la_tolerated :: "LatencyEjectingLoadBalancer \<Rightarrow> real \<Rightarrow> real \<Rightarrow> bool" where
  "la_tolerated l cur median \<longleftrightarrow> cur < median * la_EjectionFactor l
     \<or> cur < median + real_of_int (la_MinEjectDelta l) \<or> cur < real_of_int (la_MinEjectLatency l)"

definition la_record ::
  "nanos \<Rightarrow> nanos \<Rightarrow> nanos \<Rightarrow> nat \<Rightarrow> int \<Rightarrow> rt_result \<Rightarrow> LatencyEjectingLoadBalancer
     \<Rightarrow> LatencyEjectingLoadBalancer \<times> StateChange list"
where
  "la_record now now' now'' i d r l =
     (case r of
        Inl _ \<Rightarrow> (l, [])
      | Inr _ \<Rightarrow>
          let p = lat_observe (real_of_int d) now (la_tau l) (la_peers l ! i);
              ps = (la_peers l)[i := p]; l1 = l\<lparr>la_peers := ps\<rparr>
          in if lp_samples p < la_MinSamples l then (l1, [])
             else case poolMedian (la_MinSamples l) ps of (median, eligible) \<Rightarrow>
               if eligible < la_MinHosts l then (l1, [])
               else if la_tolerated l (lp_ewma p) median
               then (case maybeHeal l p of (p', evs) \<Rightarrow> (l\<lparr>la_peers := ps[i := p']\<rparr>, evs))
               else let ej = int (ejectedCount ps now'); n = int (length ps)
                    in if (ej + 1) * 100 > la_PanicThreshold l * n then (l1, [])
                       else if (ej + 1) * 100 > la_MaxEjectionPercent l * n then (l1, [])
                       else case la_eject l now'' p of (p', evs) \<Rightarrow> (l\<lparr>la_peers := ps[i := p']\<rparr>, evs))"

definition la_RoundTrip ::
  "(Target \<Rightarrow> rt_result) \<Rightarrow> nanos \<Rightarrow> int \<Rightarrow> LatencyEjectingLoadBalancer
     \<Rightarrow> string option \<times> rt_result \<times> LatencyEjectingLoadBalancer \<times> StateChange list"
where
  "la_RoundTrip transport now d l =
     (case la_pick l now of
        (None, l1) \<Rightarrow> (None, Inl ErrUnavailable, l1, [])
      | (Some i, l1) \<Rightarrow>
          let t = lp_target (la_peers l1 ! i); r = transport t; after = now + d
          in case la_record after after after i d r l1 of
               (l2, evs) \<Rightarrow> (Some (tg_Host t), r, l2, evs))"

text \<open>The scan decides only away from the wrap of the cursor and outside panic.\<close>

definition la_exact :: "LatencyEjectingLoadBalancer \<Rightarrow> nanos \<Rightarrow> bool" where
  "la_exact l now \<longleftrightarrow> unat (la_i l) + length (la_peers l) \<le> 2 ^ 32 \<and> \<not> la_panic l now"

interpretation la: gated_balancer "\<lambda>l. length (la_peers l)" la_gate la_setHealthGate
  "\<lambda>l now i. lp_ejectedUntil (la_peers l ! i) \<le> now" la_exact la_pick
proof
  fix l now
  assume "length (la_peers l) < 2 ^ 32" "la_exact l now"
    and e: "\<exists>i < length (la_peers l). lp_ejectedUntil (la_peers l ! i) \<le> now \<and> gate_up (la_gate l) i"
  then show "\<exists>i l'. la_pick l now = (Some i, l') \<and> i < length (la_peers l)
      \<and> lp_ejectedUntil (la_peers l ! i) \<le> now \<and> gate_up (la_gate l) i"
    using scan_open_sound [of "length (la_peers l)" "la_i l" "\<lambda>i. lp_ejectedUntil (la_peers l ! i) \<le> now \<and> la_up l i"]
    by (auto simp: la_pick_def la_exact_def la_up_def Let_def)
qed (auto simp: la_pick_def Let_def la_setHealthGate_def la_exact_def la_panic_def
    intro: scan_open_less rr_start_less split: if_splits)

section \<open>Counting ejected peers\<close>

lemma length_filter_update:
  "length (filter P (xs[i := y])) \<le> length (filter P xs) + (if P y then 1 else 0)"
proof (induction xs arbitrary: i)
  case (Cons x xs)
  from Cons.IH [of "i - 1"] show ?case by (cases i) auto
qed simp

lemma ejectedCount_mono: "t \<le> t' \<Longrightarrow> ejectedCount ps t' \<le> ejectedCount ps t"
  by (induction ps) (auto simp: ejectedCount_def)

lemma ejectedCount_update:
  "ejectedCount (ps[i := p]) t \<le> ejectedCount ps t + (if lp_ejectedUntil p > t then 1 else 0)"
  using length_filter_update [of "\<lambda>p. lp_ejectedUntil p > t" ps i p] by (simp add: ejectedCount_def)

lemma lat_observe_until [simp]: "lp_ejectedUntil (lat_observe s now tau p) = lp_ejectedUntil p"
  by (simp add: lat_observe_def Let_def)

lemma ejectedCount_observe: "ejectedCount (ps[i := lat_observe s now tau (ps ! i)]) t = ejectedCount ps t"
proof (cases "i < length ps")
  case True
  have "map lp_ejectedUntil (ps[i := lat_observe s now tau (ps ! i)]) = map lp_ejectedUntil ps"
    using True by (simp add: map_update list_update_same_conv)
  moreover have "ejectedCount qs t = length (filter (\<lambda>u. u > t) (map lp_ejectedUntil qs))" for qs
    by (induction qs) (simp_all add: ejectedCount_def)
  ultimately show ?thesis by (simp only:)
qed (simp add: list_update_beyond)

text \<open>What one record does to the deadlines: nothing, one cleared, or one set under the caps.\<close>

lemma la_record_cases:
  assumes "la_record now now' now'' i d r l = (l', evs)"
  obtains (same) "\<And>t. ejectedCount (la_peers l') t = ejectedCount (la_peers l) t"
      and "\<And>j. lp_ejectedUntil (la_peers l' ! j) = lp_ejectedUntil (la_peers l ! j)"
  | (heal) p where "la_peers l' = (la_peers l)[i := p]" and "lp_ejectedUntil p = 0"
  | (eject) p where "la_peers l' = (la_peers l)[i := p]" and "lp_ejectedUntil (la_peers l ! i) \<le> now''"
      and "(int (ejectedCount (la_peers l) now') + 1) * 100 \<le> la_MaxEjectionPercent l * int (length (la_peers l))"
      and "(int (ejectedCount (la_peers l) now') + 1) * 100 \<le> la_PanicThreshold l * int (length (la_peers l))"
proof -
  let ?p = "lat_observe (real_of_int d) now (la_tau l) (la_peers l ! i)"
  let ?ps = "(la_peers l)[i := ?p]"
  have keep: "ejectedCount ?ps t = ejectedCount (la_peers l) t" for t by (rule ejectedCount_observe)
  have keep': "lp_ejectedUntil (?ps ! j) = lp_ejectedUntil (la_peers l ! j)" for j
    by (cases "i < length (la_peers l)") (auto simp: nth_list_update list_update_beyond)
  have len: "length ?ps = length (la_peers l)" by simp
  from assms consider (a) "la_peers l' = la_peers l" | (b) "la_peers l' = ?ps"
    | (c) "la_peers l' = ?ps[i := fst (maybeHeal l ?p)]"
    | (d) "la_peers l' = ?ps[i := fst (la_eject l now'' ?p)]"
      "(int (ejectedCount ?ps now') + 1) * 100 \<le> la_MaxEjectionPercent l * int (length ?ps)"
      "(int (ejectedCount ?ps now') + 1) * 100 \<le> la_PanicThreshold l * int (length ?ps)"
    by (auto simp: la_record_def Let_def split: sum.splits if_splits prod.splits)
  then show thesis
  proof cases
    case c
    show thesis
    proof (cases "lp_ejections ?p \<noteq> 0 \<or> lp_ejectedUntil ?p \<noteq> 0")
      case True
      with c heal [of "fst (maybeHeal l ?p)"] show thesis by (simp add: maybeHeal_def)
    next
      case False
      with c have "la_peers l' = ?ps" by (simp add: maybeHeal_def)
      with keep keep' same show thesis by simp
    qed
  next
    case d
    show thesis
    proof (cases "lp_ejectedUntil ?p > now''")
      case True
      with d have "la_peers l' = ?ps" by (simp add: la_eject_def Let_def)
      with keep keep' same show thesis by simp
    next
      case False
      with d keep len eject [of "fst (la_eject l now'' ?p)"] show thesis by simp
    qed
  qed (use keep keep' same in simp_all)
qed

section \<open>Properties\<close>

text \<open>
  The pool is never drained: if at most \<^verbatim>\<open>MaxEjectionPercent\<close> of the targets are ejected before
  a result is recorded, then at most as many are at any time after it, whatever the latency was.
\<close>

theorem latency_ejection_cap:
  assumes "la_record now now' now'' i d r l = (l', evs)" and "now' \<le> t" and "0 \<le> now'"
    and "int (ejectedCount (la_peers l) now') * 100 \<le> la_MaxEjectionPercent l * int (length (la_peers l))"
  shows "int (ejectedCount (la_peers l') t) * 100 \<le> la_MaxEjectionPercent l * int (length (la_peers l))"
  using assms(1)
proof (cases rule: la_record_cases)
  case same
  from ejectedCount_mono [OF assms(2), of "la_peers l"]
  have "int (ejectedCount (la_peers l) t) * 100 \<le> int (ejectedCount (la_peers l) now') * 100" by simp
  with assms(4) same(1) [of t] show ?thesis by simp
next
  case (heal p)
  have "ejectedCount (la_peers l') t \<le> ejectedCount (la_peers l) now'"
    using ejectedCount_update [of "la_peers l" i p t] ejectedCount_mono [OF assms(2), of "la_peers l"]
      heal assms(2,3) by simp
  then have "int (ejectedCount (la_peers l') t) * 100 \<le> int (ejectedCount (la_peers l) now') * 100" by simp
  with assms(4) show ?thesis by linarith
next
  case (eject p)
  have "ejectedCount (la_peers l') t \<le> ejectedCount (la_peers l) now' + 1"
    using ejectedCount_update [of "la_peers l" i p t] ejectedCount_mono [OF assms(2), of "la_peers l"] eject(1)
    by (simp split: if_splits)
  then have "int (ejectedCount (la_peers l') t) * 100 \<le> (int (ejectedCount (la_peers l) now') + 1) * 100" by simp
  with eject(3) show ?thesis by linarith
qed

text \<open>A pool of four with the default limits, and one of three.\<close>

definition la_pool :: "nat \<Rightarrow> LatencyEjectingLoadBalancer" where
  "la_pool n = la_init (NewLatencyEjectingLoadBalancer
     (replicate n \<lparr>tg_Host = ''a'', tg_Weight = 0, tg_MaxConcurrent = 0\<rparr>))"

lemma la_pool_fields:
  "la_peers (la_pool n) = replicate n (fresh_lat \<lparr>tg_Host = ''a'', tg_Weight = 0, tg_MaxConcurrent = 0\<rparr>)"
  "la_MaxEjectionPercent (la_pool n) = 30" "la_PanicThreshold (la_pool n) = 50" "la_gate (la_pool n) = None"
  "la_i (la_pool n) = 0" "la_MinSamples (la_pool n) = 100"
  by (simp_all add: la_pool_def la_init_def NewLatencyEjectingLoadBalancer_def map_replicate_const Let_def)

theorem latency_ejection_cap_witness:
  "int (ejectedCount (la_peers (fst (la_record 5 5 5 0 7 (Inr 200) (la_pool 4)))) 6) * 100 \<le> 120"
proof -
  have "int (ejectedCount (la_peers (la_pool 4)) 5) * 100
      \<le> la_MaxEjectionPercent (la_pool 4) * int (length (la_peers (la_pool 4)))"
    by (simp add: la_pool_fields ejectedCount_def fresh_lat_def)
  from latency_ejection_cap [OF surjective_pairing _ _ this, of 6 5 5 0 7 "Inr 200"]
  show ?thesis by (simp add: la_pool_fields)
qed

text \<open>
  Only outliers are ejected: a record that moves a deadline into the future found the target's
  decayed mean at or above the pool median times \<^verbatim>\<open>EjectionFactor\<close> and at least \<^verbatim>\<open>MinEjectDelta\<close> above it,
  with at least \<^verbatim>\<open>MinSamples\<close> samples and \<^verbatim>\<open>MinHosts\<close> eligible targets.
\<close>

theorem latency_ejects_only_outliers:
  assumes "la_record now now' now'' i d r l = (l', evs)" and "i < length (la_peers l)"
    and "lp_ejectedUntil (la_peers l' ! j) > max 0 (lp_ejectedUntil (la_peers l ! j))"
  shows "\<exists>p median eligible. j = i \<and> p = lat_observe (real_of_int d) now (la_tau l) (la_peers l ! i)
    \<and> poolMedian (la_MinSamples l) ((la_peers l)[i := p]) = (median, eligible)
    \<and> lp_ewma p \<ge> median * la_EjectionFactor l \<and> lp_ewma p \<ge> median + real_of_int (la_MinEjectDelta l)
    \<and> lp_ewma p \<ge> real_of_int (la_MinEjectLatency l)
    \<and> la_MinHosts l \<le> eligible \<and> la_MinSamples l \<le> lp_samples p"
proof -
  define p where "p = lat_observe (real_of_int d) now (la_tau l) (la_peers l ! i)"
  let ?ps = "(la_peers l)[i := p]"
  obtain median eligible where m: "poolMedian (la_MinSamples l) ?ps = (median, eligible)" by (cases "poolMedian (la_MinSamples l) ?ps")
  have up: "lp_ejectedUntil p = lp_ejectedUntil (la_peers l ! i)" by (simp add: p_def)
  have keep: "lp_ejectedUntil (?ps ! j) = lp_ejectedUntil (la_peers l ! j)"
    using up assms(2) by (cases "i = j") simp_all
  have heal: "lp_ejectedUntil (fst (maybeHeal l p)) \<in> {0, lp_ejectedUntil p}"
    by (simp add: maybeHeal_def)
  have "lp_ejectedUntil (?ps[i := fst (maybeHeal l p)] ! j) \<le> max 0 (lp_ejectedUntil (la_peers l ! j))"
    using heal keep up assms(2) by (cases "i = j") auto
  with assms(1,3) keep m have "\<not> lp_samples p < la_MinSamples l" "\<not> eligible < la_MinHosts l"
    "\<not> la_tolerated l (lp_ewma p) median"
    and l': "la_peers l' = ?ps \<or> la_peers l' = ?ps[i := fst (la_eject l now'' p)]"
    unfolding la_record_def p_def [symmetric]
    by (auto simp: Let_def split: sum.splits if_splits prod.splits)
  moreover have "j = i" using l' assms(2,3) keep by (cases "j = i") auto
  ultimately show ?thesis using m unfolding p_def la_tolerated_def by auto
qed

text \<open>Three targets at 10 ns with one sample each and an unseeded fourth; the limits are small.\<close>

definition la_slow :: LatencyEjectingLoadBalancer where
  "la_slow = (la_pool 4)\<lparr>la_MinSamples := 1, la_MinEjectDelta := 1,
     la_peers := (la_peers (la_pool 4))[0 := (la_peers (la_pool 4) ! 0)\<lparr>lp_ewma := 10, lp_samples := 1\<rparr>,
       1 := (la_peers (la_pool 4) ! 1)\<lparr>lp_ewma := 10, lp_samples := 1\<rparr>,
       2 := (la_peers (la_pool 4) ! 2)\<lparr>lp_ewma := 10, lp_samples := 1\<rparr>]\<rparr>"

lemma la_slow_peers:
  "la_peers la_slow = (let p = fresh_lat \<lparr>tg_Host = ''a'', tg_Weight = 0, tg_MaxConcurrent = 0\<rparr>;
      q = p\<lparr>lp_ewma := 10, lp_samples := 1\<rparr> in [q, q, q, p])"
  by (simp add: la_slow_def la_pool_fields eval_nat_numeral Let_def)

lemma la_slow_fields:
  "la_MinSamples la_slow = 1" "la_MinHosts la_slow = 3" "la_EjectionFactor la_slow = 3" "la_MinEjectDelta la_slow = 1"
  "la_MinEjectLatency la_slow = 0" "la_MaxEjectionPercent la_slow = 30" "la_PanicThreshold la_slow = 50"
  "la_EjectTimeout la_slow = 30000000000" "la_MaxEjectTimeout la_slow = 300000000000" "\<not> la_observed la_slow"
  by (simp_all add: la_slow_def la_pool_def la_init_def NewLatencyEjectingLoadBalancer_def Let_def)

lemma la_slow_median:
  "poolMedian 1 ((la_peers la_slow)[3 := lat_observe 1000 5 tau (la_peers la_slow ! 3)]) = (10, 4)"
  by (simp add: poolMedian_def la_slow_peers lat_observe_def fresh_lat_def Let_def)

lemma la_slow_eject:
  "lp_ejectedUntil (la_peers (fst (la_record 5 5 5 3 1000 (Inr 200) la_slow)) ! 3) = 30000000005"
proof -
  let ?p = "lat_observe 1000 5 (la_tau la_slow) (la_peers la_slow ! 3)"
  let ?ps = "(la_peers la_slow)[3 := ?p]"
  have p: "lp_samples ?p = 1" "lp_ewma ?p = 1000" "lp_ejections ?p = 0"
    "lp_ejectedUntil (la_peers la_slow ! 3) = 0"
    by (simp_all add: lat_observe_def la_slow_peers fresh_lat_def Let_def)
  have n: "length (la_peers la_slow) = 4" and c: "ejectedCount ?ps 5 = 0"
    by (simp_all add: ejectedCount_observe) (simp_all add: la_slow_peers fresh_lat_def ejectedCount_def Let_def)
  have "la_ejectionTimeout la_slow (s32 (0 + 1)) = 30000000000"
    by (simp add: la_ejectionTimeout_def la_slow_fields backoff_def s32_def)
  then show ?thesis
    by (simp add: la_record_def la_slow_median [unfolded One_nat_def] p n c la_slow_fields la_tolerated_def la_eject_def Let_def)
qed

theorem latency_ejects_only_outliers_witness:
  "\<exists>p median eligible. p = lat_observe 1000 5 (la_tau la_slow) (la_peers la_slow ! 3)
    \<and> poolMedian 1 ((la_peers la_slow)[3 := p]) = (median, eligible) \<and> lp_ewma p \<ge> median * 3 \<and> 3 \<le> eligible"
proof -
  let ?r = "la_record 5 5 5 3 1000 (Inr 200) la_slow"
  have i: "3 < length (la_peers la_slow)" by (simp add: la_slow_peers Let_def)
  have "lp_ejectedUntil (la_peers la_slow ! 3) = 0" by (simp add: la_slow_peers fresh_lat_def Let_def)
  then have "lp_ejectedUntil (la_peers (fst ?r) ! 3) > max 0 (lp_ejectedUntil (la_peers la_slow ! 3))"
    by (simp add: la_slow_eject)
  from latency_ejects_only_outliers [OF surjective_pairing i this] show ?thesis
    by (auto simp: la_slow_fields)
qed

text \<open>
  With the default cap of 30 percent a pool of three targets or fewer never ejects: one ejection
  would already be a third of the pool, so however slow a target is, no record moves a deadline
  into the future.
\<close>

theorem latency_small_pool_never_ejects:
  assumes "la_record now now' now'' i d r (la_init l) = (l', evs)"
    and "la_MaxEjectionPercent l \<le> 0" and "length (la_Targets l) \<le> 3" and "i < length (la_Targets l)"
  shows "lp_ejectedUntil (la_peers l' ! j) = lp_ejectedUntil (la_peers (la_init l) ! j)
    \<or> lp_ejectedUntil (la_peers l' ! j) = 0"
proof -
  have n: "length (la_peers (la_init l)) = length (la_Targets l)"
    and p: "la_MaxEjectionPercent (la_init l) = 30"
    using assms(2) by (simp_all add: la_init_def Let_def)
  show ?thesis using assms(1)
  proof (cases rule: la_record_cases)
    case same
    then show ?thesis by simp
  next
    case (heal p)
    with n assms(4) show ?thesis by (cases "i = j") simp_all
  next
    case (eject p)
    with n p assms(3) show ?thesis by simp
  qed
qed

theorem latency_small_pool_never_ejects_witness:
  "lp_ejectedUntil (la_peers (fst (la_record 5 5 5 0 9000000000000 (Inr 200) (la_pool 3))) ! 0) = 0"
proof -
  let ?l = "NewLatencyEjectingLoadBalancer (replicate 3 \<lparr>tg_Host = ''a'', tg_Weight = 0, tg_MaxConcurrent = 0\<rparr>)"
  have "la_MaxEjectionPercent ?l \<le> 0" and "length (la_Targets ?l) \<le> 3" and "0 < length (la_Targets ?l)"
    by (simp_all add: NewLatencyEjectingLoadBalancer_def)
  from latency_small_pool_never_ejects [OF surjective_pairing this, of 5 5 5 9000000000000 "Inr 200" 0]
  show ?thesis by (simp add: la_pool_def [symmetric] la_pool_fields fresh_lat_def)
qed

text \<open>
  In panic the pick forgets the health gate: with three of five targets ejected it returns the
  start of the rotation although the gate marks it down and another target is neither ejected nor
  gated down.
\<close>

theorem latency_panic_ignores_gate:
  "let out = (\<lambda>p. p\<lparr>lp_ejectedUntil := 10\<rparr>);
       ps = la_peers (la_pool 5);
       l = (la_pool 5)\<lparr>la_gate := Some [False, True, True, True, True],
             la_peers := [ps ! 0, out (ps ! 1), out (ps ! 2), out (ps ! 3), ps ! 4]\<rparr>
   in fst (la_pick l 5) = Some 0 \<and> \<not> la_up l 0 \<and> la_up l 4 \<and> lp_ejectedUntil (la_peers l ! 4) \<le> 5"
  by (simp add: la_pick_def la_panic_def ejectedCount_def la_pool_fields fresh_lat_def la_up_def gate_up_def Let_def)

end
