(* ===== verification/Health_Check.thy ===== *)
theory Health_Check
  imports Upstream_Balancer "HOL-Library.Multiset"
begin

text \<open>
  \<^verbatim>\<open>ActiveHealthCheck\<close> (\<^verbatim>\<open>pkg/upstream/healthcheck.go\<close>): the defaults, the verdict of a probe and its
  classified cause, the run counters that move the gate, and the life cycle of the probers as a
  step relation in which \<^verbatim>\<open>Start\<close>, \<^verbatim>\<open>Close\<close>, requests and probers interleave.
\<close>

section \<open>State\<close>

text \<open>
  A transport error is the chain that \<^verbatim>\<open>errors.Is\<close> and \<^verbatim>\<open>errors.As\<close> walk, one tag per error in it.
\<close>

datatype err_tag =
    DNSError | DeadlineExceeded | CertificateVerificationError | RecordHeaderError
  | ECONNREFUSED | ECONNRESET | EOF | ErrUnexpectedEOF | NetTimeout | OtherError

type_synonym err_chain = "err_tag list"

text \<open>What a probe's round trip returned: the status, if there was a response, and the error.\<close>

record probe_result =
  pr_status :: "int option"
  pr_err :: "err_chain option"

record probeTarget =
  pt_target :: Target
  pt_okRun :: int
  pt_failRun :: int

record ActiveHealthCheck =
  hc_up :: "bool list"
  hc_probes :: "probeTarget list"
  hc_Targets :: "Target list"
  hc_Path :: string
  hc_Method :: string
  hc_Scheme :: string
  hc_Interval :: int
  hc_Timeout :: int
  hc_HealthyThld :: int
  hc_UnhealthyThld :: int
  hc_StartUnhealthy :: bool
  hc_IsHealthy :: "(probe_result \<Rightarrow> bool) option"
  hc_observed :: bool

definition NewActiveHealthCheck :: "Target list \<Rightarrow> ActiveHealthCheck" where
  "NewActiveHealthCheck ts =
     \<lparr>hc_up = [], hc_probes = [], hc_Targets = ts, hc_Path = '''', hc_Method = '''', hc_Scheme = '''',
      hc_Interval = 0, hc_Timeout = 0, hc_HealthyThld = 0, hc_UnhealthyThld = 0,
      hc_StartUnhealthy = False, hc_IsHealthy = None, hc_observed = False\<rparr>"

definition or_default :: "int \<Rightarrow> int \<Rightarrow> int" where
  "or_default x d = (if x \<le> 0 then d else x)"

definition hc_path :: "string \<Rightarrow> string" where
  "hc_path p = (let p1 = (if p = '''' then ''/'' else p) in if hd p1 \<noteq> CHR ''/'' then CHR ''/'' # p1 else p1)"

definition hc_init :: "ActiveHealthCheck \<Rightarrow> ActiveHealthCheck" where
  "hc_init a =
     a\<lparr>hc_Path := hc_path (hc_Path a),
       hc_Method := (if hc_Method a = '''' then ''GET'' else hc_Method a),
       hc_Scheme := (if hc_Scheme a = '''' then ''http'' else hc_Scheme a),
       hc_Interval := or_default (hc_Interval a) 10000000000,
       hc_Timeout := or_default (hc_Timeout a) 5000000000,
       hc_HealthyThld := or_default (hc_HealthyThld a) 1,
       hc_UnhealthyThld := or_default (hc_UnhealthyThld a) 3,
       hc_up := map (\<lambda>_. \<not> hc_StartUnhealthy a) (hc_Targets a),
       hc_probes := map (\<lambda>t. \<lparr>pt_target = t, pt_okRun = 0, pt_failRun = 0\<rparr>) (hc_Targets a)\<rparr>"

section \<open>The verdict of a probe\<close>

definition healthy :: "ActiveHealthCheck \<Rightarrow> probe_result \<Rightarrow> bool" where
  "healthy a r =
     (case hc_IsHealthy a of
        Some f \<Rightarrow> f r
      | None \<Rightarrow> pr_err r = None \<and> (case pr_status r of None \<Rightarrow> False | Some st \<Rightarrow> st < 400))"

definition classifyProbeCause :: "probe_result \<Rightarrow> ProbeCause" where
  "classifyProbeCause r =
     (case pr_err r of
        None \<Rightarrow> CauseStatus
      | Some e \<Rightarrow>
          if List.member e DNSError then CauseDNS
          else if List.member e DeadlineExceeded then CauseTimeout
          else if List.member e CertificateVerificationError \<or> List.member e RecordHeaderError then CauseTLS
          else if List.member e ECONNREFUSED then CauseRefused
          else if List.member e ECONNRESET \<or> List.member e EOF \<or> List.member e ErrUnexpectedEOF then CauseReset
          else if List.member e NetTimeout then CauseTimeout
          else CauseError)"

definition probe_change :: "probeTarget \<Rightarrow> bool \<Rightarrow> ProbeCause \<Rightarrow> StateChange" where
  "probe_change pt ok cause =
     (if ok then \<lparr>sc_Host = tg_Host (pt_target pt), sc_From = StateOpen, sc_To = StateClosed,
                  sc_Reason = ReasonProbeRecover, sc_Cause = CauseNone\<rparr>
      else \<lparr>sc_Host = tg_Host (pt_target pt), sc_From = StateClosed, sc_To = StateOpen,
            sc_Reason = ReasonProbeDown, sc_Cause = cause\<rparr>)"

text \<open>\<^verbatim>\<open>observe\<close> on a target and its bit of the gate.\<close>

definition hc_observe ::
  "ActiveHealthCheck \<Rightarrow> bool \<Rightarrow> ProbeCause \<Rightarrow> probeTarget \<times> bool \<Rightarrow> (probeTarget \<times> bool) \<times> StateChange list"
where
  "hc_observe a ok cause s =
     (case s of (pt, up) \<Rightarrow>
        if ok then
          let pt1 = pt\<lparr>pt_failRun := 0, pt_okRun := pt_okRun pt + 1\<rparr>
          in if pt_okRun pt1 \<ge> hc_HealthyThld a \<and> \<not> up
             then ((pt1, True), if hc_observed a then [probe_change pt True cause] else [])
             else ((pt1, up), [])
        else
          let pt1 = pt\<lparr>pt_okRun := 0, pt_failRun := pt_failRun pt + 1\<rparr>
          in if pt_failRun pt1 \<ge> hc_UnhealthyThld a \<and> up
             then ((pt1, False), if hc_observed a then [probe_change pt False cause] else [])
             else ((pt1, up), []))"

text \<open>
  \<^verbatim>\<open>probe\<close>: the request is built, sent and judged. \<open>built\<close> says whether the request could be built and
  \<open>cancelled\<close> whether the prober's context is done by then, in which case nothing is observed.
\<close>

definition hc_probe ::
  "ActiveHealthCheck \<Rightarrow> bool \<Rightarrow> bool \<Rightarrow> probe_result \<Rightarrow> probeTarget \<times> bool \<Rightarrow> (probeTarget \<times> bool) \<times> StateChange list"
where
  "hc_probe a built cancelled r s =
     (if \<not> built then (if cancelled then (s, []) else hc_observe a False CauseError s)
      else if cancelled then (s, [])
      else let ok = healthy a r; cause = (if ok then CauseNone else classifyProbeCause r)
           in hc_observe a ok cause s)"

section \<open>Runs of verdicts\<close>

fun hc_observes :: "ActiveHealthCheck \<Rightarrow> (bool \<times> ProbeCause) list \<Rightarrow> probeTarget \<times> bool
    \<Rightarrow> (probeTarget \<times> bool) \<times> StateChange list"
where
  "hc_observes a [] s = (s, [])"
| "hc_observes a ((ok, cause) # vs) s =
     (case hc_observe a ok cause s of (s1, e1) \<Rightarrow>
        case hc_observes a vs s1 of (s2, e2) \<Rightarrow> (s2, e1 @ e2))"

text \<open>The gate as a specification: the newest verdict decides if it ends a run of the threshold.\<close>

fun hc_spec :: "int \<Rightarrow> int \<Rightarrow> bool \<Rightarrow> bool list \<Rightarrow> bool" where
  "hc_spec h u up [] = up"
| "hc_spec h u up (v # older) =
     (let run = int (length (takeWhile (\<lambda>w. w = v) (v # older)))
      in if v \<and> run \<ge> h then True else if \<not> v \<and> run \<ge> u then False else hc_spec h u up older)"

text \<open>Following the events of a target from a state of its bit; \<open>None\<close> if one does not fit.\<close>

fun gate_path :: "bool \<Rightarrow> StateChange list \<Rightarrow> bool option" where
  "gate_path up [] = Some up"
| "gate_path up (e # es) =
     (if up \<and> sc_From e = StateClosed \<and> sc_To e = StateOpen \<and> sc_Reason e = ReasonProbeDown then gate_path False es
      else if \<not> up \<and> sc_From e = StateOpen \<and> sc_To e = StateClosed \<and> sc_Reason e = ReasonProbeRecover
      then gate_path True es else None)"

lemma hc_observes_append:
  "hc_observes a (vs @ ws) s =
     (case hc_observes a vs s of (s1, e1) \<Rightarrow> case hc_observes a ws s1 of (s2, e2) \<Rightarrow> (s2, e1 @ e2))"
  by (induction a vs s rule: hc_observes.induct) (auto split: prod.splits)

lemma gate_path_append:
  "gate_path up es = Some up' \<Longrightarrow> gate_path up (es @ fs) = gate_path up' fs"
  by (induction up es arbitrary: up' rule: gate_path.induct) (auto split: if_splits)

lemma hc_observe_path:
  assumes "hc_observed a" and "hc_observe a ok cause (pt, up) = ((pt', up'), evs)"
  shows "gate_path up evs = Some up'"
  using assms by (auto simp: hc_observe_def Let_def probe_change_def split: if_splits)

lemma hc_observes_run:
  assumes "hc_observes a vs (\<lparr>pt_target = t, pt_okRun = 0, pt_failRun = 0\<rparr>, up) = ((pt, up'), evs)"
  shows "pt_okRun pt = int (length (takeWhile (\<lambda>v. v) (rev (map fst vs))))
    \<and> pt_failRun pt = int (length (takeWhile Not (rev (map fst vs))))
    \<and> up' = hc_spec (hc_HealthyThld a) (hc_UnhealthyThld a) up (rev (map fst vs))
    \<and> (hc_observed a \<longrightarrow> gate_path up evs = Some up')"
  using assms
proof (induction vs arbitrary: pt up' evs rule: rev_induct)
  case Nil
  then show ?case by auto
next
  case (snoc v vs)
  obtain ok cause where v: "v = (ok, cause)" by (cases v)
  obtain pt1 up1 e1 where h: "hc_observes a vs (\<lparr>pt_target = t, pt_okRun = 0, pt_failRun = 0\<rparr>, up) = ((pt1, up1), e1)"
    by (metis surj_pair)
  obtain e2 where o: "hc_observe a ok cause (pt1, up1) = ((pt, up'), e2)" and e: "evs = e1 @ e2"
    using snoc.prems h v by (auto simp: hc_observes_append split: prod.splits)
  note ih = snoc.IH [OF h]
  let ?nf = "rev (map fst vs)"
  have run: "takeWhile (\<lambda>w. w = ok) ?nf = takeWhile (if ok then (\<lambda>w. w) else Not) ?nf"
    by (cases ok) (auto intro!: takeWhile_cong)
  have "pt_okRun pt = (if ok then pt_okRun pt1 + 1 else 0)" "pt_failRun pt = (if ok then 0 else pt_failRun pt1 + 1)"
    and up': "up' = (if ok \<and> pt_okRun pt \<ge> hc_HealthyThld a then True
        else if \<not> ok \<and> pt_failRun pt \<ge> hc_UnhealthyThld a then False else up1)"
    using o by (auto simp: hc_observe_def Let_def split: if_splits)
  moreover have "hc_observed a \<Longrightarrow> gate_path up evs = Some up'"
    using ih gate_path_append [of up e1 up1 e2] hc_observe_path [OF _ o] by (simp add: e)
  ultimately show ?case using ih run by (auto simp: v Let_def)
qed

section \<open>Life cycle\<close>

datatype hc_phase = NotStarted | Inited | Spawned | Skipped

text \<open>A prober between probes, or past its check of the context with a result to observe.\<close>

datatype prober = Idle | Judged bool probe_result

text \<open>
  The state shared by \<^verbatim>\<open>start\<close>, \<^verbatim>\<open>Close\<close> and the probers: how far the one run of \<^verbatim>\<open>start\<close> has come,
  the flag of \<^verbatim>\<open>Close\<close>, whether the probers' context is done, and the probers that are alive.
\<close>

record hc_life =
  lf_phase :: hc_phase
  lf_closed :: bool
  lf_cancelled :: bool
  lf_probers :: "nat \<rightharpoonup> prober"
  lf_hc :: ActiveHealthCheck
  lf_log :: "StateChange list"

definition hc_apply :: "nat \<Rightarrow> bool \<Rightarrow> probe_result \<Rightarrow> hc_life \<Rightarrow> hc_life" where
  "hc_apply i built r s =
     (let a = lf_hc s
      in case hc_probe a built False r (hc_probes a ! i, hc_up a ! i) of ((pt, up), evs) \<Rightarrow>
           s\<lparr>lf_hc := a\<lparr>hc_probes := (hc_probes a)[i := pt], hc_up := (hc_up a)[i := up]\<rparr>,
             lf_probers := (lf_probers s)(i \<mapsto> Idle), lf_log := lf_log s @ evs\<rparr>)"

inductive hc_step :: "hc_life \<Rightarrow> hc_life \<Rightarrow> bool" where
  init: "lf_phase s = NotStarted \<Longrightarrow> hc_step s (s\<lparr>lf_phase := Inited, lf_hc := hc_init (lf_hc s)\<rparr>)"
| spawn: "lf_phase s = Inited \<Longrightarrow> \<not> lf_closed s \<Longrightarrow>
     hc_step s (s\<lparr>lf_phase := Spawned,
       lf_probers := (\<lambda>i. if i < length (hc_probes (lf_hc s)) then Some Idle else None)\<rparr>)"
| skip: "lf_phase s = Inited \<Longrightarrow> lf_closed s \<Longrightarrow>
     hc_step s (s\<lparr>lf_phase := Skipped, lf_hc := (lf_hc s)\<lparr>hc_up := map (\<lambda>_. True) (hc_up (lf_hc s))\<rparr>\<rparr>)"
| close: "hc_step s (s\<lparr>lf_closed := True, lf_cancelled := (lf_cancelled s \<or> lf_phase s = Spawned)\<rparr>)"
| context_done: "lf_phase s = Spawned \<Longrightarrow> hc_step s (s\<lparr>lf_cancelled := True\<rparr>)"
| judge: "lf_probers s i = Some Idle \<Longrightarrow> \<not> lf_cancelled s \<Longrightarrow>
     hc_step s (s\<lparr>lf_probers := (lf_probers s)(i \<mapsto> Judged built r)\<rparr>)"
| observe: "lf_probers s i = Some (Judged built r) \<Longrightarrow> hc_step s (hc_apply i built r s)"
| exit: "lf_probers s i = Some Idle \<Longrightarrow> lf_cancelled s \<Longrightarrow>
     hc_step s (s\<lparr>lf_probers := (lf_probers s)(i := None)\<rparr>)"

definition hc_start_state :: "ActiveHealthCheck \<Rightarrow> hc_life" where
  "hc_start_state a = \<lparr>lf_phase = NotStarted, lf_closed = False, lf_cancelled = False,
     lf_probers = Map.empty, lf_hc = a, lf_log = []\<rparr>"

inductive hc_steps :: "hc_life \<Rightarrow> hc_life \<Rightarrow> bool" where
  refl: "hc_steps s s"
| step: "hc_steps s s' \<Longrightarrow> hc_step s' s'' \<Longrightarrow> hc_steps s s''"

definition lf_inv :: "hc_life \<Rightarrow> bool" where
  "lf_inv s \<longleftrightarrow> (lf_phase s \<noteq> Spawned \<longrightarrow> lf_probers s = Map.empty)
     \<and> (lf_phase s = Spawned \<and> lf_closed s \<longrightarrow> lf_cancelled s)
     \<and> (lf_phase s = Skipped \<longrightarrow> lf_closed s \<and> list_all id (hc_up (lf_hc s)))
     \<and> dom (lf_probers s) \<subseteq> {..<length (hc_probes (lf_hc s))}"

lemma hc_apply_fields [simp]:
  "lf_phase (hc_apply i b r s) = lf_phase s" "lf_closed (hc_apply i b r s) = lf_closed s"
  "lf_cancelled (hc_apply i b r s) = lf_cancelled s"
  "lf_probers (hc_apply i b r s) = (lf_probers s)(i \<mapsto> Idle)"
  "length (hc_probes (lf_hc (hc_apply i b r s))) = length (hc_probes (lf_hc s))"
  "length (hc_up (lf_hc (hc_apply i b r s))) = length (hc_up (lf_hc s))"
  by (simp_all add: hc_apply_def Let_def split: prod.splits)

lemma lf_inv_prober:
  assumes "lf_inv s" and "lf_probers s i = Some x"
  shows "lf_phase s = Spawned" and "i < length (hc_probes (lf_hc s))"
proof -
  have "lf_phase s \<noteq> Spawned \<longrightarrow> lf_probers s = Map.empty" and "dom (lf_probers s) \<subseteq> {..<length (hc_probes (lf_hc s))}"
    using assms(1) by (simp_all add: lf_inv_def)
  with assms(2) show "lf_phase s = Spawned" and "i < length (hc_probes (lf_hc s))"
    by (auto dest: domI)
qed

lemma hc_step_inv:
  assumes "hc_step s s'" and "lf_inv s"
  shows "lf_inv s'"
  using assms(1)
proof cases
  case spawn
  with assms(2) show ?thesis by (auto simp: lf_inv_def split: if_splits)
next
  case (judge i built r)
  with lf_inv_prober [OF assms(2)] assms(2) show ?thesis by (simp add: lf_inv_def)
next
  case (observe i built r)
  with lf_inv_prober [OF assms(2)] assms(2) show ?thesis by (simp add: lf_inv_def)
next
  case (exit i)
  with assms(2) show ?thesis by (auto simp: lf_inv_def)
next
  case close
  with assms(2) show ?thesis by (auto simp: lf_inv_def)
qed (use assms(2) in \<open>simp_all add: lf_inv_def list_all_iff\<close>)

lemma hc_steps_inv: "hc_steps s s' \<Longrightarrow> lf_inv s \<Longrightarrow> lf_inv s'"
  by (induction rule: hc_steps.induct) (blast intro: hc_step_inv)+

lemma hc_start_inv: "lf_inv (hc_start_state a)"
  by (simp add: lf_inv_def hc_start_state_def)

text \<open>Once \<^verbatim>\<open>Close\<close> has run and no prober is alive, nothing moves the gate any more.\<close>

definition lf_quiet :: "hc_life \<Rightarrow> bool" where
  "lf_quiet s \<longleftrightarrow> lf_closed s \<and> lf_probers s = Map.empty \<and> (lf_phase s = Spawned \<or> lf_phase s = Skipped)"

lemma lf_quiet_step:
  assumes "hc_step s s'" and "lf_quiet s"
  shows "lf_quiet s' \<and> hc_up (lf_hc s') = hc_up (lf_hc s) \<and> lf_log s' = lf_log s"
  using assms by (cases rule: hc_step.cases) (auto simp: lf_quiet_def)

lemma lf_quiet_steps:
  assumes "hc_steps s s'" and "lf_quiet s"
  shows "lf_quiet s' \<and> hc_up (lf_hc s') = hc_up (lf_hc s) \<and> lf_log s' = lf_log s"
  using assms
proof (induction rule: hc_steps.induct)
  case (step s s' s'')
  then show ?case using lf_quiet_step by metis
qed simp

fun prober_work :: "prober option \<Rightarrow> nat" where
  "prober_work None = 0"
| "prober_work (Some Idle) = 1"
| "prober_work (Some (Judged built r)) = 2"

definition lf_work :: "hc_life \<Rightarrow> nat" where
  "lf_work s = (\<Sum>i < length (hc_probes (lf_hc s)). prober_work (lf_probers s i))"

lemma lf_work_upd:
  fixes m :: "nat \<Rightarrow> prober option"
  assumes "i < n" and "prober_work x < prober_work (m i)"
  shows "(\<Sum>j < n. prober_work ((m(i := x)) j)) < (\<Sum>j < n. prober_work (m j))"
  using assms by (intro sum_strict_mono_ex1) auto

section \<open>Properties\<close>

text \<open>
  The gate bit of a target is a function of its probe verdicts: it is the verdict of the newest
  run that reached its threshold (\<^verbatim>\<open>HealthyThld\<close> successes or \<^verbatim>\<open>UnhealthyThld\<close> failures in a row), or
  the initial bit when none has, and the events reported are exactly its flips, in order.
\<close>

theorem health_gate_thresholds:
  assumes "hc_observed a"
    and "hc_observes a vs (\<lparr>pt_target = t, pt_okRun = 0, pt_failRun = 0\<rparr>, up) = ((pt, up'), evs)"
  shows "up' = hc_spec (hc_HealthyThld a) (hc_UnhealthyThld a) up (rev (map fst vs))
    \<and> gate_path up evs = Some up'"
  using hc_observes_run [OF assms(2)] assms(1) by blast

definition hc_target :: Target where
  "hc_target = \<lparr>tg_Host = ''a'', tg_Weight = 0, tg_MaxConcurrent = 0\<rparr>"

definition hc_example :: ActiveHealthCheck where
  "hc_example = hc_init ((NewActiveHealthCheck [hc_target])\<lparr>hc_observed := True\<rparr>)"

theorem health_gate_thresholds_witness:
  "\<exists>pt evs. hc_observes hc_example [(False, CauseRefused), (False, CauseDNS), (False, CauseTimeout)]
       (\<lparr>pt_target = hc_target, pt_okRun = 0, pt_failRun = 0\<rparr>, True) = ((pt, False), evs)
     \<and> gate_path True evs = Some False"
proof -
  let ?vs = "[(False, CauseRefused), (False, CauseDNS), (False, CauseTimeout)]"
  have h: "hc_observed hc_example" "hc_HealthyThld hc_example = 1" "hc_UnhealthyThld hc_example = 3"
    by (simp_all add: hc_example_def hc_init_def NewActiveHealthCheck_def or_default_def)
  obtain pt up' evs where
    r: "hc_observes hc_example ?vs (\<lparr>pt_target = hc_target, pt_okRun = 0, pt_failRun = 0\<rparr>, True) = ((pt, up'), evs)"
    by (metis surj_pair)
  from health_gate_thresholds [OF h(1) r] have "up' = False" and "gate_path True evs = Some up'"
    by (simp_all add: h)
  with r show ?thesis by blast
qed

text \<open>
  \<^verbatim>\<open>Close\<close> stops probing for good, whatever it races with: after it has run no new prober ever
  starts, the probers still alive can all leave without waiting for anything, and once they have
  the gate and the events never change again. If it ran before the probers were spawned, every
  target is left up, even with \<^verbatim>\<open>StartUnhealthy\<close>.
\<close>

theorem health_close_drains:
  assumes "hc_steps (hc_start_state a) s" and "lf_closed s"
  shows "(lf_probers s \<noteq> Map.empty \<longrightarrow> (\<exists>s'. hc_step s s' \<and> lf_work s' < lf_work s))
    \<and> (\<forall>s'. hc_step s s' \<longrightarrow> dom (lf_probers s') \<subseteq> dom (lf_probers s))
    \<and> (lf_quiet s \<longrightarrow> (\<forall>s'. hc_steps s s' \<longrightarrow> hc_up (lf_hc s') = hc_up (lf_hc s) \<and> lf_log s' = lf_log s))
    \<and> (lf_phase s = Skipped \<longrightarrow> list_all id (hc_up (lf_hc s)))"
proof (intro conjI impI allI)
  have inv: "lf_inv s" by (rule hc_steps_inv [OF assms(1) hc_start_inv])
  show "list_all id (hc_up (lf_hc s))" if "lf_phase s = Skipped" using inv that by (simp add: lf_inv_def)
  show "hc_up (lf_hc s') = hc_up (lf_hc s)" "lf_log s' = lf_log s" if "lf_quiet s" "hc_steps s s'" for s'
    using lf_quiet_steps [OF that(2,1)] by simp_all
  show "dom (lf_probers s') \<subseteq> dom (lf_probers s)" if "hc_step s s'" for s'
    using that assms(2) by (cases rule: hc_step.cases) (auto split: if_splits)
  assume "lf_probers s \<noteq> Map.empty"
  then obtain i x where i: "lf_probers s i = Some x" by fastforce
  note p = lf_inv_prober [OF inv i]
  have c: "lf_cancelled s" using inv p(1) assms(2) by (simp add: lf_inv_def)
  show "\<exists>s'. hc_step s s' \<and> lf_work s' < lf_work s"
  proof (cases x)
    case Idle
    with i c hc_step.exit [of s i] lf_work_upd [OF p(2), of None "lf_probers s"] show ?thesis
      by (intro exI [of _ "s\<lparr>lf_probers := (lf_probers s)(i := None)\<rparr>"]) (simp add: lf_work_def)
  next
    case (Judged built r)
    with i hc_step.observe [of s i built r] lf_work_upd [OF p(2), of "Some Idle" "lf_probers s"] show ?thesis
      by (intro exI [of _ "hc_apply i built r s"]) (simp add: lf_work_def)
  qed
qed

theorem health_close_drains_witness:
  "\<exists>s. hc_steps (hc_start_state (NewActiveHealthCheck [hc_target])) s \<and> lf_closed s
     \<and> lf_probers s \<noteq> Map.empty \<and> (\<exists>s'. hc_step s s' \<and> lf_work s' < lf_work s)"
proof -
  let ?s0 = "hc_start_state (NewActiveHealthCheck [hc_target])"
  let ?s1 = "?s0\<lparr>lf_phase := Inited, lf_hc := hc_init (lf_hc ?s0)\<rparr>"
  let ?s2 = "?s1\<lparr>lf_phase := Spawned, lf_probers := (\<lambda>i. if i < length (hc_probes (lf_hc ?s1)) then Some Idle else None)\<rparr>"
  let ?s3 = "?s2\<lparr>lf_closed := True, lf_cancelled := (lf_cancelled ?s2 \<or> lf_phase ?s2 = Spawned)\<rparr>"
  have "hc_step ?s0 ?s1" by (rule hc_step.init) (simp add: hc_start_state_def)
  moreover have "hc_step ?s1 ?s2" by (rule hc_step.spawn) (simp_all add: hc_start_state_def)
  moreover have "hc_step ?s2 ?s3" by (rule hc_step.close)
  ultimately have r: "hc_steps ?s0 ?s3" by (blast intro: hc_steps.intros)
  have "length (hc_probes (lf_hc ?s1)) = 1" by (simp add: hc_start_state_def hc_init_def NewActiveHealthCheck_def)
  then have ne: "lf_probers ?s3 \<noteq> Map.empty" by (auto simp: fun_eq_iff)
  have c: "lf_closed ?s3" by simp
  from health_close_drains [OF r c] ne r c show ?thesis by blast
qed

end
