(* ===== verification/Go_Strings.thy ===== *)
theory Go_Strings
  imports Parapet_Prelude
begin

text \<open>
  The parts of Go's \<^verbatim>\<open>strings\<close> and \<^verbatim>\<open>path\<close> packages the middlewares use, on strings as lists of
  bytes: prefixes and suffixes, splitting and joining, ASCII case, trimming, and \<^verbatim>\<open>path.Clean\<close>.
\<close>

section \<open>Prefixes and suffixes\<close>

fun HasPrefix :: "'a list \<Rightarrow> 'a list \<Rightarrow> bool" where
  "HasPrefix s [] \<longleftrightarrow> True"
| "HasPrefix [] (p # ps) \<longleftrightarrow> False"
| "HasPrefix (x # xs) (p # ps) \<longleftrightarrow> x = p \<and> HasPrefix xs ps"

definition HasSuffix :: "'a list \<Rightarrow> 'a list \<Rightarrow> bool" where
  "HasSuffix s p \<longleftrightarrow> HasPrefix (rev s) (rev p)"

definition TrimPrefix :: "'a list \<Rightarrow> 'a list \<Rightarrow> 'a list" where
  "TrimPrefix s p = (if HasPrefix s p then drop (length p) s else s)"

definition TrimSuffix :: "'a list \<Rightarrow> 'a list \<Rightarrow> 'a list" where
  "TrimSuffix s p = (if HasSuffix s p then take (length s - length p) s else s)"

lemma HasPrefix_iff: "HasPrefix s p \<longleftrightarrow> (\<exists>t. s = p @ t)"
  by (induction s p rule: HasPrefix.induct) auto

lemma HasPrefix_append [simp]: "HasPrefix (p @ t) p"
  by (auto simp: HasPrefix_iff)

lemma HasSuffix_iff: "HasSuffix s p \<longleftrightarrow> (\<exists>t. s = t @ p)"
  by (simp add: HasSuffix_def HasPrefix_iff) (metis rev_append rev_rev_ident)

lemma HasSuffix_append [simp]: "HasSuffix (t @ p) p"
  by (auto simp: HasSuffix_iff)

lemma TrimPrefix_append [simp]: "TrimPrefix (p @ t) p = t"
  by (simp add: TrimPrefix_def)

lemma TrimSuffix_append [simp]: "TrimSuffix (t @ p) p = t"
  by (simp add: TrimSuffix_def)

fun Contains :: "'a list \<Rightarrow> 'a list \<Rightarrow> bool" where
  "Contains [] sub \<longleftrightarrow> sub = []"
| "Contains (c # s) sub \<longleftrightarrow> HasPrefix (c # s) sub \<or> Contains s sub"

lemma Contains_iff: "Contains s sub \<longleftrightarrow> (\<exists>a b. s = a @ sub @ b)"
proof (induction s)
  case (Cons c s)
  have "(\<exists>a b. c # s = a @ sub @ b) \<longleftrightarrow> (\<exists>t. c # s = sub @ t) \<or> (\<exists>a b. s = a @ sub @ b)"
    by (metis append_Cons append_Nil list.exhaust list.inject)
  then show ?case
    using Cons by (simp add: HasPrefix_iff)
qed simp

section \<open>Splitting and joining\<close>

text \<open>\<^verbatim>\<open>strings.Split\<close> with a separator of one byte.\<close>

fun split_on :: "'a \<Rightarrow> 'a list \<Rightarrow> 'a list list" where
  "split_on c [] = [[]]"
| "split_on c (x # xs) =
     (if x = c then [] # split_on c xs
      else case split_on c xs of [] \<Rightarrow> [[x]] | y # ys \<Rightarrow> (x # y) # ys)"

fun join_with :: "'a \<Rightarrow> 'a list list \<Rightarrow> 'a list" where
  "join_with c [] = []"
| "join_with c [x] = x"
| "join_with c (x # y # ys) = x @ c # join_with c (y # ys)"

lemma split_on_not_Nil [simp]: "split_on c xs \<noteq> []"
  by (induction xs) (auto split: list.splits)

lemma split_on_no_sep: "s \<in> set (split_on c xs) \<Longrightarrow> c \<notin> set s"
  by (induction xs arbitrary: s) (auto split: list.splits if_splits)

lemma split_on_app:
  "c \<notin> set x \<Longrightarrow> split_on c (x @ c # xs) = x # split_on c xs"
  by (induction x) auto

lemma split_on_id: "c \<notin> set x \<Longrightarrow> split_on c x = [x]"
  by (induction x) auto

lemma split_join:
  "ss \<noteq> [] \<Longrightarrow> \<forall>s \<in> set ss. c \<notin> set s \<Longrightarrow> split_on c (join_with c ss) = ss"
  by (induction c ss rule: join_with.induct) (auto simp: split_on_id split_on_app)

lemma join_with_Cons: "ys \<noteq> [] \<Longrightarrow> join_with c (x # ys) = x @ c # join_with c ys"
  by (cases ys) simp_all

lemma join_split: "join_with c (split_on c xs) = xs"
proof (induction xs)
  case (Cons x xs)
  then show ?case
    by (cases "split_on c xs"; cases "tl (split_on c xs)") (auto simp: join_with_Cons)
qed simp

lemma split_snoc_sep: "split_on c (xs @ [c]) = split_on c xs @ [[]]"
  by (induction xs) (auto split: list.splits)

section \<open>path.Clean\<close>

text \<open>
  One element of the path: empty ones and \<open>.\<close> are dropped, \<open>..\<close> removes the element before it, is
  dropped at the root, and stays at the front of a relative path.
\<close>

definition clean_step :: "bool \<Rightarrow> string list \<Rightarrow> string \<Rightarrow> string list" where
  "clean_step rooted out seg =
     (if seg = '''' \<or> seg = ''.'' then out
      else if seg = ''..'' then
        (if out \<noteq> [] \<and> last out \<noteq> ''..'' then butlast out else if rooted then out else out @ [''..''])
      else out @ [seg])"

definition path_Clean :: "string \<Rightarrow> string" where
  "path_Clean p =
     (if p = '''' then ''.''
      else let rooted = (hd p = CHR ''/'');
               out = foldl (clean_step rooted) [] (split_on CHR ''/'' p)
           in if rooted then CHR ''/'' # join_with CHR ''/'' out
              else if out = [] then ''.'' else join_with CHR ''/'' out)"

text \<open>An element a rooted clean path may have.\<close>

definition plain_seg :: "string \<Rightarrow> bool" where
  "plain_seg s \<longleftrightarrow> s \<noteq> '''' \<and> s \<noteq> ''.'' \<and> s \<noteq> ''..'' \<and> CHR ''/'' \<notin> set s"

lemma clean_rooted_plain:
  assumes "\<forall>s \<in> set ss. CHR ''/'' \<notin> set s" and "\<forall>s \<in> set out. plain_seg s"
  shows "\<forall>s \<in> set (foldl (clean_step True) out ss). plain_seg s"
  using assms
proof (induction ss arbitrary: out)
  case (Cons s ss)
  have "\<forall>x \<in> set (clean_step True out s). plain_seg x"
    using Cons.prems by (auto simp: clean_step_def plain_seg_def dest: in_set_butlastD)
  with Cons show ?case by simp
qed simp

lemma path_Clean_rooted:
  assumes "p \<noteq> ''''" and "hd p = CHR ''/''"
  shows "\<exists>ss. path_Clean p = CHR ''/'' # join_with CHR ''/'' ss \<and> (\<forall>s \<in> set ss. plain_seg s)"
  using assms clean_rooted_plain [of "split_on CHR ''/'' p" "[]"] split_on_no_sep [of _ "CHR ''/''" p]
  by (auto simp: path_Clean_def Let_def)

section \<open>ASCII case, trimming and cutting\<close>

text \<open>
  \<^verbatim>\<open>ToLower\<close>, \<^verbatim>\<open>ToUpper\<close>, \<^verbatim>\<open>EqualFold\<close> and \<^verbatim>\<open>TrimSpace\<close> on ASCII text: a byte above 127 has no case and is
  no space.
\<close>

definition byte :: "char \<Rightarrow> nat" where
  "byte c = of_char c"

definition is_upper :: "char \<Rightarrow> bool" where
  "is_upper c \<longleftrightarrow> 65 \<le> byte c \<and> byte c \<le> 90"

definition is_lower :: "char \<Rightarrow> bool" where
  "is_lower c \<longleftrightarrow> 97 \<le> byte c \<and> byte c \<le> 122"

definition is_digit :: "char \<Rightarrow> bool" where
  "is_digit c \<longleftrightarrow> 48 \<le> byte c \<and> byte c \<le> 57"

definition lower :: "char \<Rightarrow> char" where
  "lower c = (if is_upper c then char_of (byte c + 32) else c)"

definition upper :: "char \<Rightarrow> char" where
  "upper c = (if is_lower c then char_of (byte c - 32) else c)"

definition ToLower :: "string \<Rightarrow> string" where
  "ToLower s = map lower s"

definition ToUpper :: "string \<Rightarrow> string" where
  "ToUpper s = map upper s"

definition EqualFold :: "string \<Rightarrow> string \<Rightarrow> bool" where
  "EqualFold s t \<longleftrightarrow> ToLower s = ToLower t"

definition is_space :: "char \<Rightarrow> bool" where
  "is_space c \<longleftrightarrow> byte c = 32 \<or> 9 \<le> byte c \<and> byte c \<le> 13"

definition TrimLeft_by :: "('a \<Rightarrow> bool) \<Rightarrow> 'a list \<Rightarrow> 'a list" where
  "TrimLeft_by p s = dropWhile p s"

definition TrimRight_by :: "('a \<Rightarrow> bool) \<Rightarrow> 'a list \<Rightarrow> 'a list" where
  "TrimRight_by p s = rev (dropWhile p (rev s))"

definition TrimSpace :: "string \<Rightarrow> string" where
  "TrimSpace s = TrimRight_by is_space (TrimLeft_by is_space s)"

definition Trim_char :: "string \<Rightarrow> char \<Rightarrow> string" where
  "Trim_char s q = TrimRight_by (\<lambda>c. c = q) (TrimLeft_by (\<lambda>c. c = q) s)"

text \<open>\<^verbatim>\<open>strings.Cut\<close> with a separator of one byte, and \<^verbatim>\<open>IndexByte\<close>.\<close>

fun Cut :: "'a \<Rightarrow> 'a list \<Rightarrow> 'a list \<times> 'a list \<times> bool" where
  "Cut c [] = ([], [], False)"
| "Cut c (x # xs) = (if x = c then ([], xs, True) else case Cut c xs of (a, b, ok) \<Rightarrow> (x # a, b, ok))"

definition IndexByte :: "'a list \<Rightarrow> 'a \<Rightarrow> int" where
  "IndexByte s c = (if c \<in> set s then int (length (takeWhile (\<lambda>x. x \<noteq> c) s)) else -1)"

lemma Cut_found: "Cut c s = (a, b, True) \<Longrightarrow> s = a @ c # b \<and> c \<notin> set a"
  by (induction s arbitrary: a) (auto split: if_splits prod.splits)

lemma Cut_missing: "c \<notin> set s \<Longrightarrow> Cut c s = (s, [], False)"
  by (induction s) auto

lemma Cut_append: "c \<notin> set a \<Longrightarrow> Cut c (a @ c # b) = (a, b, True)"
  by (induction a) auto

lemma byte_less: "byte c < 256"
  by (simp add: byte_def)

lemma byte_eq: "byte c = byte d \<longleftrightarrow> c = d"
  by (simp add: byte_def)

lemma byte_char_of: "n < 256 \<Longrightarrow> byte (char_of n) = n"
  by (simp add: byte_def)

lemma lower_not_upper [simp]: "\<not> is_upper (lower c)"
  using byte_less [of c] by (auto simp: lower_def is_upper_def byte_char_of)

lemma lower_id: "\<not> is_upper c \<Longrightarrow> lower c = c"
  by (simp add: lower_def)

lemma ToLower_idem [simp]: "ToLower (ToLower s) = ToLower s"
  by (simp add: ToLower_def lower_id)

lemma ToLower_append: "ToLower (s @ t) = ToLower s @ ToLower t"
  by (simp add: ToLower_def)

section \<open>Decimal numbers\<close>

text \<open>
  \<^verbatim>\<open>strconv.ParseInt\<close> with base 10 and 64 bits: an optional sign, then digits only, within the range
  of \<^verbatim>\<open>int64\<close>.
\<close>

definition digits_val :: "string \<Rightarrow> int" where
  "digits_val s = foldl (\<lambda>v c. 10 * v + (int (byte c) - 48)) 0 s"

definition ParseInt :: "string \<Rightarrow> int option" where
  "ParseInt s =
     (let neg = (s \<noteq> [] \<and> hd s = CHR ''-'');
          ds = (if s \<noteq> [] \<and> (hd s = CHR ''-'' \<or> hd s = CHR ''+'') then tl s else s);
          v = (if neg then - digits_val ds else digits_val ds)
      in if ds \<noteq> [] \<and> list_all is_digit ds \<and> - (2 ^ 63) \<le> v \<and> v < 2 ^ 63 then Some v else None)"

definition digit_char :: "nat \<Rightarrow> char" where
  "digit_char d = char_of (48 + d)"

function nat_digits :: "nat \<Rightarrow> string" where
  "nat_digits n = (if n < 10 then [digit_char n] else nat_digits (n div 10) @ [digit_char (n mod 10)])"
  by pat_completeness auto

termination
  by (relation "measure id") auto

declare nat_digits.simps [simp del]

definition FormatInt :: "int \<Rightarrow> string" where
  "FormatInt v = (if v < 0 then CHR ''-'' # nat_digits (nat (- v)) else nat_digits (nat v))"

lemma digit_char_byte: "d < 10 \<Longrightarrow> byte (digit_char d) = 48 + d"
  by (simp add: digit_char_def byte_char_of)

lemma is_digit_char: "d < 10 \<Longrightarrow> is_digit (digit_char d)"
  by (simp add: is_digit_def digit_char_byte)

lemma nat_digits_digit: "list_all is_digit (nat_digits n)"
  by (induction n rule: nat_digits.induct) (subst nat_digits.simps, auto simp: is_digit_char)

lemma nat_digits_not_Nil: "nat_digits n \<noteq> []"
  by (subst nat_digits.simps) simp

lemma digits_val_snoc: "digits_val (s @ [c]) = 10 * digits_val s + (int (byte c) - 48)"
  by (simp add: digits_val_def)

lemma digits_val_nat_digits: "digits_val (nat_digits n) = int n"
proof (induction n rule: nat_digits.induct)
  case (1 n)
  have "10 * int (n div 10) + int (n mod 10) = int n"
    using mult_div_mod_eq [of 10 n] by (metis of_nat_add of_nat_mult of_nat_numeral)
  with 1 show ?case
    by (subst nat_digits.simps) (auto simp: digits_val_snoc digit_char_byte, simp add: digits_val_def digit_char_byte)
qed

lemma ParseInt_range: "ParseInt s = Some v \<Longrightarrow> - (2 ^ 63) \<le> v \<and> v < 2 ^ 63"
  by (auto simp: ParseInt_def Let_def split: if_splits)

lemma nat_digits_hd: "hd (nat_digits n) \<noteq> CHR ''-'' \<and> hd (nat_digits n) \<noteq> CHR ''+''"
proof -
  have "hd (nat_digits n) \<in> set (nat_digits n)" by (simp add: nat_digits_not_Nil)
  then have "is_digit (hd (nat_digits n))"
    using nat_digits_digit [of n] by (simp add: list_all_iff)
  then show ?thesis by (auto simp: is_digit_def byte_def)
qed

lemma ParseInt_FormatInt:
  assumes "- (2 ^ 63) \<le> v" "v < 2 ^ 63"
  shows "ParseInt (FormatInt v) = Some v"
proof (cases "v < 0")
  case True
  have "digits_val (nat_digits (nat (- v))) = - v"
    using True by (simp add: digits_val_nat_digits)
  then show ?thesis
    using True assms by (simp add: ParseInt_def FormatInt_def Let_def nat_digits_digit nat_digits_not_Nil)
next
  case False
  have "digits_val (nat_digits (nat v)) = v"
    using False by (simp add: digits_val_nat_digits)
  then show ?thesis
    using False assms
    by (simp add: ParseInt_def FormatInt_def Let_def nat_digits_digit nat_digits_not_Nil nat_digits_hd)
qed

end
