(* ===== verification/Upstream_Proxy.thy ===== *)
theory Upstream_Proxy
  imports Upstream_Balancer Go_Strings
begin

text \<open>
  \<^verbatim>\<open>Upstream\<close> (\<^verbatim>\<open>pkg/upstream/upstream.go\<close>): the rewriting of a request for the backend, the retry loop
  in the proxy's error handler, the observation of a round trip, and the single-host transport.

  \<^verbatim>\<open>httputil.ReverseProxy\<close> is modelled as far as the code relies on it: it clones the request, applies
  the director to the clone, sends it, and hands the error handler the clone it sent. The parsed
  target of \<^verbatim>\<open>m.Path\<close> is a field; the transport, which also resolves the host, is a parameter.
\<close>

section \<open>Requests\<close>

text \<open>
  A body is \<open>None\<close> for none; \<^verbatim>\<open>GetBody\<close> is \<open>None\<close> for nil, and otherwise gives a fresh copy or fails.
  \<open>rq_retry\<close> is the retry index carried in the context.
\<close>

record Request =
  rq_Method :: string
  rq_Path :: string
  rq_RawPath :: string
  rq_RawQuery :: string
  rq_Host :: string
  rq_URLHost :: string
  rq_Body :: "string option"
  rq_GetBody :: "string option option"
  rq_retry :: int

text \<open>A GET as it comes from a client.\<close>

definition get_request :: "string \<Rightarrow> Request" where
  "get_request p = \<lparr>rq_Method = ''GET'', rq_Path = p, rq_RawPath = '''', rq_RawQuery = '''',
     rq_Host = ''h'', rq_URLHost = '''', rq_Body = None, rq_GetBody = None, rq_retry = 0\<rparr>"

record RoundTripInfo =
  ri_Host :: string
  ri_Status :: int
  ri_Err :: "up_error option"
  ri_Attempt :: int

record Upstream =
  up_targetPath :: string
  up_targetQuery :: string
  up_Host :: string
  up_Retries :: int
  up_BackoffFactor :: int
  up_RetryPolicy :: "(Request \<Rightarrow> bool) option"
  up_observed :: bool

text \<open>\<^verbatim>\<open>New\<close>, with the target of the default path.\<close>

definition New :: Upstream where
  "New = \<lparr>up_targetPath = ''/'', up_targetQuery = '''', up_Host = '''', up_Retries = 3,
     up_BackoffFactor = 50000000, up_RetryPolicy = None, up_observed = False\<rparr>"

section \<open>Rewriting\<close>

definition cleanRequestPath :: "string \<Rightarrow> string" where
  "cleanRequestPath p =
     (if p = '''' then ''/''
      else let trailing = HasSuffix p ''/'';
               cleaned = path_Clean p;
               cleaned1 = (if cleaned = ''.'' then ''/'' else cleaned)
           in if trailing \<and> \<not> HasSuffix cleaned1 ''/'' then cleaned1 @ ''/'' else cleaned1)"

definition singleJoiningSlash :: "string \<Rightarrow> string \<Rightarrow> string" where
  "singleJoiningSlash a b =
     (let aslash = HasSuffix a ''/''; bslash = HasPrefix b ''/''
      in if aslash \<and> bslash then a @ tl b
         else if \<not> aslash \<and> \<not> bslash then a @ ''/'' @ b
         else a @ b)"

definition director :: "Upstream \<Rightarrow> Request \<Rightarrow> Request" where
  "director m req =
     req\<lparr>rq_Path := singleJoiningSlash (up_targetPath m) (cleanRequestPath (rq_Path req)),
         rq_RawPath := '''',
         rq_RawQuery := (if up_targetQuery m = '''' \<or> rq_RawQuery req = ''''
                         then up_targetQuery m @ rq_RawQuery req
                         else up_targetQuery m @ ''&'' @ rq_RawQuery req),
         rq_Host := (if up_Host m \<noteq> '''' then up_Host m else rq_Host req)\<rparr>"

section \<open>Retries\<close>

definition canMethodRetry :: "string \<Rightarrow> bool" where
  "canMethodRetry meth \<longleftrightarrow> meth = ''GET'' \<or> meth = ''HEAD'' \<or> meth = ''OPTIONS'' \<or> meth = ''TRACE''"

definition canRetry :: "Request \<Rightarrow> bool" where
  "canRetry r \<longleftrightarrow> canMethodRetry (rq_Method r) \<and> (rq_Body r = None \<or> rq_GetBody r \<noteq> None)"

definition retryable :: "Upstream \<Rightarrow> Request \<Rightarrow> bool" where
  "retryable m r = (case up_RetryPolicy m of Some p \<Rightarrow> p r | None \<Rightarrow> canRetry r)"

text \<open>\<^verbatim>\<open>RoundTrip\<close>: the host is cleared, the transport resolves it, and the attempt is reported.\<close>

definition up_RoundTrip ::
  "Upstream \<Rightarrow> (Request \<Rightarrow> string \<times> rt_result) \<Rightarrow> Request \<Rightarrow> Request \<times> rt_result \<times> RoundTripInfo list"
where
  "up_RoundTrip m transport r =
     (let r1 = r\<lparr>rq_URLHost := ''''\<rparr>
      in case transport r1 of (host, res) \<Rightarrow>
           (r1\<lparr>rq_URLHost := host\<rparr>, res,
            if up_observed m
            then [\<lparr>ri_Host = host, ri_Status = (case res of Inr st \<Rightarrow> st | Inl _ \<Rightarrow> 0),
                   ri_Err = (case res of Inl e \<Rightarrow> Some e | Inr _ \<Rightarrow> None), ri_Attempt = rq_retry r\<rparr>]
            else []))"

definition singleHost_RoundTrip ::
  "string \<Rightarrow> (Request \<Rightarrow> rt_result) \<Rightarrow> Request \<Rightarrow> string \<times> rt_result"
where
  "singleHost_RoundTrip host transport r = (host, transport (r\<lparr>rq_URLHost := host\<rparr>))"

text \<open>The wait before retry number \<open>retry + 1\<close>; the shift and the product are \<^verbatim>\<open>int64\<close>.\<close>

definition retry_wait :: "Upstream \<Rightarrow> int \<Rightarrow> int" where
  "retry_wait m retry = s64 (up_BackoffFactor m * s64 (2 ^ nat retry))"

datatype up_result = Forwarded int | ClientGone | BadGateway | ServiceUnavailable

definition up_fail :: "up_error \<Rightarrow> up_result" where
  "up_fail e = (if e = ErrUnavailable then ServiceUnavailable else BadGateway)"

text \<open>A sent request has its body read to the end.\<close>

definition consumed :: "Request \<Rightarrow> Request" where
  "consumed r = r\<lparr>rq_Body := map_option (\<lambda>_. '''') (rq_Body r)\<rparr>"

text \<open>
  What the error handler does with a failed request: \<open>Some\<close> the request to serve again (after the
  wait), or \<open>None\<close> to answer with the error.
\<close>

definition rewind :: "Request \<Rightarrow> Request option" where
  "rewind r =
     (case rq_GetBody r of
        None \<Rightarrow> Some (r\<lparr>rq_retry := rq_retry r + 1\<rparr>)
      | Some (Some body) \<Rightarrow> Some (r\<lparr>rq_Body := Some body, rq_retry := rq_retry r + 1\<rparr>)
      | Some None \<Rightarrow> None)"

lemma rewind_retry: "rewind r = Some r' \<Longrightarrow> rq_retry r' = rq_retry r + 1"
  by (auto simp: rewind_def split: option.splits)

lemma director_retry [simp]: "rq_retry (director m r) = rq_retry r"
  by (simp add: director_def)

lemma director_Method [simp]: "rq_Method (director m r) = rq_Method r"
  by (simp add: director_def)

lemma director_Body [simp]:
  "rq_Body (director m r) = rq_Body r" "rq_GetBody (director m r) = rq_GetBody r"
  by (simp_all add: director_def)

lemma up_RoundTrip_same:
  assumes "up_RoundTrip m tr r = (out, res, infos)"
  shows "rq_retry out = rq_retry r" "rq_Method out = rq_Method r" "rq_Body out = rq_Body r"
    "rq_GetBody out = rq_GetBody r" "rq_Path out = rq_Path r"
    "map ri_Attempt infos = (if up_observed m then [rq_retry r] else [])"
  using assms by (auto simp: up_RoundTrip_def Let_def split: prod.splits if_splits)

lemma consumed_same [simp]:
  "rq_retry (consumed r) = rq_retry r" "rq_Method (consumed r) = rq_Method r"
  "rq_GetBody (consumed r) = rq_GetBody r" "rq_Path (consumed r) = rq_Path r"
  "rq_Body (consumed r) = None \<longleftrightarrow> rq_Body r = None"
  by (simp_all add: consumed_def)

lemma retry_request:
  assumes "up_RoundTrip m tr (director m r) = (out, res, infos)" and "rewind (consumed out) = Some r'"
  shows "rq_retry r' = rq_retry r + 1" "rq_Method r' = rq_Method r" "rq_GetBody r' = rq_GetBody r"
    "rq_Path r' = rq_Path (director m r)"
  using assms up_RoundTrip_same [OF assms(1)]
  by (auto simp: rewind_def split: option.splits)

text \<open>
  The proxy with its error handler, which serves the request again through the same proxy. The
  result is the requests sent, the reports, the waits, and the answer. \<open>transport\<close> and \<open>gone\<close>
  (whether the client leaves during the wait) depend on the attempt.
\<close>

function up_serve ::
  "Upstream \<Rightarrow> (int \<Rightarrow> Request \<Rightarrow> string \<times> rt_result) \<Rightarrow> (int \<Rightarrow> bool) \<Rightarrow> Request
     \<Rightarrow> Request list \<times> RoundTripInfo list \<times> int list \<times> up_result"
where
  "up_serve m transport gone r =
     (let retry = rq_retry r
      in case up_RoundTrip m (transport retry) (director m r) of
           (out, Inr st, infos) \<Rightarrow> ([out], infos, [], Forwarded st)
         | (out, Inl e, infos) \<Rightarrow>
             if e = ErrCanceled then ([out], infos, [], ClientGone)
             else if retryable m (consumed out) \<and> retry < up_Retries m then
               (if gone retry then ([out], infos, [], ClientGone)
                else case rewind (consumed out) of
                       None \<Rightarrow> ([out], infos, [retry_wait m retry], up_fail e)
                     | Some r' \<Rightarrow>
                         (case up_serve m transport gone r' of
                            (sent, infos', waits, res) \<Rightarrow>
                              (out # sent, infos @ infos', retry_wait m retry # waits, res)))
             else ([out], infos, [], up_fail e))"
  by pat_completeness auto

termination
  by (relation "measure (\<lambda>(m, _, _, r). nat (up_Retries m - rq_retry r))")
    (auto dest!: retry_request(1) [OF sym])

declare up_serve.simps [simp del]

lemma up_serve_cases:
  assumes "up_serve m transport gone r = (sent, infos, waits, res)"
  obtains (stop) out rt infos0 where
      "up_RoundTrip m (transport (rq_retry r)) (director m r) = (out, rt, infos0)"
      "sent = [out]" "infos = infos0"
  | (again) out e infos0 r' sent' infos' waits' where
      "up_RoundTrip m (transport (rq_retry r)) (director m r) = (out, Inl e, infos0)"
      "e \<noteq> ErrCanceled" "retryable m (consumed out)" "rq_retry r < up_Retries m"
      "rewind (consumed out) = Some r'"
      "up_serve m transport gone r' = (sent', infos', waits', res)"
      "sent = out # sent'" "infos = infos0 @ infos'" "waits = retry_wait m (rq_retry r) # waits'"
  using assms
  by (subst (asm) up_serve.simps)
    (auto simp: Let_def split: prod.splits sum.splits if_splits option.splits)

lemma up_serve_induct [consumes 1, case_names stop again]:
  assumes "up_serve m transport gone r = (sent, infos, waits, res)"
    and stop: "\<And>r out rt infos.
      up_RoundTrip m (transport (rq_retry r)) (director m r) = (out, rt, infos) \<Longrightarrow> P r [out] infos"
    and again: "\<And>r out e infos r' sent infos'.
      up_RoundTrip m (transport (rq_retry r)) (director m r) = (out, Inl e, infos) \<Longrightarrow>
      retryable m (consumed out) \<Longrightarrow> rq_retry r < up_Retries m \<Longrightarrow>
      rewind (consumed out) = Some r' \<Longrightarrow> P r' sent infos' \<Longrightarrow>
      P r (out # sent) (infos @ infos')"
  shows "P r sent infos"
  using assms(1)
proof (induction "nat (up_Retries m - rq_retry r)" arbitrary: r sent infos waits res
    rule: less_induct)
  case less
  from less.prems show ?case
  proof (cases rule: up_serve_cases)
    case (stop out rt infos0)
    then show ?thesis using assms(2) by simp
  next
    case (again out e infos0 r' sent' infos' waits')
    have "nat (up_Retries m - rq_retry r') < nat (up_Retries m - rq_retry r)"
      using again(4) retry_request(1) [OF again(1,5)] by simp
    from less.hyps [OF this again(6)] show ?thesis
      using again assms(3) by simp
  qed
qed

section \<open>The retry budget\<close>

lemma up_serve_bound:
  "up_serve m transport gone r = (sent, infos, waits, res) \<Longrightarrow>
     length sent \<le> nat (up_Retries m - rq_retry r) + 1"
proof (induction rule: up_serve_induct)
  case (again r out e infos r' sent infos')
  then show ?case using retry_request(1) [OF again(1,4)] by simp
qed simp

lemma up_serve_reports:
  "up_serve m transport gone r = (sent, infos, waits, res) \<Longrightarrow>
     map ri_Attempt infos =
       (if up_observed m then map (\<lambda>i. rq_retry r + int i) [0..<length sent] else [])"
proof (induction rule: up_serve_induct)
  case (stop r out rt infos)
  then show ?case using up_RoundTrip_same(6) [OF stop] by simp
next
  case (again r out e infos r' sent infos')
  have "map (\<lambda>i. rq_retry r + int i) [0..<length (out # sent)] =
      rq_retry r # map (\<lambda>i. rq_retry r' + int i) [0..<length sent]"
    using retry_request(1) [OF again(1,4)]
    by (simp add: upt_conv_Cons map_Suc_upt [symmetric] del: upt_Suc)
  then show ?case using again(5) up_RoundTrip_same(6) [OF again(1)] by simp
qed

lemma up_serve_not_retryable:
  assumes "up_serve m transport gone r = (sent, infos, waits, res)"
    and "up_RetryPolicy m = None" and "\<not> canMethodRetry (rq_Method r)"
  shows "length sent = 1"
  using assms(1)
proof (cases rule: up_serve_cases)
  case (again out e infos0 r' sent' infos' waits')
  then show ?thesis
    using assms(2,3) up_RoundTrip_same(2) [OF again(1)]
    by (simp add: retryable_def canRetry_def)
qed simp

lemma up_serve_full_body:
  assumes "up_serve m transport gone r = (sent, infos, waits, res)"
    and "up_RetryPolicy m = None" and "rq_GetBody r = Some (Some b) \<or> rq_GetBody r = None"
    and "rq_GetBody r = Some (Some b) \<longrightarrow> rq_Body r = Some b"
  shows "\<forall>q \<in> set sent. rq_Body q = rq_Body r"
proof -
  have "rq_GetBody r = Some (Some b) \<or> rq_GetBody r = None \<Longrightarrow>
      rq_GetBody r = Some (Some b) \<longrightarrow> rq_Body r = Some b \<Longrightarrow>
      \<forall>q \<in> set sent. rq_Body q = rq_Body r"
    using assms(1)
  proof (induction rule: up_serve_induct)
    case (stop r out rt infos)
    then show ?case using up_RoundTrip_same(3) [OF stop(1)] by simp
  next
    case (again r out e infos r' sent infos')
    note same = up_RoundTrip_same [OF again(1)]
    have "rq_GetBody r = None \<Longrightarrow> rq_Body r = None"
      using again(2) assms(2) same
      by (simp add: retryable_def canRetry_def)
    then have "rq_Body r' = rq_Body r"
      using again(4,6,7) same by (auto simp: rewind_def consumed_def split: option.splits)
    moreover have "\<forall>q \<in> set sent. rq_Body q = rq_Body r'"
      using again(6,7) retry_request(3) [OF again(1,4)] calculation by (intro again(5)) simp_all
    ultimately show ?case using same(3) by simp
  qed
  then show ?thesis using assms(3,4) by blast
qed

lemma up_RoundTrip_fails:
  assumes "\<And>q. snd (transport q) = Inl e"
  shows "\<exists>out infos. up_RoundTrip m transport q = (out, Inl e, infos)"
proof -
  obtain host where "transport (q\<lparr>rq_URLHost := ''''\<rparr>) = (host, Inl e)"
    using assms [of "q\<lparr>rq_URLHost := ''''\<rparr>"] by (metis prod.collapse)
  then show ?thesis by (simp add: up_RoundTrip_def)
qed

lemma canRetry_rewind:
  assumes "up_RoundTrip m transport (director m r) = (out, rt, infos)"
    and "canRetry r" "rq_GetBody r \<noteq> Some None"
  shows "canRetry (consumed out) \<and>
    (\<exists>r'. rewind (consumed out) = Some r' \<and> canRetry r' \<and> rq_GetBody r' \<noteq> Some None)"
  using assms up_RoundTrip_same [OF assms(1)]
  by (auto simp: canRetry_def rewind_def split: option.splits)

lemma up_serve_exhausts:
  assumes "up_RetryPolicy m = None" "\<And>i q. snd (transport i q) = Inl e" "e \<noteq> ErrCanceled"
    "\<And>i. \<not> gone i"
    and "canRetry r" "rq_GetBody r \<noteq> Some None" "rq_retry r \<le> up_Retries m"
  shows "\<exists>sent infos. up_serve m transport gone r =
     (sent, infos, map (retry_wait m) [rq_retry r..up_Retries m - 1], up_fail e) \<and>
     int (length sent) = up_Retries m - rq_retry r + 1"
  using assms(5-7)
proof (induction "nat (up_Retries m - rq_retry r)" arbitrary: r rule: less_induct)
  case less
  obtain out infos where rt:
    "up_RoundTrip m (transport (rq_retry r)) (director m r) = (out, Inl e, infos)"
    using up_RoundTrip_fails assms(2) by blast
  from canRetry_rewind [OF rt less.prems(1,2)] obtain r' where
    rw: "rewind (consumed out) = Some r'" and r: "retryable m (consumed out)"
    and r': "canRetry r'" "rq_GetBody r' \<noteq> Some None"
    using assms(1) by (auto simp: retryable_def)
  note next_retry = retry_request(1) [OF rt rw]
  show ?case
  proof (cases "rq_retry r < up_Retries m")
    case True
    have le: "rq_retry r' \<le> up_Retries m"
      and lt: "nat (up_Retries m - rq_retry r') < nat (up_Retries m - rq_retry r)"
      using True next_retry by simp_all
    from less.hyps [OF lt r' le] show ?thesis
      using True rt rw r next_retry assms(3,4) upto_rec1 [of "rq_retry r" "up_Retries m - 1"]
      by (subst up_serve.simps) auto
  next
    case False
    then show ?thesis
      using rt assms(3) less.prems(3) by (subst up_serve.simps) auto
  qed
qed

section \<open>The target prefix\<close>

lemma singleJoiningSlash_rooted:
  "singleJoiningSlash a (CHR ''/'' # b) = TrimSuffix a ''/'' @ CHR ''/'' # b"
  by (auto simp: singleJoiningSlash_def TrimSuffix_def HasSuffix_iff)

lemma cleanRequestPath_rooted:
  "\<exists>ss. (\<forall>s \<in> set ss. plain_seg s) \<and>
     (cleanRequestPath (CHR ''/'' # q) = CHR ''/'' # join_with CHR ''/'' ss \<or>
      cleanRequestPath (CHR ''/'' # q) = CHR ''/'' # join_with CHR ''/'' ss @ ''/'')"
proof -
  obtain ss where "path_Clean (CHR ''/'' # q) = CHR ''/'' # join_with CHR ''/'' ss"
    and "\<forall>s \<in> set ss. plain_seg s"
    using path_Clean_rooted [of "CHR ''/'' # q"] by auto
  then show ?thesis
    by (intro exI [of _ ss]) (auto simp: cleanRequestPath_def Let_def)
qed

lemma director_Path_rooted:
  assumes "rq_Path r = CHR ''/'' # q"
  shows "\<exists>ss. (\<forall>s \<in> set ss. plain_seg s) \<and>
     (rq_Path (director m r) = TrimSuffix (up_targetPath m) ''/'' @ CHR ''/'' # join_with CHR ''/'' ss \<or>
      rq_Path (director m r) = TrimSuffix (up_targetPath m) ''/'' @ CHR ''/'' # join_with CHR ''/'' ss @ ''/'')"
  using cleanRequestPath_rooted [of q] assms
  by (auto simp: director_def singleJoiningSlash_rooted)

section \<open>Properties\<close>



text \<open>An eligible request the transport always fails is sent exactly \<^verbatim>\<open>Retries + 1\<close> times with
  doubling waits between, and answered with the transport's error, 503 or 502.\<close>

theorem up_retries_exactly:
  assumes "up_RetryPolicy m = None" "canRetry r" "rq_GetBody r \<noteq> Some None"
    "rq_retry r = 0" "0 \<le> up_Retries m"
    and "\<And>i q. snd (transport i q) = Inl e" "e \<noteq> ErrCanceled" "\<And>i. \<not> gone i"
  shows "\<exists>sent infos. up_serve m transport gone r =
     (sent, infos, map (retry_wait m) [0..up_Retries m - 1], up_fail e) \<and>
     int (length sent) = up_Retries m + 1"
  using up_serve_exhausts [OF assms(1,6,7,8,2,3)] assms(4,5) by simp

theorem up_retries_exactly_witness:
  "\<exists>sent infos. up_serve New (\<lambda>_ _. ('''', Inl ErrUnavailable)) (\<lambda>_. False) (get_request ''/x'') =
     (sent, infos, [50000000, 100000000, 200000000], ServiceUnavailable) \<and> length sent = 4"
proof -
  have "map (retry_wait New) [0..up_Retries New - 1] = [50000000, 100000000, 200000000]"
    by code_simp
  then show ?thesis
    using up_retries_exactly [of New "get_request ''/x''" "\<lambda>_ _. ('''', Inl ErrUnavailable)"
        ErrUnavailable "\<lambda>_. False"]
    by (auto simp: New_def get_request_def canRetry_def canMethodRetry_def up_fail_def)
qed

text \<open>Under the default policy every attempt carries the body of the first one.\<close>

theorem up_retry_full_body:
  assumes "up_serve m transport gone r = (sent, infos, waits, res)" and "up_RetryPolicy m = None"
    and "rq_GetBody r = None \<or> (\<exists>b. rq_GetBody r = Some (Some b) \<and> rq_Body r = Some b)"
  shows "\<forall>q \<in> set sent. rq_Body q = rq_Body r"
  using assms up_serve_full_body [OF assms(1,2)] by fastforce

theorem up_retry_full_body_witness:
  "map rq_Body (fst (up_serve New
       (\<lambda>i _. (''b:80'', if i < 1 then Inl (ErrTransport ''reset'') else Inr 200)) (\<lambda>_. False)
       ((get_request ''/x'')\<lparr>rq_Body := Some ''data'', rq_GetBody := Some (Some ''data'')\<rparr>))) =
     [Some ''data'', Some ''data'']"
proof -
  let ?r = "(get_request ''/x'')\<lparr>rq_Body := Some ''data'', rq_GetBody := Some (Some ''data'')\<rparr>"
  let ?tr = "\<lambda>i _. (''b:80'', if i < 1 then Inl (ErrTransport ''reset'') else Inr 200)"
  obtain sent infos waits res where
    run: "up_serve New ?tr (\<lambda>_. False) ?r = (sent, infos, waits, res)"
    by (metis prod_cases4)
  have "length (fst (up_serve New ?tr (\<lambda>_. False) ?r)) = 2" by code_simp
  then have "length sent = 2" by (simp add: run)
  moreover have "\<forall>q \<in> set sent. rq_Body q = Some ''data''"
    using up_retry_full_body [OF run] by (simp add: New_def get_request_def)
  ultimately have "map rq_Body sent = replicate 2 (Some ''data'')"
    by (metis length_map map_replicate_const map_cong)
  then show ?thesis by (simp add: run numeral_2_eq_2)
qed

text \<open>C38. Whatever dot segments a rooted request path has, the path sent is the target prefix, a
  slash, and elements none of which is empty or a dot segment.\<close>

theorem up_prefix_confined:
  assumes "rq_Path r = CHR ''/'' # q"
  shows "\<exists>ss. (\<forall>s \<in> set ss. plain_seg s) \<and>
     (rq_Path (director m r) = TrimSuffix (up_targetPath m) ''/'' @ CHR ''/'' # join_with CHR ''/'' ss \<or>
      rq_Path (director m r) = TrimSuffix (up_targetPath m) ''/'' @ CHR ''/'' # join_with CHR ''/'' ss @ ''/'')"
  by (rule director_Path_rooted [OF assms])

theorem up_prefix_confined_witness:
  "\<exists>ss. list_all plain_seg ss \<and>
     (rq_Path (director (New\<lparr>up_targetPath := ''/v1''\<rparr>) (get_request ''/a/../../b'')) = ''/v1'' @ CHR ''/'' # join_with CHR ''/'' ss \<or>
      rq_Path (director (New\<lparr>up_targetPath := ''/v1''\<rparr>) (get_request ''/a/../../b'')) = ''/v1'' @ CHR ''/'' # join_with CHR ''/'' ss @ ''/'')"
proof -
  have "TrimSuffix ''/v1'' ''/'' = ''/v1''" by code_simp
  then show ?thesis
    using up_prefix_confined [of "get_request ''/a/../../b''" "''a/../../b''" "New\<lparr>up_targetPath := ''/v1''\<rparr>"]
    by (simp add: get_request_def list_all_iff)
qed

text \<open>A retry goes through the director again, on the request already rewritten: with the target
  prefix \<^verbatim>\<open>/v1\<close> a request for \<^verbatim>\<open>/users\<close> is retried at \<^verbatim>\<open>/v1/v1/users\<close>.\<close>

theorem up_retry_prefix_twice:
  "map rq_Path (fst (up_serve (New\<lparr>up_targetPath := ''/v1''\<rparr>)
       (\<lambda>i _. (''b:80'', if i < 2 then Inl (ErrTransport ''refused'') else Inr 200)) (\<lambda>_. False)
       (get_request ''/users''))) =
     [''/v1/users'', ''/v1/v1/users'', ''/v1/v1/v1/users'']"
  by code_simp

text \<open>A policy that admits a PUT with a body and no \<^verbatim>\<open>GetBody\<close> has it retried with the body
  already consumed.\<close>

theorem up_policy_retries_empty_body:
  "map rq_Body (fst (up_serve (New\<lparr>up_RetryPolicy := Some (\<lambda>q. rq_Method q = ''PUT'')\<rparr>)
       (\<lambda>i _. (''b:80'', if i < 1 then Inl (ErrTransport ''reset'') else Inr 200)) (\<lambda>_. False)
       ((get_request ''/users'')\<lparr>rq_Method := ''PUT'', rq_Body := Some ''data''\<rparr>))) =
     [Some ''data'', Some '''']"
  by code_simp

end
