(* ===== verification/Hedging.thy ===== *)
theory Hedging
  imports Upstream_Proxy
begin

text \<open>
  The hedging balancer (\<^verbatim>\<open>pkg/upstream/hedging.go\<close>): the race of a request against its hedges as a
  machine driven by what its select receives: the result of a leg, the timer, or the end of the
  client's context. Legs are numbered in launch order; \<open>hg_cancelled\<close> are those whose context is
  cancelled and \<open>hg_flying\<close> those whose result has not been received.
\<close>

record Hedging =
  hd_HedgeDelay :: int
  hd_MaxHedge :: int
  hd_HedgeOnError :: bool
  hd_IsHedgeable :: "(Request \<Rightarrow> bool) option"
  hd_IsWinner :: "(rt_result \<Rightarrow> bool) option"

definition NewHedging :: Hedging where
  "NewHedging = \<lparr>hd_HedgeDelay = 0, hd_MaxHedge = 1, hd_HedgeOnError = True, hd_IsHedgeable = None, hd_IsWinner = None\<rparr>"

definition hd_init :: "Hedging \<Rightarrow> Hedging" where
  "hd_init l = (if hd_MaxHedge l \<le> 0 then l\<lparr>hd_MaxHedge := 1\<rparr> else l)"

text \<open>A request whose context carries a retry index is inside the retry loop.\<close>

definition hedgeable :: "Hedging \<Rightarrow> Request \<Rightarrow> bool" where
  "hedgeable l r =
     (case hd_IsHedgeable l of
        Some f \<Rightarrow> f r
      | None \<Rightarrow> if \<not> canMethodRetry (rq_Method r) then False
                else if rq_Body r \<noteq> None then False
                else rq_retry r = 0)"

definition won :: "Hedging \<Rightarrow> rt_result \<Rightarrow> bool" where
  "won l res = (case hd_IsWinner l of Some f \<Rightarrow> f res | None \<Rightarrow> (case res of Inr _ \<Rightarrow> True | Inl _ \<Rightarrow> False))"

section \<open>The race\<close>

datatype hedge_out = Winner nat int | AllLost up_error | ClientDone | NilResponse

record hedge =
  hg_launched :: nat
  hg_received :: nat
  hg_flying :: "nat list"
  hg_cancelled :: "nat list"
  hg_timer :: bool
  hg_firstErr :: "up_error option"
  hg_host :: string
  hg_reap :: nat
  hg_out :: "hedge_out option"

datatype hedge_event = LegResult nat rt_result string bool | TimerFires | ContextDone

definition maxAttempts :: "Hedging \<Rightarrow> nat" where
  "maxAttempts l = nat (hd_MaxHedge l) + 1"

definition hedge_start :: hedge where
  "hedge_start = \<lparr>hg_launched = 1, hg_received = 0, hg_flying = [0], hg_cancelled = [], hg_timer = True,
     hg_firstErr = None, hg_host = '''', hg_reap = 0, hg_out = None\<rparr>"

definition launch :: "Hedging \<Rightarrow> hedge \<Rightarrow> hedge" where
  "launch l h = h\<lparr>hg_flying := hg_launched h # hg_flying h, hg_launched := hg_launched h + 1,
     hg_timer := (hg_launched h + 1 < maxAttempts l)\<rparr>"

definition leg_won :: "nat \<Rightarrow> rt_result \<Rightarrow> string \<Rightarrow> bool \<Rightarrow> hedge \<Rightarrow> hedge" where
  "leg_won i res host hasBody h =
     (let h1 = h\<lparr>hg_host := host,
                 hg_cancelled := filter (\<lambda>j. j \<noteq> i) [0..<hg_launched h] @ hg_cancelled h,
                 hg_reap := hg_launched h - hg_received h\<rparr>
      in case res of
           Inl _ \<Rightarrow> h1\<lparr>hg_out := Some NilResponse\<rparr>
         | Inr st \<Rightarrow> h1\<lparr>hg_cancelled := (if hasBody then [] else [i]) @ hg_cancelled h1,
                        hg_out := Some (Winner i st)\<rparr>)"

definition leg_lost :: "Hedging \<Rightarrow> nat \<Rightarrow> rt_result \<Rightarrow> hedge \<Rightarrow> hedge" where
  "leg_lost l i res h =
     (let h1 = h\<lparr>hg_cancelled := i # hg_cancelled h,
                 hg_firstErr := (case hg_firstErr h of
                                   Some e \<Rightarrow> Some e
                                 | None \<Rightarrow> (case res of Inl e \<Rightarrow> Some e | Inr _ \<Rightarrow> None))\<rparr>
      in if hg_received h1 = maxAttempts l
         then h1\<lparr>hg_out := Some (AllLost (case hg_firstErr h1 of Some e \<Rightarrow> e | None \<Rightarrow> ErrUnavailable))\<rparr>
         else if hd_HedgeOnError l \<and> hg_launched h1 < maxAttempts l
         then launch l (h1\<lparr>hg_timer := False\<rparr>)
         else h1)"

fun hedge_step :: "Hedging \<Rightarrow> hedge_event \<Rightarrow> hedge \<Rightarrow> hedge" where
  "hedge_step l (LegResult i res host hasBody) h =
     (let h1 = h\<lparr>hg_received := hg_received h + 1, hg_flying := removeAll i (hg_flying h)\<rparr>
      in if won l res then leg_won i res host hasBody h1 else leg_lost l i res h1)"
| "hedge_step l TimerFires h =
     (let h1 = h\<lparr>hg_timer := False\<rparr>
      in if hg_launched h1 < maxAttempts l then launch l h1 else h1)"
| "hedge_step l ContextDone h =
     h\<lparr>hg_cancelled := [0..<hg_launched h] @ hg_cancelled h, hg_reap := hg_launched h - hg_received h,
       hg_out := Some ClientDone\<rparr>"

text \<open>Closing the body of the winning response.\<close>

definition hedgeBody_Close :: "nat \<Rightarrow> hedge \<Rightarrow> hedge" where
  "hedgeBody_Close i h = h\<lparr>hg_cancelled := i # hg_cancelled h\<rparr>"

text \<open>What the select may receive: a leg sends once, and the timer fires when armed.\<close>

fun enabled :: "hedge_event \<Rightarrow> hedge \<Rightarrow> bool" where
  "enabled (LegResult i res host hasBody) h \<longleftrightarrow> hg_out h = None \<and> i \<in> set (hg_flying h)"
| "enabled TimerFires h \<longleftrightarrow> hg_out h = None \<and> hg_timer h"
| "enabled ContextDone h \<longleftrightarrow> hg_out h = None"

fun hedge_run :: "Hedging \<Rightarrow> hedge_event list \<Rightarrow> hedge \<Rightarrow> hedge option" where
  "hedge_run l [] h = Some h"
| "hedge_run l (e # es) h = (if enabled e h then hedge_run l es (hedge_step l e h) else None)"

text \<open>\<^verbatim>\<open>RoundTrip\<close>: the legs a request costs at most; without hedging it is one plain call.\<close>

definition hedges :: "Hedging \<Rightarrow> Request \<Rightarrow> bool" where
  "hedges l r \<longleftrightarrow> \<not> (hd_HedgeDelay l \<le> 0 \<or> hd_MaxHedge (hd_init l) \<le> 0 \<or> \<not> hedgeable (hd_init l) r)"

definition leg_limit :: "Hedging \<Rightarrow> Request \<Rightarrow> nat" where
  "leg_limit l r = (if hedges l r then maxAttempts (hd_init l) else 1)"

section \<open>The invariant\<close>

definition racing :: "Hedging \<Rightarrow> hedge \<Rightarrow> bool" where
  "racing l h \<longleftrightarrow> hg_out h = None \<and> hg_launched h \<le> maxAttempts l \<and> distinct (hg_flying h) \<and>
     set (hg_flying h) \<subseteq> {..<hg_launched h} \<and> hg_received h + length (hg_flying h) = hg_launched h \<and>
     (hg_launched h < maxAttempts l \<longrightarrow> hg_timer h) \<and> hg_received h < maxAttempts l \<and>
     set (hg_cancelled h) = {..<hg_launched h} - set (hg_flying h)"

definition settled_race :: "Hedging \<Rightarrow> hedge \<Rightarrow> bool" where
  "settled_race l h \<longleftrightarrow> hg_launched h \<le> maxAttempts l \<and>
     (case hg_out h of
        None \<Rightarrow> False
      | Some (AllLost e) \<Rightarrow> hg_flying h = [] \<and> hg_launched h = maxAttempts l \<and> set (hg_cancelled h) = {..<hg_launched h}
      | Some ClientDone \<Rightarrow> hg_reap h = length (hg_flying h) \<and> set (hg_cancelled h) = {..<hg_launched h}
      | Some (Winner i st) \<Rightarrow> hg_reap h = length (hg_flying h) \<and> i < hg_launched h \<and> i \<notin> set (hg_flying h) \<and>
          {..<hg_launched h} - {i} \<subseteq> set (hg_cancelled h) \<and> set (hg_cancelled h) \<subseteq> {..<hg_launched h}
      | Some NilResponse \<Rightarrow> True)"

lemma maxAttempts_ge: "1 \<le> maxAttempts l"
  by (simp add: maxAttempts_def)

lemma start_racing: "1 < maxAttempts l \<Longrightarrow> racing l hedge_start"
  by (auto simp: racing_def hedge_start_def)

lemma launch_racing:
  assumes "hg_out h = None" "hg_launched h < maxAttempts l" "distinct (hg_flying h)"
    "set (hg_flying h) \<subseteq> {..<hg_launched h}" "hg_received h + length (hg_flying h) = hg_launched h"
    "set (hg_cancelled h) = {..<hg_launched h} - set (hg_flying h)"
  shows "racing l (launch l h)"
  using assms by (auto simp: racing_def launch_def)

lemma lost_step:
  assumes "racing l h" "i \<in> set (hg_flying h)"
    and h1: "h1 = h\<lparr>hg_received := hg_received h + 1, hg_flying := removeAll i (hg_flying h)\<rparr>"
  shows "racing l (leg_lost l i res h1) \<or> settled_race l (leg_lost l i res h1)"
proof -
  note r = assms(1) [unfolded racing_def]
  let ?fly = "removeAll i (hg_flying h)"
  let ?err = "case hg_firstErr h of Some e \<Rightarrow> Some e | None \<Rightarrow> (case res of Inl e \<Rightarrow> Some e | Inr _ \<Rightarrow> None)"
  have len: "length ?fly = length (hg_flying h) - 1" "length (hg_flying h) \<noteq> 0"
    using r assms(2) by (auto simp: length_removeAll_less_eq distinct_remove1_removeAll [symmetric] length_remove1)
  then have cnt: "hg_received h + 1 + length ?fly = hg_launched h" using r by linarith
  have cs: "set (i # hg_cancelled h) = {..<hg_launched h} - set ?fly" using r assms(2) by auto
  show ?thesis
  proof (cases "hg_received h + 1 = maxAttempts l")
    case True
    have "length ?fly = 0" "hg_launched h = maxAttempts l" using True cnt r by linarith+
    then have "?fly = []" "hg_launched h = maxAttempts l" by (simp_all only: length_0_conv)
    then have "settled_race l (leg_lost l i res h1)"
      using True cs unfolding h1 settled_race_def leg_lost_def by (simp add: Let_def)
    then show ?thesis ..
  next
    case False
    show ?thesis
    proof (cases "hd_HedgeOnError l \<and> hg_launched h < maxAttempts l")
      case True
      have "racing l (launch l (h1\<lparr>hg_cancelled := i # hg_cancelled h1, hg_firstErr := ?err, hg_timer := False\<rparr>))"
        using True r cnt cs by (intro launch_racing) (auto simp: h1 distinct_removeAll)
      then show ?thesis using True False by (simp add: leg_lost_def h1 Let_def)
    next
      case no: False
      have "racing l (h1\<lparr>hg_cancelled := i # hg_cancelled h1, hg_firstErr := ?err\<rparr>)"
        using False r cnt cs unfolding racing_def h1 by (auto simp: distinct_removeAll)
      then show ?thesis using no False by (auto simp: leg_lost_def h1 Let_def)
    qed
  qed
qed

lemma won_step:
  assumes "racing l h" "i \<in> set (hg_flying h)"
    and h1: "h1 = h\<lparr>hg_received := hg_received h + 1, hg_flying := removeAll i (hg_flying h)\<rparr>"
  shows "settled_race l (leg_won i res host hasBody h1)"
proof -
  note r = assms(1) [unfolded racing_def]
  let ?fly = "removeAll i (hg_flying h)"
  have "length ?fly = length (hg_flying h) - 1" "length (hg_flying h) \<noteq> 0"
    using r assms(2) by (auto simp: distinct_remove1_removeAll [symmetric] length_remove1)
  then have "hg_launched h - (hg_received h + 1) = length ?fly" using r by linarith
  moreover have "i < hg_launched h" using r assms(2) by auto
  ultimately show ?thesis
    using r by (auto simp: settled_race_def leg_won_def h1 Let_def split: sum.split)
qed

lemma hedge_step_inv:
  assumes "racing l h" "enabled e h"
  shows "racing l (hedge_step l e h) \<or> settled_race l (hedge_step l e h)"
proof (cases e)
  case (LegResult i res host hasBody)
  then have "i \<in> set (hg_flying h)" using assms(2) by simp
  then show ?thesis using LegResult lost_step [OF assms(1) _ refl] won_step [OF assms(1) _ refl] by (simp add: Let_def)
next
  case TimerFires
  show ?thesis
  proof (cases "hg_launched h < maxAttempts l")
    case True
    have "racing l (launch l (h\<lparr>hg_timer := False\<rparr>))"
      using True assms(1) by (intro launch_racing) (auto simp: racing_def)
    then show ?thesis using TimerFires True by simp
  next
    case False
    then have "racing l (h\<lparr>hg_timer := False\<rparr>)" using assms(1) by (auto simp: racing_def)
    then show ?thesis using TimerFires False by simp
  qed
next
  case ContextDone
  have "hg_launched h - hg_received h = length (hg_flying h)" using assms(1) unfolding racing_def by linarith
  then show ?thesis
    using ContextDone assms(1) by (auto simp: racing_def settled_race_def)
qed

text \<open>Every step brings the race nearer its end, and a race that goes on has something to receive.\<close>

definition race_left :: "Hedging \<Rightarrow> hedge \<Rightarrow> nat" where
  "race_left l h = 3 * (maxAttempts l - hg_launched h) + length (hg_flying h) + (if hg_timer h then 1 else 0)"

lemma launch_left:
  "hg_launched h < maxAttempts l \<Longrightarrow> \<not> hg_timer h \<Longrightarrow> race_left l (launch l h) < race_left l h"
proof -
  assume a: "hg_launched h < maxAttempts l" "\<not> hg_timer h"
  then have "maxAttempts l - hg_launched h = Suc (maxAttempts l - Suc (hg_launched h))" by simp
  then show ?thesis using a(2) by (simp add: race_left_def launch_def)
qed

lemma race_left_step:
  assumes "racing l h" "enabled e h" "hg_out (hedge_step l e h) = None"
  shows "race_left l (hedge_step l e h) < race_left l h"
proof (cases e)
  case (LegResult i res host hasBody)
  let ?fly = "removeAll i (hg_flying h)"
  have fly: "length ?fly < length (hg_flying h)"
    using assms(2) LegResult by (simp add: length_removeAll_less)
  have nw: "\<not> won l res"
    using assms(3) LegResult by (auto simp: leg_won_def Let_def split: sum.splits if_splits)
  let ?h2 = "h\<lparr>hg_received := hg_received h + 1, hg_flying := ?fly, hg_cancelled := i # hg_cancelled h,
    hg_firstErr := (case hg_firstErr h of Some e \<Rightarrow> Some e | None \<Rightarrow> (case res of Inl e \<Rightarrow> Some e | Inr _ \<Rightarrow> None))\<rparr>"
  consider "hedge_step l e h = launch l (?h2\<lparr>hg_timer := False\<rparr>)" "hg_launched h < maxAttempts l" | "hedge_step l e h = ?h2"
    using assms(3) LegResult nw by (auto simp: leg_lost_def Let_def split: if_splits)
  then show ?thesis
  proof cases
    case 1
    then show ?thesis using launch_left [of "?h2\<lparr>hg_timer := False\<rparr>" l] fly by (simp add: race_left_def)
  next
    case 2
    then show ?thesis using fly by (simp add: race_left_def)
  qed
next
  case TimerFires
  have "race_left l (h\<lparr>hg_timer := False\<rparr>) < race_left l h" using assms(2) TimerFires by (simp add: race_left_def)
  then show ?thesis using TimerFires launch_left [of "h\<lparr>hg_timer := False\<rparr>" l] by (auto simp: Let_def)
qed (use assms in simp)

lemma race_goes_on: "racing l h \<Longrightarrow> (\<exists>i. i \<in> set (hg_flying h)) \<or> hg_timer h"
  by (cases "hg_flying h") (auto simp: racing_def)

lemma settled_stops: "settled_race l h \<Longrightarrow> hedge_run l es h = Some h' \<Longrightarrow> es = [] \<and> h' = h"
proof (cases es)
  case (Cons e es')
  assume "settled_race l h" "hedge_run l es h = Some h'"
  moreover have "hg_out h \<noteq> None" if "settled_race l h" using that by (cases "hg_out h") (simp_all add: settled_race_def)
  then have "\<not> enabled e h" if "settled_race l h" using that by (cases e) simp_all
  ultimately show ?thesis using Cons by simp
qed simp

lemma hedge_run_inv:
  "racing l h \<Longrightarrow> hedge_run l es h = Some h' \<Longrightarrow>
     (racing l h' \<or> settled_race l h') \<and> length es \<le> race_left l h + 1"
proof (induction es arbitrary: h)
  case (Cons e es)
  then have e: "enabled e h" "hedge_run l es (hedge_step l e h) = Some h'" by (simp_all split: if_splits)
  from hedge_step_inv [OF Cons.prems(1) e(1)] show ?case
  proof
    assume r: "racing l (hedge_step l e h)"
    then have "race_left l (hedge_step l e h) < race_left l h"
      using race_left_step [OF Cons.prems(1) e(1)] by (simp add: racing_def)
    then show ?thesis using Cons.IH [OF r e(2)] by simp
  next
    assume "settled_race l (hedge_step l e h)"
    then show ?thesis using settled_stops [OF _ e(2)] by simp
  qed
qed simp

section \<open>Load under retries\<close>

definition leg_load :: "Hedging \<Rightarrow> Request list \<Rightarrow> nat" where
  "leg_load l sent = sum_list (map (leg_limit l) sent)"

lemma retried_not_hedged: "hd_IsHedgeable l = None \<Longrightarrow> rq_retry r \<noteq> 0 \<Longrightarrow> leg_limit l r = 1"
  by (simp add: leg_limit_def hedges_def hedgeable_def hd_init_def)

lemma leg_limit_le: "leg_limit l r \<le> maxAttempts (hd_init l)"
  using maxAttempts_ge [of "hd_init l"] by (simp add: leg_limit_def)

lemma sent_retry:
  "up_serve m transport gone r = (sent, infos, waits, res) \<Longrightarrow> 0 \<le> rq_retry r \<Longrightarrow>
     sent \<noteq> [] \<and> rq_retry (hd sent) = rq_retry r \<and> (\<forall>q \<in> set (tl sent). 0 < rq_retry q)"
proof (induction rule: up_serve_induct)
  case (stop r out rt infos)
  then show ?case using up_RoundTrip_same(1) [OF stop(1)] by simp
next
  case (again r out e infos r' sent infos')
  have r': "rq_retry r' = rq_retry r + 1" using retry_request(1) [OF again(1,4)] .
  then have ih: "sent \<noteq> []" "rq_retry (hd sent) = rq_retry r + 1" "\<forall>q \<in> set (tl sent). 0 < rq_retry q"
    using again(5,6) by simp_all
  then have "\<forall>q \<in> set sent. 0 < rq_retry q"
    using again(6) by (cases sent) auto
  then show ?case using up_RoundTrip_same(1) [OF again(1)] by simp
qed

section \<open>Properties\<close>





end
