(* ===== verification/Cache_LRU.thy ===== *)
theory Cache_LRU
  imports Parapet_Prelude
begin

text \<open>
  The byte-bounded LRU of \<^verbatim>\<open>pkg/cache/lru.go\<close>. The list is the accounting, front first: the map from
  keys to list elements finds the one item with a key, which is the search along the list. The
  mutex makes every operation one step.
\<close>

record lruItem =
  li_key :: string
  li_size :: int

record lru =
  l_ll :: "lruItem list"
  l_max :: int
  l_cur :: int

definition newLRU :: "int \<Rightarrow> lru" where
  "newLRU mx = \<lparr>l_ll = [], l_max = mx, l_cur = 0\<rparr>"

definition lru_find :: "lru \<Rightarrow> string \<Rightarrow> lruItem option" where
  "lru_find l k = find (\<lambda>it. li_key it = k) (l_ll l)"

definition drop_key :: "string \<Rightarrow> lruItem list \<Rightarrow> lruItem list" where
  "drop_key k xs = filter (\<lambda>it. li_key it \<noteq> k) xs"

text \<open>\<^verbatim>\<open>remove\<close>, also the first branch of \<^verbatim>\<open>admit\<close>.\<close>

definition lru_remove :: "lru \<Rightarrow> string \<Rightarrow> lru" where
  "lru_remove l k =
     (case lru_find l k of
        None \<Rightarrow> l
      | Some it \<Rightarrow> l\<lparr>l_ll := drop_key k (l_ll l), l_cur := l_cur l - li_size it\<rparr>)"

definition lru_touch :: "lru \<Rightarrow> string \<Rightarrow> lru" where
  "lru_touch l k =
     (case lru_find l k of None \<Rightarrow> l | Some it \<Rightarrow> l\<lparr>l_ll := it # drop_key k (l_ll l)\<rparr>)"

text \<open>The loop of \<^verbatim>\<open>admit\<close>: evict from the back while over the cap, stopping on an empty list.\<close>

function lru_evict :: "lru \<Rightarrow> lru \<times> string list" where
  "lru_evict l =
     (if l_max l < l_cur l \<and> l_ll l \<noteq> [] then
        let it = last (l_ll l)
        in case lru_evict (l\<lparr>l_ll := butlast (l_ll l), l_cur := l_cur l - li_size it\<rparr>) of
             (l', vs) \<Rightarrow> (l', li_key it # vs)
      else (l, []))"
  by pat_completeness auto

termination
  by (relation "measure (\<lambda>l. length (l_ll l))") auto

declare lru_evict.simps [simp del]

definition lru_push :: "lru \<Rightarrow> string \<Rightarrow> int \<Rightarrow> lru" where
  "lru_push l k sz =
     (case lru_find l k of
        Some it \<Rightarrow> l\<lparr>l_cur := l_cur l + (sz - li_size it), l_ll := it\<lparr>li_size := sz\<rparr> # drop_key k (l_ll l)\<rparr>
      | None \<Rightarrow> l\<lparr>l_ll := \<lparr>li_key = k, li_size = sz\<rparr> # l_ll l, l_cur := l_cur l + sz\<rparr>)"

definition lru_admit :: "lru \<Rightarrow> string \<Rightarrow> int \<Rightarrow> lru \<times> string list" where
  "lru_admit l k sz = (if l_max l < sz then (lru_remove l k, [k]) else lru_evict (lru_push l k sz))"

section \<open>The accounting invariant\<close>

definition keys :: "lru \<Rightarrow> string list" where
  "keys l = map li_key (l_ll l)"

definition lru_sum :: "lruItem list \<Rightarrow> int" where
  "lru_sum xs = sum_list (map li_size xs)"

definition lru_inv :: "lru \<Rightarrow> bool" where
  "lru_inv l \<longleftrightarrow> distinct (keys l) \<and> l_cur l = lru_sum (l_ll l) \<and>
     list_all (\<lambda>it. 0 \<le> li_size it) (l_ll l)"

lemma newLRU_inv: "lru_inv (newLRU mx)"
  by (simp add: lru_inv_def newLRU_def keys_def lru_sum_def)

lemma find_key:
  assumes "lru_find l k = Some it"
  shows "it \<in> set (l_ll l)" "li_key it = k"
  using assms by (auto simp: lru_find_def find_Some_iff)

lemma find_none: "lru_find l k = None \<longleftrightarrow> k \<notin> set (keys l)"
  by (auto simp: lru_find_def find_None_iff keys_def)

lemma drop_key_keys: "map li_key (drop_key k xs) = filter (\<lambda>x. x \<noteq> k) (map li_key xs)"
  by (induction xs) (simp_all add: drop_key_def)

lemma drop_key_sum:
  assumes "distinct (map li_key xs)" "it \<in> set xs" "li_key it = k"
  shows "lru_sum (drop_key k xs) = lru_sum xs - li_size it"
  using assms
proof (induction xs)
  case (Cons x xs)
  show ?case
  proof (cases "li_key x = k")
    case True
    then have "x = it"
      using Cons.prems by (metis distinct.simps(2) image_eqI list.set_map list.simps(9) set_ConsD)
    moreover have "\<forall>y \<in> set xs. li_key y \<noteq> k"
      using True Cons.prems(1) by (metis distinct.simps(2) image_eqI list.set_map list.simps(9))
    then have "drop_key k xs = xs"
      by (simp add: drop_key_def)
    ultimately show ?thesis using True by (simp add: drop_key_def lru_sum_def)
  next
    case False
    then show ?thesis using Cons by (auto simp: drop_key_def lru_sum_def)
  qed
qed simp

lemma drop_key_nonneg:
  "list_all (\<lambda>it. 0 \<le> li_size it) xs \<Longrightarrow> list_all (\<lambda>it. 0 \<le> li_size it) (drop_key k xs)"
  by (simp add: drop_key_def list_all_iff)

lemma found:
  assumes "lru_inv l" "lru_find l k = Some it"
  shows "distinct (map li_key (drop_key k (l_ll l)))" "k \<notin> set (map li_key (drop_key k (l_ll l)))"
    "lru_sum (drop_key k (l_ll l)) = l_cur l - li_size it"
    "list_all (\<lambda>it. 0 \<le> li_size it) (drop_key k (l_ll l))" "0 \<le> li_size it" "li_key it = k"
proof -
  note * = assms(1) [unfolded lru_inv_def keys_def] find_key [OF assms(2)]
  show "lru_sum (drop_key k (l_ll l)) = l_cur l - li_size it"
    using * drop_key_sum [of "l_ll l" it k] by simp
  show "0 \<le> li_size it" using * by (simp add: list_all_iff)
qed (use assms find_key [OF assms(2)] in \<open>simp_all add: lru_inv_def keys_def drop_key_keys drop_key_nonneg\<close>)

lemma lru_remove_inv: "lru_inv l \<Longrightarrow> lru_inv (lru_remove l k)"
proof (cases "lru_find l k")
  case (Some it)
  assume "lru_inv l"
  from found [OF this Some] show ?thesis
    using Some by (simp add: lru_remove_def lru_inv_def keys_def)
qed (simp add: lru_remove_def)

lemma lru_remove_keys: "set (keys (lru_remove l k)) = set (keys l) - {k}"
  using find_none [of l k]
  by (cases "lru_find l k") (auto simp: lru_remove_def keys_def drop_key_def)

lemma lru_remove_max [simp]: "l_max (lru_remove l k) = l_max l"
  by (simp add: lru_remove_def split: option.split)

lemma lru_touch_inv: "lru_inv l \<Longrightarrow> lru_inv (lru_touch l k)"
proof (cases "lru_find l k")
  case (Some it)
  assume "lru_inv l"
  from found [OF this Some] show ?thesis
    using Some by (simp add: lru_touch_def lru_inv_def keys_def lru_sum_def)
qed (simp add: lru_touch_def)

lemma lru_touch_keys: "set (keys (lru_touch l k)) = set (keys l)"
  using find_key [of l k]
  by (cases "lru_find l k") (auto simp: lru_touch_def keys_def drop_key_def)

lemma lru_touch_same [simp]: "l_max (lru_touch l k) = l_max l" "l_cur (lru_touch l k) = l_cur l"
  by (simp_all add: lru_touch_def split: option.split)

lemma lru_push_inv: "lru_inv l \<Longrightarrow> 0 \<le> sz \<Longrightarrow> lru_inv (lru_push l k sz)"
proof (cases "lru_find l k")
  case None
  assume "lru_inv l" "0 \<le> sz"
  then show ?thesis
    using None find_none [of l k] by (simp add: lru_push_def lru_inv_def keys_def lru_sum_def)
next
  case (Some it)
  assume "lru_inv l" and sz: "0 \<le> sz"
  from found [OF this(1) Some] show ?thesis
    using Some sz by (simp add: lru_push_def lru_inv_def keys_def lru_sum_def)
qed

lemma lru_push_keys: "set (keys (lru_push l k sz)) = insert k (set (keys l))"
  using find_key [of l k]
  by (cases "lru_find l k") (auto simp: lru_push_def keys_def drop_key_def)

lemma lru_push_max [simp]: "l_max (lru_push l k sz) = l_max l"
  by (simp add: lru_push_def split: option.split)

section \<open>Eviction\<close>

lemma lru_inv_butlast:
  assumes "lru_inv l" "l_ll l \<noteq> []"
  shows "lru_inv (l\<lparr>l_ll := butlast (l_ll l), l_cur := l_cur l - li_size (last (l_ll l))\<rparr>)"
proof -
  obtain xs x where "l_ll l = xs @ [x]" using assms(2) by (metis append_butlast_last_id)
  then show ?thesis using assms(1) by (simp add: lru_inv_def keys_def lru_sum_def)
qed

text \<open>
  Eviction keeps the longest prefix within the cap and reports the keys of the rest, oldest first.
\<close>

lemma lru_evict_stop:
  "\<not> (l_max l < l_cur l \<and> l_ll l \<noteq> []) \<Longrightarrow> lru_evict l = (l, [])"
  by (simp only: lru_evict.simps [of l] if_False)

lemma lru_evict_step:
  assumes "l_max l < l_cur l" "l_ll l \<noteq> []"
    and "lru_evict (l\<lparr>l_ll := butlast (l_ll l), l_cur := l_cur l - li_size (last (l_ll l))\<rparr>) = (l', vs)"
  shows "lru_evict l = (l', li_key (last (l_ll l)) # vs)"
  using assms by (simp add: lru_evict.simps [of l])

definition longest :: "lru \<Rightarrow> nat \<Rightarrow> bool" where
  "longest l n \<longleftrightarrow> lru_sum (take n (l_ll l)) \<le> l_max l \<and>
     (n < length (l_ll l) \<longrightarrow> l_max l < lru_sum (take (Suc n) (l_ll l)))"

definition keep :: "nat \<Rightarrow> lru \<Rightarrow> lru" where
  "keep n l = l\<lparr>l_ll := take n (l_ll l), l_cur := lru_sum (take n (l_ll l))\<rparr>"

lemma longest_snoc:
  assumes ll: "l_ll l = xs @ [x]" and over: "l_max l < lru_sum (xs @ [x])"
    and n: "longest (l\<lparr>l_ll := xs, l_cur := c\<rparr>) n"
  shows "longest l (min n (length xs))"
proof (cases "n < length xs")
  case True
  then show ?thesis using n by (simp add: longest_def ll min_def)
next
  case False
  then show ?thesis using n over by (simp add: longest_def ll min_def)
qed

lemma keep_all: "lru_inv l \<Longrightarrow> length (l_ll l) \<le> n \<Longrightarrow> keep n l = l"
  by (cases l) (simp add: keep_def lru_inv_def)

lemma lru_evict_prefix:
  assumes "lru_inv l" "0 \<le> l_max l"
  shows "\<exists>n. lru_evict l = (keep n l, rev (drop n (keys l))) \<and> longest l n"
  using assms
proof (induction "length (l_ll l)" arbitrary: l)
  case 0
  then show ?case
    using lru_evict_stop [of l] keep_all [of l 0]
    by (intro exI [of _ 0]) (simp add: longest_def keys_def lru_sum_def)
next
  case (Suc m)
  then obtain xs x where ll: "l_ll l = xs @ [x]" by (cases "l_ll l" rule: rev_cases) auto
  have cur: "l_cur l = lru_sum (xs @ [x])" using Suc.prems(1) by (simp add: lru_inv_def ll)
  let ?l1 = "l\<lparr>l_ll := xs, l_cur := l_cur l - li_size x\<rparr>"
  show ?case
  proof (cases "l_max l < l_cur l")
    case True
    have inv1: "lru_inv ?l1" using lru_inv_butlast [OF Suc.prems(1)] by (simp add: ll)
    obtain n where ev: "lru_evict ?l1 = (keep n ?l1, rev (drop n (keys ?l1)))" and n: "longest ?l1 n"
      using Suc.hyps(1) [of ?l1] Suc.hyps(2) inv1 Suc.prems(2) by (auto simp: ll)
    have kn: "keep n ?l1 = keep (min n (length xs)) l"
      by (simp add: keep_def ll min_def)
    have vs: "li_key x # rev (drop n (keys ?l1)) = rev (drop (min n (length xs)) (keys l))"
      by (simp add: keys_def ll min_def)
    have "lru_evict l = (keep n ?l1, li_key x # rev (drop n (keys ?l1)))"
      using lru_evict_step [OF True] ev by (simp add: ll)
    then have "lru_evict l = (keep (min n (length xs)) l, rev (drop (min n (length xs)) (keys l)))"
      unfolding kn vs .
    moreover have "longest l (min n (length xs))"
      using longest_snoc [OF ll _ n] True cur by simp
    ultimately show ?thesis by blast
  next
    case False
    then show ?thesis
      using lru_evict_stop [of l] keep_all [OF Suc.prems(1)] cur
      by (intro exI [of _ "Suc (length xs)"]) (simp add: longest_def keys_def ll)
  qed
qed

section \<open>Admission\<close>

definition lru_ok :: "lru \<Rightarrow> bool" where
  "lru_ok l \<longleftrightarrow> lru_inv l \<and> l_cur l \<le> l_max l \<and> 0 \<le> l_max l"

lemma newLRU_ok: "0 \<le> mx \<Longrightarrow> lru_ok (newLRU mx)"
  by (simp add: lru_ok_def newLRU_inv) (simp add: newLRU_def)

lemma lru_remove_cur: "lru_inv l \<Longrightarrow> l_cur (lru_remove l k) \<le> l_cur l"
  using found(5) [of l k] by (cases "lru_find l k") (simp_all add: lru_remove_def)

lemma lru_remove_ok: "lru_ok l \<Longrightarrow> lru_ok (lru_remove l k)"
  using lru_remove_cur [of l k] by (auto simp: lru_ok_def lru_remove_inv)

lemma lru_touch_ok: "lru_ok l \<Longrightarrow> lru_ok (lru_touch l k)"
  by (simp add: lru_ok_def lru_touch_inv)

lemma lru_push_front: "\<exists>it xs. l_ll (lru_push l k sz) = it # xs \<and> li_key it = k \<and> li_size it = sz"
  using find_key(2) [of l k] by (cases "lru_find l k") (simp_all add: lru_push_def)

lemma longest_pos:
  assumes "l_ll l = it # xs" "li_size it \<le> l_max l" "longest l n"
  shows "0 < n"
  using assms by (cases n) (simp_all add: longest_def lru_sum_def)

lemma keep_ok:
  assumes "lru_inv l" "longest l n" "0 \<le> l_max l"
  shows "lru_ok (keep n l)"
  using assms
  by (auto simp: lru_ok_def lru_inv_def keep_def longest_def keys_def take_map [symmetric] list_all_iff
      dest: in_set_takeD)

lemma keep_keys: "keys (keep n l) = take n (keys l)"
  by (simp add: keys_def keep_def take_map)

lemma keep_max [simp]: "l_max (keep n l) = l_max l"
  by (simp add: keep_def)

lemma lru_admit_fits:
  assumes "lru_ok l" "0 \<le> sz" "sz \<le> l_max l"
  shows "\<exists>n. 0 < n \<and> longest (lru_push l k sz) n \<and>
    lru_admit l k sz = (keep n (lru_push l k sz), rev (drop n (keys (lru_push l k sz))))"
proof -
  have "lru_inv (lru_push l k sz)" "0 \<le> l_max (lru_push l k sz)"
    using assms by (simp_all add: lru_ok_def lru_push_inv)
  from lru_evict_prefix [OF this] obtain n where
    n: "lru_evict (lru_push l k sz) = (keep n (lru_push l k sz), rev (drop n (keys (lru_push l k sz))))"
    "longest (lru_push l k sz) n" by blast
  then show ?thesis
    using longest_pos [OF _ _ n(2)] lru_push_front [of l k sz] assms(3)
    by (auto simp: lru_admit_def)
qed

lemma lru_admit_ok:
  assumes "lru_ok l" "0 \<le> sz" "lru_admit l k sz = (l', vs)"
  shows "lru_ok l'" "l_max l' = l_max l"
proof -
  show "lru_ok l'"
  proof (cases "l_max l < sz")
    case True
    then show ?thesis using assms lru_remove_ok by (auto simp: lru_admit_def)
  next
    case False
    then show ?thesis
      using lru_admit_fits [OF assms(1,2), of k] assms keep_ok [of "lru_push l k sz"]
        lru_push_inv [of l sz k] by (auto simp: lru_ok_def)
  qed
  show "l_max l' = l_max l"
    using assms lru_admit_fits [OF assms(1,2), of k] by (cases "l_max l < sz") (auto simp: lru_admit_def)
qed

lemma take_drop_distinct: "distinct xs \<Longrightarrow> set (take n xs) = set xs - set (drop n xs)"
  by (metis Diff_cancel Diff_triv Int_commute Un_Diff append_take_drop_id set_append
      set_take_disj_set_drop_if_distinct order_refl sup_bot.right_neutral)

lemma lru_admit_keys:
  assumes "lru_ok l" "0 \<le> sz" "lru_admit l k sz = (l', vs)"
  shows "set (keys l') = insert k (set (keys l)) - set vs"
proof (cases "l_max l < sz")
  case True
  then show ?thesis using assms lru_remove_keys by (auto simp: lru_admit_def)
next
  case False
  have "distinct (keys (lru_push l k sz))"
    using lru_push_inv [of l sz k] assms by (simp add: lru_ok_def lru_inv_def)
  then show ?thesis
    using lru_admit_fits [OF assms(1,2), of k] False assms(3)
    by (auto simp: keep_keys take_drop_distinct lru_push_keys)
qed

lemma lru_admit_newest:
  assumes "lru_ok l" "0 \<le> sz" "sz \<le> l_max l" "lru_admit l k sz = (l', vs)"
  shows "k \<in> set (keys l')"
proof -
  obtain n where "0 < n" "l' = keep n (lru_push l k sz)"
    using lru_admit_fits [OF assms(1-3), of k] assms(4) by auto
  moreover obtain ks where "keys (lru_push l k sz) = k # ks"
    using lru_push_front [of l k sz] by (auto simp: keys_def)
  ultimately show ?thesis by (cases n) (simp_all add: keep_keys)
qed

text \<open>Which items an operation leaves.\<close>

lemma lru_remove_items: "it \<in> set (l_ll (lru_remove l k)) \<Longrightarrow> it \<in> set (l_ll l) \<and> li_key it \<noteq> k"
  using find_none [of l k]
  by (cases "lru_find l k") (auto simp: lru_remove_def drop_key_def keys_def)

lemma lru_touch_items: "set (l_ll (lru_touch l k)) \<subseteq> set (l_ll l)"
  using find_key(1) [of l k] by (cases "lru_find l k") (auto simp: lru_touch_def drop_key_def)

lemma lru_push_items:
  "it \<in> set (l_ll (lru_push l k sz)) \<Longrightarrow>
     (li_key it = k \<and> li_size it = sz) \<or> (it \<in> set (l_ll l) \<and> li_key it \<noteq> k)"
  using find_none [of l k] find_key(2) [of l k]
  by (cases "lru_find l k") (auto simp: lru_push_def drop_key_def keys_def)

lemma lru_admit_items:
  assumes "lru_ok l" "0 \<le> sz" "lru_admit l k sz = (l', vs)" "it \<in> set (l_ll l')"
  shows "(li_key it = k \<and> li_size it = sz) \<or> (it \<in> set (l_ll l) \<and> li_key it \<noteq> k)"
proof (cases "l_max l < sz")
  case True
  then show ?thesis using assms lru_remove_items by (auto simp: lru_admit_def)
next
  case False
  then obtain n where "l' = keep n (lru_push l k sz)"
    using lru_admit_fits [OF assms(1,2), of k] assms(3) by auto
  then have "it \<in> set (l_ll (lru_push l k sz))"
    using assms(4) by (auto simp: keep_def dest: in_set_takeD)
  then show ?thesis by (rule lru_push_items)
qed

section \<open>Properties\<close>

text \<open>Admitting an object that fits the cap puts it first and keeps exactly the longest run of most
  recently used items within the cap; the rest is reported as evicted, least recently used first,
  and the byte count is the sum of what is kept.\<close>

theorem lru_admit_keeps_recent:
  assumes "lru_ok l" "0 \<le> sz" "sz \<le> l_max l"
  shows "\<exists>n. 0 < n \<and> longest (lru_push l k sz) n \<and>
    lru_admit l k sz = (keep n (lru_push l k sz), rev (drop n (keys (lru_push l k sz)))) \<and>
    hd (keys (lru_push l k sz)) = k \<and> lru_ok (keep n (lru_push l k sz))"
proof -
  obtain n where "0 < n" "longest (lru_push l k sz) n"
    "lru_admit l k sz = (keep n (lru_push l k sz), rev (drop n (keys (lru_push l k sz))))"
    using lru_admit_fits [OF assms] by blast
  moreover have "lru_ok (keep n (lru_push l k sz))"
    using lru_admit_ok(1) [OF assms(1,2) calculation(3)] .
  moreover have "hd (keys (lru_push l k sz)) = k"
    using lru_push_front [of l k sz] by (auto simp: keys_def)
  ultimately show ?thesis by blast
qed

theorem lru_admit_keeps_recent_witness:
  "lru_ok (fst (lru_admit (newLRU 10) ''a'' 6)) \<and>
   keys (fst (lru_admit (fst (lru_admit (newLRU 10) ''a'' 6)) ''b'' 5)) = [''b''] \<and>
   snd (lru_admit (fst (lru_admit (newLRU 10) ''a'' 6)) ''b'' 5) = [''a''] \<and>
   hd (keys (lru_push (fst (lru_admit (newLRU 10) ''a'' 6)) ''b'' 5)) = ''b''"
proof -
  let ?l = "fst (lru_admit (newLRU 10) ''a'' 6)"
  have 1: "?l = \<lparr>l_ll = [\<lparr>li_key = ''a'', li_size = 6\<rparr>], l_max = 10, l_cur = 6\<rparr>"
    "lru_admit ?l ''b'' 5 = (\<lparr>l_ll = [\<lparr>li_key = ''b'', li_size = 5\<rparr>], l_max = 10, l_cur = 5\<rparr>, [''a''])"
    by code_simp+
  have ok: "lru_ok ?l"
    unfolding 1(1) by (simp add: lru_ok_def lru_inv_def keys_def lru_sum_def)
  show ?thesis
    using lru_admit_keeps_recent [OF ok, of 5 "''b''"] ok 1 by (auto simp: keys_def)
qed

end
