(* ===== verification/Go_Http.thy ===== *)
theory Go_Http
  imports Go_Strings
begin

text \<open>
  The parts of \<^verbatim>\<open>net/http\<close> the middlewares use: headers, requests, the server's response writer, and
  handlers. A header is a map from canonical names to values. What a handler does with its writer is
  the list of operations it performs, so that a wrapped writer is a state these operations step.
\<close>

section \<open>Headers\<close>

type_synonym Header = "string \<rightharpoonup> string list"

definition token_char :: "char \<Rightarrow> bool" where
  "token_char c \<longleftrightarrow> is_upper c \<or> is_lower c \<or> is_digit c \<or> c \<in> set ''!#$%&*+-.^_|~'' \<or> byte c = 39 \<or> byte c = 96"

fun canon_bytes :: "bool \<Rightarrow> string \<Rightarrow> string" where
  "canon_bytes up [] = []"
| "canon_bytes up (c # s) = (if up then upper c else lower c) # canon_bytes (c = CHR ''-'') s"

definition CanonicalHeaderKey :: "string \<Rightarrow> string" where
  "CanonicalHeaderKey s = (if list_all token_char s then canon_bytes True s else s)"

definition header_Values :: "Header \<Rightarrow> string \<Rightarrow> string list" where
  "header_Values h k = (case h (CanonicalHeaderKey k) of None \<Rightarrow> [] | Some vs \<Rightarrow> vs)"

definition header_Get :: "Header \<Rightarrow> string \<Rightarrow> string" where
  "header_Get h k = (case header_Values h k of [] \<Rightarrow> '''' | v # _ \<Rightarrow> v)"

definition header_Set :: "Header \<Rightarrow> string \<Rightarrow> string \<Rightarrow> Header" where
  "header_Set h k v = h(CanonicalHeaderKey k \<mapsto> [v])"

definition header_Add :: "Header \<Rightarrow> string \<Rightarrow> string \<Rightarrow> Header" where
  "header_Add h k v = h(CanonicalHeaderKey k \<mapsto> header_Values h k @ [v])"

definition header_Del :: "Header \<Rightarrow> string \<Rightarrow> Header" where
  "header_Del h k = h(CanonicalHeaderKey k := None)"

lemma header_Values_Set [simp]:
  "header_Values (header_Set h k v) k' =
     (if CanonicalHeaderKey k' = CanonicalHeaderKey k then [v] else header_Values h k')"
  by (simp add: header_Values_def header_Set_def)

lemma header_Values_Add [simp]:
  "header_Values (header_Add h k v) k' =
     (if CanonicalHeaderKey k' = CanonicalHeaderKey k then header_Values h k @ [v]
      else header_Values h k')"
  by (simp add: header_Values_def header_Add_def)

lemma header_Values_Del [simp]:
  "header_Values (header_Del h k) k' =
     (if CanonicalHeaderKey k' = CanonicalHeaderKey k then [] else header_Values h k')"
  by (simp add: header_Values_def header_Del_def)

lemma header_Get_Set [simp]:
  "header_Get (header_Set h k v) k' =
     (if CanonicalHeaderKey k' = CanonicalHeaderKey k then v else header_Get h k')"
  by (simp add: header_Get_def)

lemma header_Get_Del [simp]:
  "header_Get (header_Del h k) k' =
     (if CanonicalHeaderKey k' = CanonicalHeaderKey k then '''' else header_Get h k')"
  by (simp add: header_Get_def)

section \<open>Requests and handlers\<close>

record HttpRequest =
  hr_Method :: string
  hr_Host :: string
  hr_Path :: string
  hr_RawPath :: string
  hr_RawQuery :: string
  hr_URI :: string
  hr_Header :: Header
  hr_TLS :: bool
  hr_RemoteAddr :: string

datatype wop =
    HSet string string
  | HAdd string string
  | HDel string
  | HMerge Header
  | HClear
  | WriteHeader int
  | Write string
  | Flush
  | is_Panic: Panic

text \<open>A handler, and a middleware, which wraps one.\<close>

type_synonym Handler = "HttpRequest \<Rightarrow> wop list"

section \<open>The server's response writer\<close>

text \<open>A response writer as its operations: one step per \<^verbatim>\<open>wop\<close>, and the header map it hands out.\<close>

record 'w writer =
  wr_step :: "wop \<Rightarrow> 'w \<Rightarrow> 'w"
  wr_Header :: "'w \<Rightarrow> Header"

record ResponseWriter =
  rw_Header :: Header
  rw_info :: "int list"
  rw_status :: "int option"
  rw_sent :: Header
  rw_body :: string
  rw_flushes :: nat

definition new_rw :: ResponseWriter where
  "new_rw = \<lparr>rw_Header = Map.empty, rw_info = [], rw_status = None, rw_sent = Map.empty,
     rw_body = '''', rw_flushes = 0\<rparr>"

text \<open>
  An informational status is sent and leaves the response open; the first final one fixes the
  status and the headers, and later ones are ignored.
\<close>

definition rw_WriteHeader :: "int \<Rightarrow> ResponseWriter \<Rightarrow> ResponseWriter" where
  "rw_WriteHeader code w =
     (if rw_status w \<noteq> None then w
      else if 100 \<le> code \<and> code \<le> 199 \<and> code \<noteq> 101 then w\<lparr>rw_info := rw_info w @ [code]\<rparr>
      else w\<lparr>rw_status := Some code, rw_sent := rw_Header w\<rparr>)"

definition rw_Write :: "string \<Rightarrow> ResponseWriter \<Rightarrow> ResponseWriter" where
  "rw_Write p w = (let w1 = rw_WriteHeader 200 w in w1\<lparr>rw_body := rw_body w1 @ p\<rparr>)"

definition rw_Flush :: "ResponseWriter \<Rightarrow> ResponseWriter" where
  "rw_Flush w = (let w1 = rw_WriteHeader 200 w in w1\<lparr>rw_flushes := rw_flushes w1 + 1\<rparr>)"

fun header_op :: "wop \<Rightarrow> Header \<Rightarrow> Header" where
  "header_op (HSet k v) h = header_Set h k v"
| "header_op (HAdd k v) h = header_Add h k v"
| "header_op (HDel k) h = header_Del h k"
| "header_op (HMerge m) h = h ++ m"
| "header_op HClear h = Map.empty"
| "header_op _ h = h"

fun rw_step :: "wop \<Rightarrow> ResponseWriter \<Rightarrow> ResponseWriter" where
  "rw_step (WriteHeader code) w = rw_WriteHeader code w"
| "rw_step (Write p) w = rw_Write p w"
| "rw_step Flush w = rw_Flush w"
| "rw_step op w = w\<lparr>rw_Header := header_op op (rw_Header w)\<rparr>"

definition server_writer :: "ResponseWriter writer" where
  "server_writer = \<lparr>wr_step = rw_step, wr_Header = rw_Header\<rparr>"

text \<open>
  Performing the operations up to a panic; the flag says whether there was one. The server answers
  200 for a handler that returns without a final status.
\<close>

fun run_ops :: "(wop \<Rightarrow> 'w \<Rightarrow> 'w) \<Rightarrow> wop list \<Rightarrow> 'w \<Rightarrow> 'w \<times> bool" where
  "run_ops step [] w = (w, False)"
| "run_ops step (op # ops) w = (if is_Panic op then (w, True) else run_ops step ops (step op w))"

definition http_serve :: "Handler \<Rightarrow> HttpRequest \<Rightarrow> ResponseWriter" where
  "http_serve h r = (case run_ops rw_step (h r) new_rw of
      (w, True) \<Rightarrow> w
    | (w, False) \<Rightarrow> rw_WriteHeader 200 w)"

lemma rw_status_kept: "rw_status w = Some c \<Longrightarrow> rw_status (rw_step op w) = Some c"
  by (cases op) (simp_all add: rw_WriteHeader_def rw_Write_def rw_Flush_def)

lemma run_ops_append:
  "run_ops step (xs @ ys) w =
     (case run_ops step xs w of (w', True) \<Rightarrow> (w', True) | (w', False) \<Rightarrow> run_ops step ys w')"
  by (induction xs arbitrary: w) auto

lemma run_ops_invariant:
  assumes "\<And>op w. \<not> is_Panic op \<Longrightarrow> Q w \<Longrightarrow> Q (step op w)"
  shows "Q w \<Longrightarrow> Q (fst (run_ops step ops w))"
  using assms by (induction ops arbitrary: w) auto

lemma run_ops_relation:
  assumes "\<And>op v w. \<not> is_Panic op \<Longrightarrow> rel v w \<Longrightarrow> rel (step op v) (step' op w)"
  shows "rel v w \<Longrightarrow> rel (fst (run_ops step ops v)) (fst (run_ops step' ops w)) \<and>
    snd (run_ops step ops v) = snd (run_ops step' ops w)"
  using assms by (induction ops arbitrary: v w) auto

text \<open>\<^verbatim>\<open>http.Error\<close> and \<^verbatim>\<open>http.Redirect\<close>'s status and location.\<close>

definition http_Error :: "string \<Rightarrow> int \<Rightarrow> wop list" where
  "http_Error msg code =
     [HDel ''Content-Length'', HSet ''Content-Type'' ''text/plain; charset=utf-8'',
      HSet ''X-Content-Type-Options'' ''nosniff'', WriteHeader code, Write (msg @ [CHR 0x0A])]"

section \<open>Hosts with ports\<close>

text \<open>
  \<^verbatim>\<open>net.SplitHostPort\<close> gives the host without brackets and the port, and fails when there is no port,
  when an unbracketed host has a colon, or when brackets are misplaced.
\<close>

definition last_index :: "'a list \<Rightarrow> 'a \<Rightarrow> nat option" where
  "last_index s c =
     (if c \<in> set s then Some (length s - 1 - length (takeWhile (\<lambda>x. x \<noteq> c) (rev s))) else None)"

definition SplitHostPort :: "string \<Rightarrow> (string \<times> string) option" where
  "SplitHostPort hp =
     (case last_index hp CHR '':'' of
        None \<Rightarrow> None
      | Some i \<Rightarrow>
          let port = drop (i + 1) hp
          in if hp \<noteq> [] \<and> hd hp = CHR ''['' then
               (let e = length (takeWhile (\<lambda>x. x \<noteq> CHR '']'') hp)
                in if e = length hp \<or> e + 1 \<noteq> i \<or> CHR ''['' \<in> set (tl hp) \<or> CHR '']'' \<in> set (drop (e + 1) hp)
                   then None else Some (take (e - 1) (tl hp), port))
             else if CHR '':'' \<in> set (take i hp) \<or> CHR ''['' \<in> set hp \<or> CHR '']'' \<in> set hp then None
             else Some (take i hp, port))"

end
