(* ===== verification/Cache_Storage.thy ===== *)
theory Cache_Storage
  imports Go_Http
begin

text \<open>
  The storage interface of the response cache (\<^verbatim>\<open>pkg/cache/storage.go\<close>): the metadata of an entry,
  how long it may be served, and the contract of a backend as a locale.
\<close>

section \<open>Metadata\<close>

record Meta =
  me_Header :: Header
  me_PrimaryHex :: string
  me_Host :: string
  me_URI :: string
  me_Vary :: "string list"
  me_Tags :: "string list"
  me_Created :: int
  me_FreshUntil :: int
  me_StaleWhileRevalidate :: int
  me_StaleIfError :: int
  me_Size :: int
  me_Status :: int

definition serveableUntil :: "Meta \<Rightarrow> int" where
  "serveableUntil m =
     (let window = me_StaleWhileRevalidate m;
          window1 = (if window < me_StaleIfError m then me_StaleIfError m else window)
      in me_FreshUntil m + window1)"

text \<open>A stored entry: its metadata and body.\<close>

type_synonym entry = "Meta \<times> string"

section \<open>Runs of operations\<close>

datatype store_op = Get string | Commit string entry | Delete string

fun op_run ::
  "('s \<Rightarrow> string \<Rightarrow> 's \<times> entry option) \<Rightarrow> ('s \<Rightarrow> string \<Rightarrow> entry \<Rightarrow> 's) \<Rightarrow> ('s \<Rightarrow> string \<Rightarrow> 's)
     \<Rightarrow> store_op list \<Rightarrow> 's \<Rightarrow> 's"
where
  "op_run get commit delete [] s = s"
| "op_run get commit delete (Get k # ops) s = op_run get commit delete ops (fst (get s k))"
| "op_run get commit delete (Commit k e # ops) s = op_run get commit delete ops (commit s k e)"
| "op_run get commit delete (Delete k # ops) s = op_run get commit delete ops (delete s k)"

text \<open>The entry last committed under a key and not deleted since.\<close>

fun op_commits :: "store_op list \<Rightarrow> string \<Rightarrow> entry option \<Rightarrow> entry option" where
  "op_commits [] k cur = cur"
| "op_commits (Get _ # ops) k cur = op_commits ops k cur"
| "op_commits (Commit k' e # ops) k cur = op_commits ops k (if k = k' then Some e else cur)"
| "op_commits (Delete k' # ops) k cur = op_commits ops k (if k = k' then None else cur)"

fun op_entries :: "store_op list \<Rightarrow> entry list" where
  "op_entries [] = []"
| "op_entries (Commit k e # ops) = e # op_entries ops"
| "op_entries (op # ops) = op_entries ops"

section \<open>The contract of a backend\<close>

text \<open>
  \<open>get\<close> also returns the state, since a hit refreshes recency. A commit may fail or evict, so it
  only bounds what is stored afterwards; a delete is certain; and reading changes nothing a later
  read can see. \<open>okm\<close> is what the backend needs of an entry it is given.
\<close>

locale entry_store =
  fixes get :: "'s \<Rightarrow> string \<Rightarrow> 's \<times> entry option"
    and commit :: "'s \<Rightarrow> string \<Rightarrow> entry \<Rightarrow> 's"
    and delete :: "'s \<Rightarrow> string \<Rightarrow> 's"
    and ok :: "'s \<Rightarrow> bool"
    and okm :: "entry \<Rightarrow> bool"
  assumes get_ok: "ok s \<Longrightarrow> ok (fst (get s k))"
    and get_same: "ok s \<Longrightarrow> snd (get (fst (get s k)) k') = snd (get s k')"
    and commit_ok: "ok s \<Longrightarrow> okm e \<Longrightarrow> ok (commit s k e)"
    and commit_get: "ok s \<Longrightarrow> okm e \<Longrightarrow>
      snd (get (commit s k e) k') = None \<or>
      snd (get (commit s k e) k') = (if k' = k then Some e else snd (get s k'))"
    and delete_ok: "ok s \<Longrightarrow> ok (delete s k)"
    and delete_get: "ok s \<Longrightarrow>
      snd (get (delete s k) k') = (if k' = k then None else snd (get s k'))"
begin

lemma op_run_sound:
  "ok s \<Longrightarrow> list_all okm (op_entries ops) \<Longrightarrow>
     snd (get s k) = None \<or> snd (get s k) = cur \<Longrightarrow>
     ok (op_run get commit delete ops s) \<and> (snd (get (op_run get commit delete ops s) k) = None \<or> snd (get (op_run get commit delete ops s) k) = op_commits ops k cur)"
proof (induction ops arbitrary: s cur)
  case (Cons op ops)
  show ?case
  proof (cases op)
    case (Get k1)
    then show ?thesis using Cons.prems get_ok get_same by (simp add: Cons.IH)
  next
    case (Commit k1 e)
    have "okm e" using Cons.prems(2) Commit by simp
    moreover have "snd (get (commit s k1 e) k) = None \<or> snd (get (commit s k1 e) k) = (if k = k1 then Some e else cur)"
      using commit_get [OF Cons.prems(1) \<open>okm e\<close>, of k1 k] Cons.prems(3) by (auto split: if_splits)
    ultimately show ?thesis
      using Commit Cons.prems commit_ok Cons.IH [of "commit s k1 e" "if k = k1 then Some e else cur"] by simp
  next
    case (Delete k1)
    have "snd (get (delete s k1) k) = None \<or> snd (get (delete s k1) k) = (if k = k1 then None else cur)"
      using delete_get [OF Cons.prems(1), of k1 k] Cons.prems(3) by (auto split: if_splits)
    then show ?thesis
      using Delete Cons.prems delete_ok Cons.IH [of "delete s k1" "if k = k1 then None else cur"] by simp
  qed
qed simp

end

end
