(* ===== verification/Cache_Memory.thy ===== *)
theory Cache_Memory
  imports Cache_LRU Cache_Storage
begin

text \<open>
  The in-memory backend (\<^verbatim>\<open>pkg/cache/memory.go\<close>): its operations undisturbed, which implement the
  storage contract, and cut where the code releases one lock before it takes another, with writers
  and deleters interleaving.
\<close>

record MemoryStorage =
  ms_m :: "string \<rightharpoonup> entry"
  ms_lru :: lru

definition NewMemory :: "int \<Rightarrow> MemoryStorage" where
  "NewMemory maxSize = \<lparr>ms_m = Map.empty, ms_lru = newLRU maxSize\<rparr>"

text \<open>The deep copy of \<^verbatim>\<open>cloneMeta\<close> is the value itself.\<close>

definition cloneMeta :: "Meta \<Rightarrow> Meta" where
  "cloneMeta m = m"

definition mem_Get :: "MemoryStorage \<Rightarrow> string \<Rightarrow> MemoryStorage \<times> entry option" where
  "mem_Get s k =
     (case ms_m s k of
        None \<Rightarrow> (s, None)
      | Some (m, body) \<Rightarrow> (s\<lparr>ms_lru := lru_touch (ms_lru s) k\<rparr>, Some (cloneMeta m, body)))"

text \<open>A writer buffers until it is committed or aborted, after which both do nothing.\<close>

record memWriter =
  mw_key :: string
  mw_buf :: string
  mw_done :: bool

definition mem_Writer :: "string \<Rightarrow> memWriter" where
  "mem_Writer k = \<lparr>mw_key = k, mw_buf = '''', mw_done = False\<rparr>"

definition mw_Write :: "memWriter \<Rightarrow> string \<Rightarrow> memWriter" where
  "mw_Write w p = w\<lparr>mw_buf := mw_buf w @ p\<rparr>"

definition mw_Abort :: "memWriter \<Rightarrow> memWriter" where
  "mw_Abort w = (if mw_done w then w else w\<lparr>mw_done := True, mw_buf := ''''\<rparr>)"

definition drop_victims :: "string list \<Rightarrow> MemoryStorage \<Rightarrow> MemoryStorage" where
  "drop_victims vs s = foldl (\<lambda>s v. s\<lparr>ms_m := (ms_m s)(v := None)\<rparr>) s vs"

definition mw_Commit :: "MemoryStorage \<Rightarrow> memWriter \<Rightarrow> Meta \<Rightarrow> MemoryStorage \<times> memWriter" where
  "mw_Commit s w meta =
     (if mw_done w then (s, w)
      else let s1 = s\<lparr>ms_m := (ms_m s)(mw_key w \<mapsto> (meta, mw_buf w))\<rparr>
           in case lru_admit (ms_lru s1) (mw_key w) (me_Size meta) of
                (l, victims) \<Rightarrow> (drop_victims victims (s1\<lparr>ms_lru := l\<rparr>), w\<lparr>mw_done := True\<rparr>))"

definition mem_Delete :: "MemoryStorage \<Rightarrow> string \<Rightarrow> MemoryStorage" where
  "mem_Delete s k = s\<lparr>ms_m := (ms_m s)(k := None), ms_lru := lru_remove (ms_lru s) k\<rparr>"

text \<open>
  \<^verbatim>\<open>Range\<close> visits a snapshot, in any order; the visitor may delete from the live store and stops the
  walk by returning false. \<open>snap\<close> is the snapshot in the order of the walk.
\<close>

fun mem_Range ::
  "(string \<Rightarrow> Meta \<Rightarrow> 's \<Rightarrow> 's \<times> bool) \<Rightarrow> (string \<times> Meta) list \<Rightarrow> 's \<Rightarrow> 's"
where
  "mem_Range fn [] s = s"
| "mem_Range fn ((k, m) # snap) s =
     (case fn k m s of (s', go) \<Rightarrow> if go then mem_Range fn snap s' else s')"

definition is_snapshot :: "MemoryStorage \<Rightarrow> (string \<times> Meta) list \<Rightarrow> bool" where
  "is_snapshot s snap \<longleftrightarrow> distinct (map fst snap) \<and>
     map_of snap = (\<lambda>k. map_option (\<lambda>e. cloneMeta (fst e)) (ms_m s k))"

text \<open>Committing a whole entry through a writer.\<close>

definition mem_commit :: "MemoryStorage \<Rightarrow> string \<Rightarrow> entry \<Rightarrow> MemoryStorage" where
  "mem_commit s k e = fst (mw_Commit s (mw_Write (mem_Writer k) (snd e)) (fst e))"

text \<open>Metadata of a given size, with nothing else set.\<close>

definition plain_meta :: "int \<Rightarrow> Meta" where
  "plain_meta sz = \<lparr>me_Header = Map.empty, me_PrimaryHex = '''', me_Host = '''', me_URI = ''/'', me_Vary = [],
     me_Tags = [], me_Created = 0, me_FreshUntil = 0, me_StaleWhileRevalidate = 0, me_StaleIfError = 0,
     me_Size = sz, me_Status = 200\<rparr>"

section \<open>The storage contract\<close>

definition weighed :: "(string \<rightharpoonup> entry) \<Rightarrow> lruItem \<Rightarrow> bool" where
  "weighed m it = (case m (li_key it) of None \<Rightarrow> False | Some e \<Rightarrow> me_Size (fst e) = li_size it)"

definition mem_ok :: "MemoryStorage \<Rightarrow> bool" where
  "mem_ok s \<longleftrightarrow> lru_ok (ms_lru s) \<and> dom (ms_m s) = set (keys (ms_lru s)) \<and>
     list_all (weighed (ms_m s)) (l_ll (ms_lru s))"

definition sized :: "entry \<Rightarrow> bool" where
  "sized e \<longleftrightarrow> me_Size (fst e) = int (length (snd e))"

lemma drop_victims_m: "ms_m (drop_victims vs s) = (\<lambda>k. if k \<in> set vs then None else ms_m s k)"
  by (induction vs arbitrary: s) (auto simp: drop_victims_def)

lemma drop_victims_lru [simp]: "ms_lru (drop_victims vs s) = ms_lru s"
  by (induction vs arbitrary: s) (auto simp: drop_victims_def)

lemma mem_commit_eq:
  "lru_admit (ms_lru s) k (me_Size (fst e)) = (l, vs) \<Longrightarrow>
     mem_commit s k e = drop_victims vs (s\<lparr>ms_m := (ms_m s)(k \<mapsto> e), ms_lru := l\<rparr>)"
  by (simp add: mem_commit_def mw_Commit_def mem_Writer_def mw_Write_def)

lemma mem_get_view [simp]: "snd (mem_Get s k) = ms_m s k"
  by (auto simp: mem_Get_def cloneMeta_def split: option.split prod.split)

lemma mem_get_m [simp]: "ms_m (fst (mem_Get s k)) = ms_m s"
  by (simp add: mem_Get_def split: option.split prod.split)

lemma mem_commit_m:
  assumes "lru_admit (ms_lru s) k (me_Size (fst e)) = (l, vs)"
  shows "ms_m (mem_commit s k e) = (\<lambda>k'. if k' \<in> set vs then None else ((ms_m s)(k \<mapsto> e)) k')"
    and "ms_lru (mem_commit s k e) = l"
  by (rule ext, simp_all add: mem_commit_eq [OF assms] drop_victims_m)

lemma mem_ok_lru: "mem_ok s \<Longrightarrow> lru_ok (ms_lru s)"
  by (simp add: mem_ok_def)

lemma mem_get_ok: "mem_ok s \<Longrightarrow> mem_ok (fst (mem_Get s k))"
  using lru_touch_items [of "ms_lru s" k]
  by (auto simp: mem_ok_def mem_Get_def lru_touch_ok lru_touch_keys list_all_iff
      split: option.split prod.split)

lemma mem_delete_ok: "mem_ok s \<Longrightarrow> mem_ok (mem_Delete s k)"
  using lru_remove_items [of _ "ms_lru s" k]
  by (auto simp: mem_ok_def mem_Delete_def lru_remove_ok lru_remove_keys list_all_iff weighed_def)

lemma mem_commit_ok:
  assumes "mem_ok s" "sized e"
  shows "mem_ok (mem_commit s k e)"
proof -
  obtain l vs where adm: "lru_admit (ms_lru s) k (me_Size (fst e)) = (l, vs)" by (meson surj_pair)
  note lru = mem_ok_lru [OF assms(1)]
  have sz: "0 \<le> me_Size (fst e)" using assms(2) by (simp add: sized_def)
  have "dom (ms_m (mem_commit s k e)) = set (keys l)"
    using assms(1) lru_admit_keys [OF lru sz adm]
    by (auto simp: mem_commit_m [OF adm] mem_ok_def dom_def)
  moreover have "weighed (ms_m (mem_commit s k e)) it"
    if "it \<in> set (l_ll l)" for it
  proof -
    have "li_key it \<in> set (keys l)" using that by (simp add: keys_def)
    then have "li_key it \<notin> set vs" using lru_admit_keys [OF lru sz adm] by simp
    then show ?thesis
      using lru_admit_items [OF lru sz adm that] assms(1)
      by (auto simp: mem_commit_m [OF adm] mem_ok_def list_all_iff weighed_def)
  qed
  ultimately show ?thesis
    using lru_admit_ok(1) [OF lru sz adm] by (simp add: mem_ok_def mem_commit_m [OF adm] list_all_iff)
qed

interpretation mem: entry_store mem_Get mem_commit mem_Delete mem_ok sized
proof
  fix s :: MemoryStorage and k k' :: string and e :: entry
  obtain l vs where adm: "lru_admit (ms_lru s) k (me_Size (fst e)) = (l, vs)" by (meson surj_pair)
  show "snd (mem_Get (mem_commit s k e) k') = None \<or>
      snd (mem_Get (mem_commit s k e) k') = (if k' = k then Some e else snd (mem_Get s k'))"
    by (simp add: mem_commit_m [OF adm])
qed (simp_all add: mem_get_ok mem_commit_ok mem_delete_ok, simp add: mem_Delete_def)

lemma NewMemory_ok: "0 \<le> mx \<Longrightarrow> mem_ok (NewMemory mx)"
  by (simp add: mem_ok_def NewMemory_def newLRU_ok) (simp add: newLRU_def keys_def)

section \<open>The byte bound\<close>

text \<open>The bytes stored, over the keys of the LRU, which are all the keys.\<close>

definition stored_bytes :: "MemoryStorage \<Rightarrow> int" where
  "stored_bytes s = (\<Sum>k \<in> dom (ms_m s). int (length (snd (the (ms_m s k)))))"

definition mem_sized :: "MemoryStorage \<Rightarrow> bool" where
  "mem_sized s \<longleftrightarrow> (\<forall>e \<in> ran (ms_m s). sized e)"

lemma stored_bytes_cur:
  assumes "mem_ok s" "mem_sized s"
  shows "stored_bytes s = l_cur (ms_lru s)"
proof -
  let ?ll = "l_ll (ms_lru s)"
  have d: "distinct (map li_key ?ll)" and dom: "dom (ms_m s) = set (map li_key ?ll)"
    using assms(1) by (simp_all add: mem_ok_def lru_ok_def lru_inv_def keys_def)
  have "stored_bytes s = sum_list (map (\<lambda>k. int (length (snd (the (ms_m s k))))) (map li_key ?ll))"
    unfolding stored_bytes_def dom using d by (simp only: sum_list_distinct_conv_sum_set)
  also have "\<dots> = sum_list (map li_size ?ll)"
  proof -
    have "int (length (snd (the (ms_m s (li_key it))))) = li_size it" if "it \<in> set ?ll" for it
    proof -
      have "weighed (ms_m s) it" using assms(1) that by (simp add: mem_ok_def list_all_iff)
      then obtain e where e: "ms_m s (li_key it) = Some e" "me_Size (fst e) = li_size it"
        by (auto simp: weighed_def split: option.splits)
      moreover have "sized e" using assms(2) e(1) ranI unfolding mem_sized_def by fast
      ultimately show ?thesis by (simp add: sized_def)
    qed
    then show ?thesis by (simp add: comp_def cong: map_cong)
  qed
  also have "\<dots> = l_cur (ms_lru s)"
    using assms(1) by (simp add: mem_ok_def lru_ok_def lru_inv_def lru_sum_def)
  finally show ?thesis .
qed

lemma mem_commit_sized: "mem_sized s \<Longrightarrow> sized e \<Longrightarrow> mem_sized (mem_commit s k e)"
proof -
  assume "mem_sized s" "sized e"
  obtain l vs where adm: "lru_admit (ms_lru s) k (me_Size (fst e)) = (l, vs)" by (meson surj_pair)
  have "ran (ms_m (mem_commit s k e)) \<subseteq> insert e (ran (ms_m s))"
    by (auto simp: mem_commit_m [OF adm] ran_def split: if_splits)
  then show ?thesis using \<open>mem_sized s\<close> \<open>sized e\<close> unfolding mem_sized_def by fast
qed

lemma mem_delete_sized: "mem_sized s \<Longrightarrow> mem_sized (mem_Delete s k)"
proof -
  have "ran (ms_m (mem_Delete s k)) \<subseteq> ran (ms_m s)"
    by (auto simp: mem_Delete_def ran_def split: if_splits)
  then show "mem_sized s \<Longrightarrow> mem_sized (mem_Delete s k)" unfolding mem_sized_def by fast
qed

abbreviation mem_run :: "store_op list \<Rightarrow> MemoryStorage \<Rightarrow> MemoryStorage" where
  "mem_run \<equiv> op_run mem_Get mem_commit mem_Delete"

lemma mem_commit_max: "mem_ok s \<Longrightarrow> sized e \<Longrightarrow> l_max (ms_lru (mem_commit s k e)) = l_max (ms_lru s)"
proof -
  assume "mem_ok s" "sized e"
  obtain l vs where adm: "lru_admit (ms_lru s) k (me_Size (fst e)) = (l, vs)" by (meson surj_pair)
  show ?thesis
    using lru_admit_ok(2) [OF _ _ adm] \<open>mem_ok s\<close> \<open>sized e\<close>
    by (simp add: mem_commit_m [OF adm] mem_ok_def sized_def)
qed

lemma mem_run_inv:
  "mem_ok s \<Longrightarrow> mem_sized s \<Longrightarrow> list_all sized (op_entries ops) \<Longrightarrow>
     mem_ok (mem_run ops s) \<and> mem_sized (mem_run ops s) \<and>
     l_max (ms_lru (mem_run ops s)) = l_max (ms_lru s)"
proof (induction ops arbitrary: s)
  case (Cons op ops)
  show ?case
  proof (cases op)
    case (Get k)
    have "mem_sized (fst (mem_Get s k))" using Cons.prems(2) by (simp add: mem_sized_def)
    moreover have "l_max (ms_lru (fst (mem_Get s k))) = l_max (ms_lru s)"
      by (simp add: mem_Get_def split: option.split prod.split)
    ultimately show ?thesis using Get Cons.prems Cons.IH mem_get_ok by simp
  next
    case (Commit k e)
    then show ?thesis
      using Cons.prems Cons.IH [of "mem_commit s k e"] by (simp add: mem_commit_ok mem_commit_sized mem_commit_max)
  next
    case (Delete k)
    then show ?thesis
      using Cons.prems Cons.IH [of "mem_Delete s k"] mem_delete_ok mem_delete_sized
      by (simp add: mem_Delete_def)
  qed
qed simp

lemma mem_bytes_bound:
  assumes "mem_ok s" "mem_sized s"
  shows "stored_bytes s \<le> l_max (ms_lru s)"
  using stored_bytes_cur [OF assms] assms(1) by (simp add: mem_ok_def lru_ok_def)

section \<open>Interleaving\<close>

text \<open>
  A committer writes the map, then admits to the LRU, then deletes each victim; a deleter deletes
  from the map, then from the LRU. Each line is one step: it runs under one of the two locks.
\<close>

datatype mem_pc =
    CommitWrite string entry
  | CommitAdmit string int
  | CommitEvict "string list"
  | DeleteMap string
  | DeleteLru string

fun mem_micro :: "mem_pc \<Rightarrow> MemoryStorage \<Rightarrow> MemoryStorage \<times> mem_pc option" where
  "mem_micro (CommitWrite k e) s =
     (s\<lparr>ms_m := (ms_m s)(k \<mapsto> e)\<rparr>, Some (CommitAdmit k (me_Size (fst e))))"
| "mem_micro (CommitAdmit k sz) s =
     (case lru_admit (ms_lru s) k sz of (l, vs) \<Rightarrow> (s\<lparr>ms_lru := l\<rparr>, Some (CommitEvict vs)))"
| "mem_micro (CommitEvict []) s = (s, None)"
| "mem_micro (CommitEvict (v # vs)) s = (s\<lparr>ms_m := (ms_m s)(v := None)\<rparr>, Some (CommitEvict vs))"
| "mem_micro (DeleteMap k) s = (s\<lparr>ms_m := (ms_m s)(k := None)\<rparr>, Some (DeleteLru k))"
| "mem_micro (DeleteLru k) s = (s\<lparr>ms_lru := lru_remove (ms_lru s) k\<rparr>, None)"

text \<open>Threads at their next step; a schedule names the thread that steps.\<close>

fun mem_sched :: "nat list \<Rightarrow> MemoryStorage \<times> mem_pc option list \<Rightarrow> MemoryStorage \<times> mem_pc option list" where
  "mem_sched [] c = c"
| "mem_sched (i # is) (s, ts) =
     (if i < length ts then
        (case ts ! i of
           None \<Rightarrow> mem_sched is (s, ts)
         | Some pc \<Rightarrow> (case mem_micro pc s of (s', nx) \<Rightarrow> mem_sched is (s', ts[i := nx])))
      else mem_sched is (s, ts))"

text \<open>A thread alone is the operation.\<close>

fun mem_alone :: "nat \<Rightarrow> mem_pc \<Rightarrow> MemoryStorage \<Rightarrow> MemoryStorage" where
  "mem_alone 0 pc s = s"
| "mem_alone (Suc n) pc s =
     (case mem_micro pc s of (s', None) \<Rightarrow> s' | (s', Some pc') \<Rightarrow> mem_alone n pc' s')"

lemma mem_alone_evict: "length vs < n \<Longrightarrow> mem_alone n (CommitEvict vs) s = drop_victims vs s"
proof (induction vs arbitrary: n s)
  case Nil
  then show ?case by (cases n) (simp_all add: drop_victims_def)
next
  case (Cons v vs)
  then show ?case by (cases n) (simp_all add: drop_victims_def)
qed

lemma mem_alone_commit:
  "lru_admit (ms_lru s) k (me_Size (fst e)) = (l, vs) \<Longrightarrow> length vs + 2 < n \<Longrightarrow>
     mem_alone n (CommitWrite k e) s = mem_commit s k e"
  by (cases n; cases "n - 1") (simp_all add: mem_alone_evict mem_commit_eq)

lemma mem_alone_delete: "mem_alone 2 (DeleteMap k) s = mem_Delete s k"
  by (simp add: numeral_2_eq_2 mem_Delete_def)

text \<open>In every interleaving the accounting stays within the cap.\<close>

definition pc_ok :: "mem_pc option \<Rightarrow> bool" where
  "pc_ok p = (case p of Some (CommitWrite k e) \<Rightarrow> sized e | Some (CommitAdmit k sz) \<Rightarrow> 0 \<le> sz | _ \<Rightarrow> True)"

lemma mem_micro_ok:
  assumes "lru_ok (ms_lru s)" "pc_ok (Some pc)" "mem_micro pc s = (s', nx)"
  shows "lru_ok (ms_lru s') \<and> pc_ok nx \<and> l_max (ms_lru s') = l_max (ms_lru s)"
  using assms
  by (cases "(pc, s)" rule: mem_micro.cases)
    (auto simp: pc_ok_def sized_def lru_remove_ok lru_admit_ok split: prod.splits)

lemma mem_sched_ok:
  "lru_ok (ms_lru s) \<Longrightarrow> list_all pc_ok ts \<Longrightarrow> mem_sched is (s, ts) = (s', ts') \<Longrightarrow>
     lru_ok (ms_lru s') \<and> l_max (ms_lru s') = l_max (ms_lru s)"
proof (induction "is" arbitrary: s ts)
  case (Cons i "is")
  show ?case
  proof (cases "i < length ts \<and> ts ! i \<noteq> None")
    case True
    then obtain pc where pc: "ts ! i = Some pc" by auto
    obtain s1 nx where m: "mem_micro pc s = (s1, nx)" by (meson surj_pair)
    have "pc_ok (Some pc)" using Cons.prems(2) True pc by (metis list_all_length)
    note step = mem_micro_ok [OF Cons.prems(1) this m]
    have "list_all pc_ok (ts[i := nx])"
      using Cons.prems(2) step by (auto simp: list_all_iff dest: set_update_subset_insert [THEN subsetD])
    then show ?thesis using Cons.IH [of s1 "ts[i := nx]"] Cons.prems(3) True pc m step by simp
  next
    case False
    then have "mem_sched is (s, ts) = (s', ts')"
      using Cons.prems(3) by (auto split: if_splits option.splits)
    then show ?thesis using Cons.IH Cons.prems by blast
  qed
qed simp

section \<open>Properties\<close>



text \<open>However committers and deleters interleave, the bytes the LRU accounts for never exceed the
  cap and are the sum over its keys.\<close>

theorem memory_accounting_interleaved:
  assumes "0 \<le> mx" "list_all pc_ok ts" "mem_sched is (NewMemory mx, ts) = (s', ts')"
  shows "lru_inv (ms_lru s') \<and> l_cur (ms_lru s') \<le> mx"
  using mem_sched_ok [OF _ assms(2,3)] newLRU_ok [OF assms(1)]
  by (simp add: NewMemory_def lru_ok_def) (simp add: newLRU_def)

theorem memory_accounting_interleaved_witness:
  "list_all pc_ok [Some (DeleteMap ''a''), Some (CommitWrite ''a'' (plain_meta 3, ''new''))] \<and>
   l_cur (ms_lru (fst (mem_sched [1, 0, 1, 0]
     (NewMemory 4, [Some (DeleteMap ''a''), Some (CommitWrite ''a'' (plain_meta 3, ''new''))])))) \<le> 4"
proof -
  let ?ts = "[Some (DeleteMap ''a''), Some (CommitWrite ''a'' (plain_meta 3, ''new''))]"
  have "list_all pc_ok ?ts" by (simp add: pc_ok_def sized_def plain_meta_def)
  then show ?thesis
    using memory_accounting_interleaved [of 4 ?ts "[1, 0, 1, 0]"] by (metis prod.collapse zero_le_numeral)
qed

text \<open>A delete that runs its second half after the same key is committed again leaves an entry the LRU
  does not know: with a cap of 4 bytes two bodies of 3 bytes stay stored.\<close>

theorem memory_delete_race_leaks:
  "case mem_sched [0, 1, 1, 1, 0, 2, 2, 2]
      (mem_commit (NewMemory 4) ''a'' (plain_meta 3, ''old''),
       [Some (DeleteMap ''a''), Some (CommitWrite ''a'' (plain_meta 3, ''new'')),
        Some (CommitWrite ''b'' (plain_meta 3, ''two''))]) of
     (s, ts) \<Rightarrow> list_all Option.is_none ts \<and> map_option snd (ms_m s ''a'') = Some ''new'' \<and>
       map_option snd (ms_m s ''b'') = Some ''two'' \<and> keys (ms_lru s) = [''b''] \<and>
       l_cur (ms_lru s) = 3 \<and> l_max (ms_lru s) = 4"
  by code_simp

end
