(* ===== verification/Cache_Purge.thy ===== *)
theory Cache_Purge
  imports Cache_Memory "HOL-Library.AList"
begin

text \<open>
  The purge table (\<^verbatim>\<open>pkg/cache/purge\<close>): the epochs stamped by purges, the epoch that applies to an
  entry, the folding of overfull scopes, snapshots, and the reaper. A Go map is an association list
  with distinct keys. The hash of \<^verbatim>\<open>urlKey\<close> is a parameter. The mutex makes every operation one step.
\<close>

record PrefixRec =
  pr_Prefix :: string
  pr_Epoch :: int

record Table =
  t_host :: "(string \<times> int) list"
  t_url :: "(string \<times> int) list"
  t_prefix :: "(string \<times> PrefixRec list) list"
  t_tag :: "(string \<times> int) list"
  t_global :: int
  t_highWater :: int
  t_folds :: u64
  t_maxRecs :: nat
  t_active :: bool

definition defaultMaxRecords :: nat where
  "defaultMaxRecords = 65536"

definition purge_New :: "int \<Rightarrow> Table" where
  "purge_New n = \<lparr>t_host = [], t_url = [], t_prefix = [], t_tag = [], t_global = 0, t_highWater = 0,
     t_folds = 0, t_maxRecs = (if 0 < n then nat n else defaultMaxRecords), t_active = False\<rparr>"

section \<open>Keys\<close>

definition normHost :: "string \<Rightarrow> string" where
  "normHost host = (let h = ToLower host in case SplitHostPort h of Some (hh, _) \<Rightarrow> hh | None \<Rightarrow> h)"

definition urlKey :: "(string \<Rightarrow> string) \<Rightarrow> string \<Rightarrow> string \<Rightarrow> string" where
  "urlKey hash host uri = hash (host @ [CHR 0x0A] @ uri)"

definition pathOf :: "string \<Rightarrow> string" where
  "pathOf uri = (let i = IndexByte uri CHR ''?'' in if 0 \<le> i then take (nat i) uri else uri)"

definition normalizePrefix :: "string \<Rightarrow> string" where
  "normalizePrefix p = TrimRight_by (\<lambda>c. c = CHR ''/'') p"

definition matchPrefix :: "string \<Rightarrow> string \<Rightarrow> bool" where
  "matchPrefix path pre \<longleftrightarrow> (if pre = '''' then True else path = pre \<or> HasPrefix path (pre @ ''/''))"

section \<open>Epochs\<close>

definition stamp :: "int \<Rightarrow> Table \<Rightarrow> int \<times> Table" where
  "stamp now t =
     (let n = (if now < t_highWater t then t_highWater t else now)
      in (n, t\<lparr>t_highWater := n, t_active := True\<rparr>))"

definition prefixCount :: "Table \<Rightarrow> nat" where
  "prefixCount t = sum_list (map (length \<circ> snd) (t_prefix t))"

definition enforceCapLocked :: "Table \<Rightarrow> Table" where
  "enforceCapLocked t =
     (let u = t_maxRecs t < length (t_url t);
          h = t_maxRecs t < length (t_host t);
          p = t_maxRecs t < prefixCount t;
          g = t_maxRecs t < length (t_tag t);
          t1 = t\<lparr>t_url := (if u then [] else t_url t), t_host := (if h then [] else t_host t),
                 t_prefix := (if p then [] else t_prefix t), t_tag := (if g then [] else t_tag t)\<rparr>
      in if u \<or> h \<or> p \<or> g
         then t1\<lparr>t_global := t_highWater t1, t_folds := t_folds t1 + 1\<rparr> else t1)"

fun apply_rec :: "string \<Rightarrow> int \<Rightarrow> PrefixRec list \<Rightarrow> PrefixRec list" where
  "apply_rec prefix epoch [] = [\<lparr>pr_Prefix = prefix, pr_Epoch = epoch\<rparr>]"
| "apply_rec prefix epoch (r # recs) =
     (if pr_Prefix r = prefix then (if pr_Epoch r < epoch then r\<lparr>pr_Epoch := epoch\<rparr> else r) # recs
      else r # apply_rec prefix epoch recs)"

definition get_list :: "('k \<times> 'a list) list \<Rightarrow> 'k \<Rightarrow> 'a list" where
  "get_list m k = (case map_of m k of None \<Rightarrow> [] | Some v \<Rightarrow> v)"

definition get_int :: "('k \<times> int) list \<Rightarrow> 'k \<Rightarrow> int" where
  "get_int m k = (case map_of m k of None \<Rightarrow> 0 | Some v \<Rightarrow> v)"

definition applyPrefixLocked :: "string \<Rightarrow> string \<Rightarrow> int \<Rightarrow> Table \<Rightarrow> Table" where
  "applyPrefixLocked host prefix epoch t =
     t\<lparr>t_prefix := AList.update host (apply_rec prefix epoch (get_list (t_prefix t) host)) (t_prefix t)\<rparr>"

section \<open>Purges\<close>

definition FlushAll :: "int \<Rightarrow> Table \<Rightarrow> Table" where
  "FlushAll now t = (case stamp now t of (n, t1) \<Rightarrow>
     t1\<lparr>t_global := n, t_host := [], t_url := [], t_prefix := [], t_tag := []\<rparr>)"

definition PurgeHost :: "int \<Rightarrow> string \<Rightarrow> Table \<Rightarrow> Table" where
  "PurgeHost now host t =
     (let h = normHost host
      in if h = '''' then t
         else case stamp now t of (n, t1) \<Rightarrow>
           enforceCapLocked (t1\<lparr>t_host := AList.update h n (t_host t1)\<rparr>))"

definition PurgeURL :: "(string \<Rightarrow> string) \<Rightarrow> int \<Rightarrow> string \<Rightarrow> string \<Rightarrow> Table \<Rightarrow> Table" where
  "PurgeURL hash now host uri t =
     (let h = normHost host
      in if h = '''' then t
         else case stamp now t of (n, t1) \<Rightarrow>
           enforceCapLocked (t1\<lparr>t_url := AList.update (urlKey hash h uri) n (t_url t1)\<rparr>))"

definition PurgePrefix :: "int \<Rightarrow> string \<Rightarrow> string \<Rightarrow> Table \<Rightarrow> Table" where
  "PurgePrefix now host prefix t =
     (let h = normHost host
      in if h = '''' then t
         else case stamp now t of (n, t1) \<Rightarrow>
           enforceCapLocked (applyPrefixLocked h (normalizePrefix prefix) n t1))"

definition PurgeTag :: "int \<Rightarrow> string \<Rightarrow> Table \<Rightarrow> Table" where
  "PurgeTag now tag t =
     (if tag = '''' then t
      else case stamp now t of (n, t1) \<Rightarrow>
        enforceCapLocked (t1\<lparr>t_tag := AList.update tag n (t_tag t1)\<rparr>))"

section \<open>Lookup\<close>

definition raise_to :: "int \<Rightarrow> int \<Rightarrow> int" where
  "raise_to e v = (if e < v then v else e)"

definition raise_prefix :: "string \<Rightarrow> int \<Rightarrow> PrefixRec \<Rightarrow> int" where
  "raise_prefix path e p = (if e < pr_Epoch p \<and> matchPrefix path (pr_Prefix p) then pr_Epoch p else e)"

definition epochFor :: "(string \<Rightarrow> string) \<Rightarrow> Table \<Rightarrow> string \<Rightarrow> string \<Rightarrow> string list \<Rightarrow> int" where
  "epochFor hash t host uri tags =
     (if \<not> t_active t then 0
      else let e0 = t_global t;
               e1 = raise_to e0 (get_int (t_host t) host);
               e2 = raise_to e1 (get_int (t_url t) (urlKey hash host uri));
               e3 = foldl (raise_prefix (pathOf uri)) e2 (get_list (t_prefix t) host)
           in foldl (\<lambda>e tg. raise_to e (get_int (t_tag t) tg)) e3 tags)"

definition InvalidatedAfter :: "(string \<Rightarrow> string) \<Rightarrow> Table \<Rightarrow> HttpRequest \<Rightarrow> Meta \<Rightarrow> int" where
  "InvalidatedAfter hash t r m = epochFor hash t (normHost (hr_Host r)) (hr_URI r) (me_Tags m)"

definition InvalidatedAfterMeta :: "(string \<Rightarrow> string) \<Rightarrow> Table \<Rightarrow> Meta \<Rightarrow> int" where
  "InvalidatedAfterMeta hash t m = epochFor hash t (normHost (me_Host m)) (me_URI m) (me_Tags m)"

section \<open>Snapshots, statistics and the reaper\<close>

record Snapshot =
  sn_Host :: "(string \<times> int) list"
  sn_URL :: "(string \<times> int) list"
  sn_Prefix :: "(string \<times> PrefixRec list) list"
  sn_Tag :: "(string \<times> int) list"
  sn_Global :: int

definition take_Snapshot :: "Table \<Rightarrow> Snapshot" where
  "take_Snapshot t = \<lparr>sn_Host = t_host t, sn_URL = t_url t, sn_Prefix = t_prefix t, sn_Tag = t_tag t,
     sn_Global = t_global t\<rparr>"

definition Restore :: "Snapshot \<Rightarrow> Table \<Rightarrow> Table" where
  "Restore s t =
     (let hw0 = sn_Global s;
          hw1 = foldl raise_to hw0 (map snd (sn_Host s));
          hw2 = foldl raise_to hw1 (map snd (sn_URL s));
          hw3 = foldl raise_to hw2 (map pr_Epoch (concat (map snd (sn_Prefix s))));
          hw4 = foldl raise_to hw3 (map snd (sn_Tag s))
      in t\<lparr>t_host := sn_Host s, t_url := sn_URL s, t_prefix := sn_Prefix s, t_tag := sn_Tag s,
           t_global := sn_Global s, t_highWater := hw4, t_active := (if 0 < hw4 then True else t_active t)\<rparr>)"

record Stats =
  st_Global :: int
  st_HostRecs :: nat
  st_URLRecs :: nat
  st_PrefixRecs :: nat
  st_TagRecs :: nat
  st_Folds :: u64

definition table_Stats :: "Table \<Rightarrow> Stats" where
  "table_Stats t = \<lparr>st_Global = t_global t, st_HostRecs = length (t_host t), st_URLRecs = length (t_url t),
     st_PrefixRecs = prefixCount t, st_TagRecs = length (t_tag t), st_Folds = t_folds t\<rparr>"

text \<open>The reaper over the in-memory store, whose \<^verbatim>\<open>Range\<close> walks the snapshot \<open>snap\<close>.\<close>

definition reap_visit ::
  "(string \<Rightarrow> string) \<Rightarrow> Table \<Rightarrow> string \<Rightarrow> Meta \<Rightarrow> MemoryStorage \<times> nat \<Rightarrow> (MemoryStorage \<times> nat) \<times> bool"
where
  "reap_visit hash t k m s =
     (if me_Created m \<le> InvalidatedAfterMeta hash t m then ((mem_Delete (fst s) k, snd s + 1), True)
      else (s, True))"

definition Reap ::
  "(string \<Rightarrow> string) \<Rightarrow> Table \<Rightarrow> (string \<times> Meta) list \<Rightarrow> MemoryStorage \<Rightarrow> MemoryStorage \<times> nat"
where
  "Reap hash t snap s = (if \<not> t_active t then (s, 0) else mem_Range (reap_visit hash t) snap (s, 0))"

section \<open>The epoch of an entry as a maximum\<close>

lemma raise_to_max: "raise_to = max"
  by (intro ext) (simp add: raise_to_def max_def)

lemma foldl_raise_prefix:
  "foldl (raise_prefix path) e recs =
     foldl max e (map pr_Epoch (filter (\<lambda>p. matchPrefix path (pr_Prefix p)) recs))"
proof (induction recs arbitrary: e)
  case (Cons r recs)
  have "raise_prefix path e r = (if matchPrefix path (pr_Prefix r) then max e (pr_Epoch r) else e)"
    by (simp add: raise_prefix_def max_def)
  with Cons show ?case by simp
qed simp

lemma foldl_max_ge: "(e :: int) \<le> foldl max e xs"
  by (induction xs arbitrary: e) (auto intro: order.trans [OF max.cobounded1])

lemma foldl_max_mem: "x \<in> set xs \<Longrightarrow> (x :: int) \<le> foldl max e xs"
proof (induction xs arbitrary: e)
  case (Cons y xs)
  then show ?case using foldl_max_ge [of "max e y" xs] by auto
qed simp

lemma foldl_max_cases: "foldl max (e :: int) xs = e \<or> foldl max e xs \<in> set xs"
proof (induction xs arbitrary: e)
  case (Cons x xs)
  from Cons [of "max e x"] show ?case by (auto simp: max_def split: if_splits)
qed simp

lemma foldl_max_le: "foldl max (e :: int) xs \<le> b \<longleftrightarrow> e \<le> b \<and> (\<forall>x \<in> set xs. x \<le> b)"
  by (induction xs arbitrary: e) auto

definition applying :: "(string \<Rightarrow> string) \<Rightarrow> Table \<Rightarrow> string \<Rightarrow> string \<Rightarrow> string list \<Rightarrow> int list" where
  "applying hash t host uri tags =
     get_int (t_host t) host # get_int (t_url t) (urlKey hash host uri) #
     map pr_Epoch (filter (\<lambda>p. matchPrefix (pathOf uri) (pr_Prefix p)) (get_list (t_prefix t) host)) @
     map (get_int (t_tag t)) tags"

lemma epochFor_max:
  "t_active t \<Longrightarrow> epochFor hash t host uri tags = foldl max (t_global t) (applying hash t host uri tags)"
  by (simp add: epochFor_def applying_def foldl_raise_prefix raise_to_max foldl_map Let_def)

section \<open>Epochs never fall\<close>

definition epochs :: "Table \<Rightarrow> int list" where
  "epochs t = t_global t # map snd (t_host t) @ map snd (t_url t) @
     map pr_Epoch (concat (map snd (t_prefix t))) @ map snd (t_tag t)"

definition bounded :: "Table \<Rightarrow> bool" where
  "bounded t \<longleftrightarrow> list_all (\<lambda>e. 0 \<le> e \<and> e \<le> t_highWater t) (epochs t)"

definition dormant :: "Table \<Rightarrow> bool" where
  "dormant t \<longleftrightarrow> t_active t \<or> (t_host t = [] \<and> t_url t = [] \<and> t_prefix t = [] \<and> t_tag t = [] \<and> t_global t = 0)"

text \<open>Every record of the first table is matched or overtaken in the second.\<close>

definition dominated :: "Table \<Rightarrow> Table \<Rightarrow> bool" where
  "dominated t t' \<longleftrightarrow> t_global t \<le> t_global t' \<and>
     (\<forall>k. get_int (t_host t) k \<le> max (t_global t') (get_int (t_host t') k)) \<and>
     (\<forall>k. get_int (t_url t) k \<le> max (t_global t') (get_int (t_url t') k)) \<and>
     (\<forall>k. get_int (t_tag t) k \<le> max (t_global t') (get_int (t_tag t') k)) \<and>
     (\<forall>k. \<forall>r \<in> set (get_list (t_prefix t) k). pr_Epoch r \<le> t_global t' \<or>
        (\<exists>r' \<in> set (get_list (t_prefix t') k). pr_Prefix r' = pr_Prefix r \<and> pr_Epoch r \<le> pr_Epoch r'))"

lemma dominated_epochFor:
  assumes "dominated t t'" "t_active t'" "t_active t \<or> 0 \<le> t_global t'"
  shows "epochFor hash t host uri tags \<le> epochFor hash t' host uri tags"
proof (cases "t_active t")
  case True
  let ?e = "foldl max (t_global t') (applying hash t' host uri tags)"
  have g: "t_global t' \<le> ?e" by (rule foldl_max_ge)
  have mem: "x \<le> ?e" if "x \<in> set (applying hash t' host uri tags)" for x
    using that by (rule foldl_max_mem)
  have "x \<le> ?e" if x: "x \<in> set (applying hash t host uri tags)" for x
  proof -
    consider "x = get_int (t_host t) host" | "x = get_int (t_url t) (urlKey hash host uri)"
      | r where "r \<in> set (get_list (t_prefix t) host)" "matchPrefix (pathOf uri) (pr_Prefix r)" "x = pr_Epoch r"
      | tg where "tg \<in> set tags" "x = get_int (t_tag t) tg"
      using x by (auto simp: applying_def)
    then show ?thesis
    proof cases
      case 1
      have "get_int (t_host t') host \<le> ?e" by (rule mem) (simp add: applying_def)
      moreover have "x \<le> max (t_global t') (get_int (t_host t') host)"
        using 1 assms(1) unfolding dominated_def by blast
      ultimately show ?thesis using g by linarith
    next
      case 2
      have "get_int (t_url t') (urlKey hash host uri) \<le> ?e" by (rule mem) (simp add: applying_def)
      moreover have "x \<le> max (t_global t') (get_int (t_url t') (urlKey hash host uri))"
        using 2 assms(1) unfolding dominated_def by blast
      ultimately show ?thesis using g by linarith
    next
      case 3
      from 3(1) assms(1) consider "pr_Epoch r \<le> t_global t'"
        | r' where "r' \<in> set (get_list (t_prefix t') host)" "pr_Prefix r' = pr_Prefix r" "pr_Epoch r \<le> pr_Epoch r'"
        unfolding dominated_def by blast
      then show ?thesis
      proof cases
        case 1
        then show ?thesis using 3(3) g by simp
      next
        case 2
        then have "pr_Epoch r' \<le> ?e" using 3(2) by (intro mem) (auto simp: applying_def)
        then show ?thesis using 2(3) 3(3) by simp
      qed
    next
      case 4
      have "get_int (t_tag t') tg \<le> ?e" by (rule mem) (use 4 in \<open>auto simp: applying_def\<close>)
      moreover have "x \<le> max (t_global t') (get_int (t_tag t') tg)"
        using 4 assms(1) unfolding dominated_def by blast
      ultimately show ?thesis using g by linarith
    qed
  qed
  moreover have "t_global t \<le> ?e" using g assms(1) unfolding dominated_def by linarith
  ultimately show ?thesis
    using True assms(2) by (simp add: epochFor_max foldl_max_le)
next
  case False
  then have "epochFor hash t host uri tags = 0" by (simp add: epochFor_def)
  moreover have "0 \<le> t_global t'" using False assms(3) by simp
  ultimately show ?thesis
    using foldl_max_ge [of "t_global t'" "applying hash t' host uri tags"]
    unfolding epochFor_max [OF assms(2)] by linarith
qed

lemma get_int_mem: "get_int m k = 0 \<or> get_int m k \<in> snd ` set m"
  by (auto simp: get_int_def split: option.split dest!: map_of_SomeD intro: rev_image_eqI)

lemma get_int_bound:
  assumes "\<forall>e \<in> snd ` set m. e \<le> b" "0 \<le> b"
  shows "get_int m k \<le> b"
  using get_int_mem [of m k] assms by auto

lemma get_int_update: "get_int (AList.update k v m) k' = (if k' = k then v else get_int m k')"
  by (simp add: get_int_def update_conv')

lemma get_list_update: "get_list (AList.update k v m) k' = (if k' = k then v else get_list m k')"
  by (simp add: get_list_def update_conv')

lemma get_list_mem: "r \<in> set (get_list m k) \<Longrightarrow> r \<in> set (concat (map snd m))"
proof (cases "map_of m k")
  case (Some v)
  assume "r \<in> set (get_list m k)"
  then show ?thesis using Some map_of_SomeD [OF Some] by (force simp: get_list_def)
qed (simp add: get_list_def)

lemma update_values: "snd ` set (AList.update k v m) \<subseteq> insert v (snd ` set m)"
  by (induction m) auto

lemma update_values_self: "v \<in> snd ` set (AList.update k v m)"
  by (induction m) auto

lemma apply_rec_mem:
  "r \<in> set (apply_rec p e recs) \<Longrightarrow> r \<in> set recs \<or> pr_Epoch r = e"
  by (induction recs) (auto split: if_splits)

lemma apply_rec_self:
  "\<exists>r \<in> set (apply_rec p e recs). pr_Prefix r = p \<and> e \<le> pr_Epoch r"
  by (induction recs) auto

lemma apply_rec_keeps:
  "r \<in> set recs \<Longrightarrow> \<exists>r' \<in> set (apply_rec p e recs). pr_Prefix r' = pr_Prefix r \<and> pr_Epoch r \<le> pr_Epoch r'"
  by (induction recs) auto

lemma boundedD:
  assumes "bounded t"
  shows "0 \<le> t_global t" "t_global t \<le> t_highWater t" "0 \<le> t_highWater t"
    "get_int (t_host t) k \<le> t_highWater t" "get_int (t_url t) k \<le> t_highWater t"
    "get_int (t_tag t) k \<le> t_highWater t"
    "r \<in> set (get_list (t_prefix t) k) \<Longrightarrow> pr_Epoch r \<le> t_highWater t"
proof -
  have b: "\<forall>e \<in> set (epochs t). 0 \<le> e \<and> e \<le> t_highWater t"
    using assms by (simp add: bounded_def list_all_iff)
  then show g: "0 \<le> t_global t" "t_global t \<le> t_highWater t" by (simp_all add: epochs_def)
  then show hw: "0 \<le> t_highWater t" by simp
  show "get_int (t_host t) k \<le> t_highWater t" "get_int (t_url t) k \<le> t_highWater t"
    "get_int (t_tag t) k \<le> t_highWater t"
    by (rule get_int_bound [OF _ hw]; use b in \<open>simp add: epochs_def\<close>)+
  show "pr_Epoch r \<le> t_highWater t" if "r \<in> set (get_list (t_prefix t) k)"
    using b get_list_mem [OF that] by (auto simp: epochs_def)
qed

text \<open>Raising the global epoch to the high-water mark overtakes everything.\<close>

lemma dominated_global:
  assumes "bounded t" "t_highWater t \<le> t_global t'"
  shows "dominated t t'"
  using boundedD [OF assms(1)] assms(2) unfolding dominated_def by (meson max.coboundedI1 order.trans)

lemma dominated_refl: "dominated t t"
  unfolding dominated_def by auto

lemma enforceCap_cases:
  obtains "enforceCapLocked t = t"
  | "t_global (enforceCapLocked t) = t_highWater t" "t_highWater (enforceCapLocked t) = t_highWater t"
    "set (epochs (enforceCapLocked t)) \<subseteq> insert (t_highWater t) (set (epochs t))"
    "t_active (enforceCapLocked t) = t_active t"
proof (cases "t_maxRecs t < length (t_url t) \<or> t_maxRecs t < length (t_host t) \<or>
    t_maxRecs t < prefixCount t \<or> t_maxRecs t < length (t_tag t)")
  case True
  then show thesis
    by (intro that(2)) (auto simp: enforceCapLocked_def Let_def epochs_def)
next
  case False
  then show thesis by (intro that(1)) (simp add: enforceCapLocked_def)
qed

lemma enforceCap_bounded: "bounded t \<Longrightarrow> bounded (enforceCapLocked t)"
  using boundedD(3) [of t]
  by (cases t rule: enforceCap_cases) (auto simp: bounded_def list_all_iff)

lemma enforceCap_dominated: "bounded t \<Longrightarrow> dominated t (enforceCapLocked t)"
  by (cases t rule: enforceCap_cases) (simp_all add: dominated_refl dominated_global)

lemma enforceCap_active [simp]: "t_active (enforceCapLocked t) = t_active t"
  by (cases t rule: enforceCap_cases) simp_all

section \<open>Sequences of purges\<close>

datatype purge =
    All
  | Host string
  | URL string string
  | Prefix string string
  | Tag string

fun purge_step :: "(string \<Rightarrow> string) \<Rightarrow> purge \<Rightarrow> int \<Rightarrow> Table \<Rightarrow> Table" where
  "purge_step hash All now t = FlushAll now t"
| "purge_step hash (Host h) now t = PurgeHost now h t"
| "purge_step hash (URL h u) now t = PurgeURL hash now h u t"
| "purge_step hash (Prefix h p) now t = PurgePrefix now h p t"
| "purge_step hash (Tag g) now t = PurgeTag now g t"

definition purge_all :: "(string \<Rightarrow> string) \<Rightarrow> (purge \<times> int) list \<Rightarrow> Table \<Rightarrow> Table" where
  "purge_all hash ps t = foldl (\<lambda>t (p, now). purge_step hash p now t) t ps"

text \<open>The entries a purge is about, by normalized host, request URI and tags.\<close>

fun covers :: "purge \<Rightarrow> string \<Rightarrow> string \<Rightarrow> string list \<Rightarrow> bool" where
  "covers All host uri tags \<longleftrightarrow> True"
| "covers (Host h) host uri tags \<longleftrightarrow> normHost h = host \<and> host \<noteq> ''''"
| "covers (URL h u) host uri tags \<longleftrightarrow> normHost h = host \<and> host \<noteq> '''' \<and> u = uri"
| "covers (Prefix h p) host uri tags \<longleftrightarrow>
     normHost h = host \<and> host \<noteq> '''' \<and> matchPrefix (pathOf uri) (normalizePrefix p)"
| "covers (Tag g) host uri tags \<longleftrightarrow> g \<noteq> '''' \<and> g \<in> set tags"

lemma stamp_bounded:
  assumes "bounded t" "stamp now t = (n, t1)"
  shows "bounded t1" "t_highWater t1 = n" "now \<le> n" "t_highWater t \<le> n" "t_active t1"
    "t_host t1 = t_host t" "t_url t1 = t_url t" "t_prefix t1 = t_prefix t" "t_tag t1 = t_tag t"
    "t_global t1 = t_global t"
proof -
  have n: "n = max now (t_highWater t)" and t1: "t1 = t\<lparr>t_highWater := n, t_active := True\<rparr>"
    using assms(2) by (auto simp: stamp_def Let_def)
  have "epochs t1 = epochs t" by (simp add: t1 epochs_def)
  then show "bounded t1" using assms(1) n by (auto simp: bounded_def list_all_iff t1)
qed (use assms(2) in \<open>auto simp: stamp_def Let_def\<close>)

text \<open>
  A purge that is not a no-op is a stamp, a write of the stamped epoch into one scope, and the cap.
  \<open>wrote n t u\<close> says that \<open>u\<close> is \<open>t\<close> with \<open>n\<close> written somewhere.
\<close>

definition wrote :: "int \<Rightarrow> Table \<Rightarrow> Table \<Rightarrow> bool" where
  "wrote n t u \<longleftrightarrow> dominated t u \<and> bounded u \<and> n \<in> set (epochs u) \<and> t_highWater u = n \<and> t_active u"

lemma wroteI:
  assumes "bounded t" "stamp now t = (n, t1)" "dominated t u" "t_highWater u = n" "t_active u"
    and "set (epochs u) \<subseteq> insert n (set (epochs t1))" "n \<in> set (epochs u)"
  shows "wrote n t u"
proof -
  note s = stamp_bounded [OF assms(1,2)]
  have "0 \<le> n" using boundedD(3) [OF s(1)] s(2) by simp
  then have "bounded u" using s(1,2) assms(4,6) by (auto simp: bounded_def list_all_iff)
  then show ?thesis using assms by (simp add: wrote_def)
qed

lemma wrote_host:
  assumes "bounded t" "stamp now t = (n, t1)"
  shows "wrote n t (t1\<lparr>t_host := AList.update h n (t_host t1)\<rparr>)"
proof (rule wroteI [OF assms])
  have "get_int (t_host t) h \<le> n"
    using order.trans [OF boundedD(4) [OF assms(1)] stamp_bounded(4) [OF assms]] .
  then show "dominated t (t1\<lparr>t_host := AList.update h n (t_host t1)\<rparr>)"
    unfolding dominated_def by (auto simp: stamp_bounded [OF assms] get_int_update)
qed (use update_values [of h n "t_host t1"] update_values_self [of n h "t_host t1"] in
    \<open>auto simp: epochs_def stamp_bounded [OF assms]\<close>)

lemma wrote_url:
  assumes "bounded t" "stamp now t = (n, t1)"
  shows "wrote n t (t1\<lparr>t_url := AList.update h n (t_url t1)\<rparr>)"
proof (rule wroteI [OF assms])
  have "get_int (t_url t) h \<le> n"
    using order.trans [OF boundedD(5) [OF assms(1)] stamp_bounded(4) [OF assms]] .
  then show "dominated t (t1\<lparr>t_url := AList.update h n (t_url t1)\<rparr>)"
    unfolding dominated_def by (auto simp: stamp_bounded [OF assms] get_int_update)
qed (use update_values [of h n "t_url t1"] update_values_self [of n h "t_url t1"] in
    \<open>auto simp: epochs_def stamp_bounded [OF assms]\<close>)

lemma wrote_tag:
  assumes "bounded t" "stamp now t = (n, t1)"
  shows "wrote n t (t1\<lparr>t_tag := AList.update h n (t_tag t1)\<rparr>)"
proof (rule wroteI [OF assms])
  have "get_int (t_tag t) h \<le> n"
    using order.trans [OF boundedD(6) [OF assms(1)] stamp_bounded(4) [OF assms]] .
  then show "dominated t (t1\<lparr>t_tag := AList.update h n (t_tag t1)\<rparr>)"
    unfolding dominated_def by (auto simp: stamp_bounded [OF assms] get_int_update)
qed (use update_values [of h n "t_tag t1"] update_values_self [of n h "t_tag t1"] in
    \<open>auto simp: epochs_def stamp_bounded [OF assms]\<close>)

lemma update_concat: "set (concat (map snd (AList.update k v m))) \<subseteq> set v \<union> set (concat (map snd m))"
  by (induction m) auto

lemma update_concat_self: "set v \<subseteq> set (concat (map snd (AList.update k v m)))"
  by (induction m) auto

lemma apply_rec_epoch:
  assumes "\<forall>r \<in> set recs. pr_Epoch r \<le> e"
  shows "e \<in> pr_Epoch ` set (apply_rec p e recs)"
proof -
  obtain r where r: "r \<in> set (apply_rec p e recs)" "e \<le> pr_Epoch r"
    using apply_rec_self [of p e recs] by blast
  then have "pr_Epoch r = e" using apply_rec_mem [OF r(1)] assms by fastforce
  then show ?thesis using r(1) by blast
qed

lemma set_epochs:
  "set (epochs t) = insert (t_global t) (snd ` set (t_host t) \<union> snd ` set (t_url t) \<union>
     pr_Epoch ` set (concat (map snd (t_prefix t))) \<union> snd ` set (t_tag t))"
  unfolding epochs_def by (simp only: set_simps set_append set_map Un_assoc)

lemma wrote_prefix:
  assumes "bounded t" "stamp now t = (n, t1)"
  shows "wrote n t (applyPrefixLocked h p n t1)"
proof -
  note s = stamp_bounded [OF assms]
  let ?recs = "get_list (t_prefix t1) h"
  let ?new = "apply_rec p n ?recs"
  have "pr_Epoch r \<le> n" if "r \<in> set ?recs" for r
    using boundedD(7) [OF s(1) that] s(2) by simp
  then have self: "n \<in> pr_Epoch ` set ?new" by (intro apply_rec_epoch) blast
  have new: "pr_Epoch ` set ?new \<subseteq> insert n (pr_Epoch ` set (concat (map snd (t_prefix t1))))"
    using apply_rec_mem [of _ p n ?recs] get_list_mem [of _ "t_prefix t1" h] by blast
  have sub: "pr_Epoch ` set (concat (map snd (AList.update h ?new (t_prefix t1)))) \<subseteq>
      insert n (pr_Epoch ` set (concat (map snd (t_prefix t1))))"
    using new image_mono [OF update_concat [of h ?new "t_prefix t1"], of pr_Epoch]
    unfolding image_Un by blast
  have sup: "n \<in> pr_Epoch ` set (concat (map snd (AList.update h ?new (t_prefix t1))))"
    using self image_mono [OF update_concat_self [of ?new h "t_prefix t1"], of pr_Epoch] by blast
  have "dominated t (applyPrefixLocked h p n t1)"
    unfolding dominated_def applyPrefixLocked_def
    by (auto simp: s get_list_update apply_rec_keeps)
  moreover have u: "t_global (applyPrefixLocked h p n t1) = t_global t1"
      "t_host (applyPrefixLocked h p n t1) = t_host t1" "t_url (applyPrefixLocked h p n t1) = t_url t1"
      "t_prefix (applyPrefixLocked h p n t1) = AList.update h ?new (t_prefix t1)"
      "t_tag (applyPrefixLocked h p n t1) = t_tag t1"
    by (simp_all add: applyPrefixLocked_def)
  moreover have "set (epochs (applyPrefixLocked h p n t1)) \<subseteq> insert n (set (epochs t1))"
    using sub unfolding set_epochs u by blast
  moreover have "n \<in> set (epochs (applyPrefixLocked h p n t1))"
    using sup unfolding set_epochs u by blast
  ultimately show ?thesis
    by (intro wroteI [OF assms]) (simp_all add: applyPrefixLocked_def s)
qed

lemma wrote_global:
  assumes "bounded t" "stamp now t = (n, t1)"
  shows "wrote n t (t1\<lparr>t_global := n, t_host := [], t_url := [], t_prefix := [], t_tag := []\<rparr>)"
  by (rule wroteI [OF assms])
    (auto simp: stamp_bounded [OF assms] dominated_global [OF assms(1)] epochs_def)

text \<open>A purge does nothing or ends in a written table, capped; a purge that covers something writes.\<close>

lemma purge_step_wrote:
  assumes "bounded t"
  obtains (nothing) "purge_step hash p now t = t" "\<And>host uri tags. \<not> covers p host uri tags"
  | (written) n u where "now \<le> n" "wrote n t u" "purge_step hash p now t = u \<or> purge_step hash p now t = enforceCapLocked u"
    "\<And>host uri tags. covers p host uri tags \<Longrightarrow> n = t_global u \<or> n \<in> set (applying hash u host uri tags) \<or>
        (\<exists>x \<in> set (applying hash u host uri tags). n \<le> x)"
proof -
  obtain n t1 where st: "stamp now t = (n, t1)" by (meson surj_pair)
  note now = stamp_bounded(3) [OF assms st]
  show thesis
  proof (cases p)
    case All
    show thesis
      by (rule written [OF now wrote_global [OF assms st]]) (simp_all add: All FlushAll_def st)
  next
    case (Host h)
    show thesis
    proof (cases "normHost h = ''''")
      case True
      show thesis by (rule nothing) (auto simp: True Host PurgeHost_def)
    next
      case False
      show thesis
        by (rule written [OF now wrote_host [OF assms st, of "normHost h"]])
          (auto simp: Host False PurgeHost_def st applying_def get_int_update)
    qed
  next
    case (URL h u)
    show thesis
    proof (cases "normHost h = ''''")
      case True
      show thesis by (rule nothing) (auto simp: True URL PurgeURL_def)
    next
      case False
      show thesis
        by (rule written [OF now wrote_url [OF assms st, of "urlKey hash (normHost h) u"]])
          (auto simp: URL False PurgeURL_def st applying_def get_int_update)
    qed
  next
    case (Prefix h p')
    show thesis
    proof (cases "normHost h = ''''")
      case True
      show thesis by (rule nothing) (auto simp: True Prefix PurgePrefix_def)
    next
      case False
      let ?recs = "get_list (t_prefix t1) (normHost h)"
      obtain r where r: "r \<in> set (apply_rec (normalizePrefix p') n ?recs)"
        "pr_Prefix r = normalizePrefix p'" "n \<le> pr_Epoch r"
        using apply_rec_self by blast
      show thesis
        by (rule written [OF now wrote_prefix [OF assms st, of "normHost h" "normalizePrefix p'"]])
          (use r in \<open>auto simp: Prefix False PurgePrefix_def Let_def st applying_def applyPrefixLocked_def get_list_update\<close>)
    qed
  next
    case (Tag g)
    show thesis
    proof (cases "g = ''''")
      case True
      show thesis by (rule nothing) (auto simp: True Tag PurgeTag_def)
    next
      case False
      show thesis
        by (rule written [OF now wrote_tag [OF assms st, of g]])
          (auto simp: Tag False PurgeTag_def st applying_def get_int_update)
    qed
  qed
qed

lemma wrote_mono:
  assumes "wrote n t u" "bounded t"
  shows "epochFor hash t host uri tags \<le> epochFor hash u host uri tags"
    and "epochFor hash u host uri tags \<le> epochFor hash (enforceCapLocked u) host uri tags"
proof -
  have u: "dominated t u" "bounded u" "t_active u" using assms(1) by (simp_all add: wrote_def)
  show "epochFor hash t host uri tags \<le> epochFor hash u host uri tags"
    using dominated_epochFor [OF u(1,3)] boundedD(1) [OF u(2)] by blast
  show "epochFor hash u host uri tags \<le> epochFor hash (enforceCapLocked u) host uri tags"
    using dominated_epochFor [OF enforceCap_dominated [OF u(2)]] u(3) by simp
qed

lemma purge_step_bounded: "bounded t \<Longrightarrow> bounded (purge_step hash p now t)"
proof -
  assume b: "bounded t"
  show ?thesis
    by (rule purge_step_wrote [OF b, of hash p now]) (auto simp: b wrote_def enforceCap_bounded)
qed

lemma purge_step_mono:
  assumes "bounded t"
  shows "epochFor hash t host uri tags \<le> epochFor hash (purge_step hash p now t) host uri tags"
proof (rule purge_step_wrote [OF assms, of hash p now])
  fix n u
  assume "wrote n t u" "purge_step hash p now t = u \<or> purge_step hash p now t = enforceCapLocked u"
  then show ?thesis using wrote_mono [OF \<open>wrote n t u\<close> assms] order.trans by metis
qed simp

lemma purge_step_covers:
  assumes "bounded t" "covers p host uri tags"
  shows "now \<le> epochFor hash (purge_step hash p now t) host uri tags"
proof (rule purge_step_wrote [OF assms(1), of hash p now])
  assume "\<And>host uri tags. \<not> covers p host uri tags"
  with assms(2) show ?thesis by blast
next
  fix n u
  assume n: "now \<le> n" and w: "wrote n t u"
    and s: "purge_step hash p now t = u \<or> purge_step hash p now t = enforceCapLocked u"
    and c: "\<And>host uri tags. covers p host uri tags \<Longrightarrow> n = t_global u \<or> n \<in> set (applying hash u host uri tags) \<or>
        (\<exists>x \<in> set (applying hash u host uri tags). n \<le> x)"
  have "n \<le> epochFor hash u host uri tags"
    using c [OF assms(2)] w foldl_max_ge [of "t_global u" "applying hash u host uri tags"]
      foldl_max_mem [of _ "applying hash u host uri tags" "t_global u"]
    by (auto simp: wrote_def epochFor_max intro: order.trans)
  then show ?thesis using s n wrote_mono(2) [OF w assms(1)] by (metis order.trans)
qed

lemma purge_all_Cons: "purge_all hash ((p, now) # ps) t = purge_all hash ps (purge_step hash p now t)"
  by (simp add: purge_all_def)

lemma purge_all_bounded: "bounded t \<Longrightarrow> bounded (purge_all hash ps t)"
  by (induction ps arbitrary: t) (auto simp: purge_all_Cons purge_step_bounded, simp add: purge_all_def)

lemma purge_all_mono:
  "bounded t \<Longrightarrow> epochFor hash t host uri tags \<le> epochFor hash (purge_all hash ps t) host uri tags"
proof (induction ps arbitrary: t)
  case (Cons a ps)
  obtain p now where a: "a = (p, now)" by (meson surj_pair)
  show ?case
    unfolding a purge_all_Cons
    using purge_step_mono [OF Cons.prems] Cons.IH [OF purge_step_bounded [OF Cons.prems]] order.trans by blast
qed (simp add: purge_all_def)

lemma purge_New_bounded: "bounded (purge_New n)"
  by (simp add: bounded_def purge_New_def epochs_def)

lemma purge_all_append: "purge_all hash (ps @ qs) t = purge_all hash qs (purge_all hash ps t)"
  by (simp add: purge_all_def)

lemma purge_covered:
  assumes "(p, now) \<in> set ps" "covers p host uri tags"
  shows "now \<le> epochFor hash (purge_all hash ps (purge_New n)) host uri tags"
proof -
  obtain as bs where ps: "ps = as @ (p, now) # bs" using assms(1) by (meson split_list)
  let ?t = "purge_all hash as (purge_New n)"
  have b: "bounded ?t" using purge_all_bounded [OF purge_New_bounded] .
  show ?thesis
    unfolding ps purge_all_append purge_all_Cons
    using purge_step_covers [OF b assms(2)] purge_all_mono [OF purge_step_bounded [OF b]] order.trans by blast
qed

section \<open>Restoring a snapshot\<close>

definition settled :: "Table \<Rightarrow> bool" where
  "settled t \<longleftrightarrow> bounded t \<and> t_highWater t \<in> set (epochs t) \<and> dormant t"

lemma global_epoch: "t_global t \<in> set (epochs t)"
  by (simp add: epochs_def)

lemma enforceCap_settled:
  assumes "settled u" "t_active u"
  shows "settled (enforceCapLocked u)"
proof (cases u rule: enforceCap_cases)
  case 1
  then show ?thesis using assms by simp
next
  case 2
  have "t_highWater (enforceCapLocked u) \<in> set (epochs (enforceCapLocked u))"
    using global_epoch [of "enforceCapLocked u"] 2(1,2) by simp
  then show ?thesis
    using assms enforceCap_bounded [of u] by (simp add: settled_def dormant_def)
qed

lemma purge_step_settled: "settled t \<Longrightarrow> settled (purge_step hash p now t)"
proof -
  assume s: "settled t"
  then have b: "bounded t" by (simp add: settled_def)
  show ?thesis
  proof (rule purge_step_wrote [OF b, of hash p now])
    fix n u
    assume w: "wrote n t u" and e: "purge_step hash p now t = u \<or> purge_step hash p now t = enforceCapLocked u"
    have u: "settled u" "t_active u" using w by (simp_all add: wrote_def settled_def dormant_def)
    show ?thesis using e u(1) enforceCap_settled [OF u] by auto
  qed (use s in simp)
qed

lemma purge_all_settled: "settled (purge_all hash ps (purge_New n))"
proof (induction ps rule: rev_induct)
  case Nil
  then show ?case
    by (simp add: settled_def purge_all_def purge_New_bounded) (simp add: dormant_def purge_New_def epochs_def)
next
  case (snoc a ps)
  then show ?case
    by (cases a) (simp add: purge_all_append purge_all_Cons purge_step_settled, simp add: purge_all_def purge_step_settled)
qed

lemma Restore_highWater:
  "t_highWater (Restore (take_Snapshot t) t') = foldl max (t_global t) (tl (epochs t))"
  by (simp add: Restore_def take_Snapshot_def raise_to_max epochs_def Let_def)

lemma settled_highWater:
  assumes "settled t"
  shows "foldl max (t_global t) (tl (epochs t)) = t_highWater t"
proof (rule antisym)
  show "foldl max (t_global t) (tl (epochs t)) \<le> t_highWater t"
    using assms by (auto simp: foldl_max_le settled_def bounded_def list_all_iff epochs_def)
  have "t_highWater t = t_global t \<or> t_highWater t \<in> set (tl (epochs t))"
    using assms by (auto simp: settled_def epochs_def)
  then show "t_highWater t \<le> foldl max (t_global t) (tl (epochs t))"
    using foldl_max_ge [of "t_global t"] foldl_max_mem by metis
qed

lemma applying_bound:
  assumes "bounded t" "x \<in> set (applying hash t host uri tags)"
  shows "x \<le> t_highWater t"
proof -
  consider "x = get_int (t_host t) host" | "x = get_int (t_url t) (urlKey hash host uri)"
    | r where "r \<in> set (get_list (t_prefix t) host)" "x = pr_Epoch r"
    | tg where "x = get_int (t_tag t) tg"
    using assms(2) by (auto simp: applying_def)
  then show ?thesis by cases (use boundedD [OF assms(1)] in blast)+
qed

lemma settled_dormant:
  assumes "settled t" "\<not> 0 < t_highWater t"
  shows "epochFor hash t host uri tags = 0"
proof (cases "t_active t")
  case True
  have b: "bounded t" using assms(1) by (simp add: settled_def)
  have "foldl max (t_global t) (applying hash t host uri tags) \<le> 0"
    unfolding foldl_max_le
    using applying_bound [OF b] boundedD(2) [OF b] assms(2) by fastforce
  moreover have "0 \<le> foldl max (t_global t) (applying hash t host uri tags)"
    using foldl_max_ge [of "t_global t" "applying hash t host uri tags"] boundedD(1) [OF b] by linarith
  ultimately show ?thesis unfolding epochFor_max [OF True] by linarith
qed (simp add: epochFor_def)

lemma settled_inactive:
  assumes "settled t" "0 < t_highWater t"
  shows "t_active t"
proof (rule ccontr)
  assume "\<not> t_active t"
  then have "epochs t = [0]" using assms(1) by (simp add: settled_def dormant_def epochs_def)
  then show False using assms by (simp add: settled_def)
qed

lemma Restore_epochFor:
  assumes "settled t"
  shows "epochFor hash (Restore (take_Snapshot t) (purge_New n)) host uri tags = epochFor hash t host uri tags"
proof -
  let ?t' = "Restore (take_Snapshot t) (purge_New n)"
  have maps: "t_host ?t' = t_host t" "t_url ?t' = t_url t" "t_prefix ?t' = t_prefix t" "t_tag ?t' = t_tag t"
    "t_global ?t' = t_global t"
    by (simp_all add: Restore_def take_Snapshot_def Let_def)
  have act: "t_active ?t' \<longleftrightarrow> 0 < t_highWater t"
    using Restore_highWater [of t "purge_New n"] settled_highWater [OF assms]
    by (simp add: Restore_def Let_def purge_New_def)
  show ?thesis
  proof (cases "0 < t_highWater t")
    case True
    then show ?thesis
      using settled_inactive [OF assms True] act maps by (simp add: epochFor_def)
  next
    case False
    then show ?thesis using settled_dormant [OF assms] act by (simp add: epochFor_def)
  qed
qed

section \<open>The record cap and the reaper\<close>

definition capped :: "Table \<Rightarrow> bool" where
  "capped t \<longleftrightarrow> length (t_host t) \<le> t_maxRecs t \<and> length (t_url t) \<le> t_maxRecs t \<and>
     prefixCount t \<le> t_maxRecs t \<and> length (t_tag t) \<le> t_maxRecs t"

lemma enforceCap_capped: "capped (enforceCapLocked t)"
  by (simp add: capped_def enforceCapLocked_def Let_def prefixCount_def)

lemma purge_step_capped: "capped t \<Longrightarrow> capped (purge_step hash p now t)"
  by (cases p)
    (simp_all add: FlushAll_def PurgeHost_def PurgeURL_def PurgePrefix_def PurgeTag_def Let_def
      enforceCap_capped split: prod.split, simp add: capped_def prefixCount_def)

lemma purge_all_capped: "capped (purge_all hash ps (purge_New n))"
proof (induction ps rule: rev_induct)
  case Nil
  then show ?case by (simp add: purge_all_def purge_New_def capped_def prefixCount_def)
next
  case (snoc a ps)
  then show ?case by (cases a) (simp add: purge_all_def purge_step_capped)
qed

lemma reap_range:
  "ms_m (fst (mem_Range (reap_visit hash t) snap (s, c))) k =
     (if \<exists>m. (k, m) \<in> set snap \<and> me_Created m \<le> InvalidatedAfterMeta hash t m then None else ms_m s k)"
proof (induction snap arbitrary: s c)
  case (Cons a snap)
  obtain k' m' where a: "a = (k', m')" by (meson surj_pair)
  show ?case
  proof (cases "me_Created m' \<le> InvalidatedAfterMeta hash t m'")
    case True
    then have "reap_visit hash t k' m' (s, c) = ((mem_Delete s k', c + 1), True)"
      by (simp add: reap_visit_def)
    then show ?thesis
      using True Cons.IH [of "mem_Delete s k'" "c + 1"] by (auto simp: a mem_Delete_def)
  next
    case False
    then have "reap_visit hash t k' m' (s, c) = ((s, c), True)" by (simp add: reap_visit_def)
    then show ?thesis using False Cons.IH [of s c] by (auto simp: a)
  qed
qed simp

lemma epochFor_inactive: "\<not> t_active t \<Longrightarrow> epochFor hash t host uri tags = 0"
  by (simp add: epochFor_def)

text \<open>A GET for a host and request URI.\<close>

definition purge_request :: "string \<Rightarrow> string \<Rightarrow> HttpRequest" where
  "purge_request host uri = \<lparr>hr_Method = ''GET'', hr_Host = host, hr_Path = uri, hr_RawPath = '''', hr_RawQuery = '''', hr_URI = uri,
     hr_Header = Map.empty, hr_TLS = False, hr_RemoteAddr = ''''\<rparr>"

section \<open>Properties\<close>

text \<open>C21. Whatever purges follow, at whatever clock readings, folded or not: an entry that a purge covers and
  that was created by the time of that purge stays invalid for the lookup hook.\<close>

theorem purge_never_undone:
  assumes "(p, now) \<in> set ps" "covers p (normHost (hr_Host r)) (hr_URI r) (me_Tags m)" "me_Created m \<le> now"
  shows "me_Created m \<le> InvalidatedAfter hash (purge_all hash ps (purge_New n)) r m"
  using purge_covered [OF assms(1,2)] assms(3) unfolding InvalidatedAfter_def by (rule order.trans [rotated])

theorem purge_never_undone_witness:
  "100 \<le> InvalidatedAfter id
     (purge_all id [(Prefix ''Example.com:80'' ''/blog/'', 100), (Host ''other'', 50), (URL ''example.com'' ''/x'', 20)] (purge_New 1))
     (purge_request ''example.com'' ''/blog/post?q=1'') ((plain_meta 3)\<lparr>me_Created := 100\<rparr>)"
proof -
  have "covers (Prefix ''Example.com:80'' ''/blog/'') (normHost ''example.com'') ''/blog/post?q=1'' []"
    by code_simp
  then show ?thesis
    using purge_never_undone [of "Prefix ''Example.com:80'' ''/blog/''" 100
        "[(Prefix ''Example.com:80'' ''/blog/'', 100), (Host ''other'', 50), (URL ''example.com'' ''/x'', 20)]"
        "purge_request ''example.com'' ''/blog/post?q=1''" "(plain_meta 3)\<lparr>me_Created := 100\<rparr>" id 1]
    by (simp add: purge_request_def plain_meta_def)
qed

text \<open>A snapshot taken after any purges and restored into a new table gives every lookup the epoch it had,
  with the same high-water mark, so later stamps stay monotonic; and each scope stays within the cap.\<close>

theorem purge_snapshot_roundtrip:
  "epochFor hash (Restore (take_Snapshot (purge_all hash ps (purge_New n))) (purge_New k)) host uri tags =
     epochFor hash (purge_all hash ps (purge_New n)) host uri tags \<and>
   t_highWater (Restore (take_Snapshot (purge_all hash ps (purge_New n))) (purge_New k)) =
     t_highWater (purge_all hash ps (purge_New n)) \<and>
   capped (purge_all hash ps (purge_New n))"
  using Restore_epochFor [OF purge_all_settled] settled_highWater [OF purge_all_settled]
    purge_all_capped by (simp add: Restore_highWater)

text \<open>One sweep of the reaper leaves exactly the entries the table does not invalidate.\<close>

theorem purge_reap_exact:
  assumes "is_snapshot s snap" "\<forall>e \<in> ran (ms_m s). 0 < me_Created (fst e)"
  shows "ms_m (fst (Reap hash t snap s)) k =
    (case ms_m s k of
       None \<Rightarrow> None
     | Some e \<Rightarrow> if me_Created (fst e) \<le> InvalidatedAfterMeta hash t (fst e) then None else Some e)"
proof -
  have snap: "(k, m) \<in> set snap \<longleftrightarrow> (\<exists>b. ms_m s k = Some (m, b))" for m
  proof -
    have "(k, m) \<in> set snap \<longleftrightarrow> map_of snap k = Some m"
      using assms(1) map_of_eq_Some_iff [of snap k m] unfolding is_snapshot_def by blast
    also have "\<dots> \<longleftrightarrow> (\<exists>b. ms_m s k = Some (m, b))"
      using assms(1) by (cases "ms_m s k") (auto simp: is_snapshot_def cloneMeta_def)
    finally show ?thesis .
  qed
  have "0 < me_Created (fst e)" if "ms_m s k = Some e" for e
    using assms(2) that ranI by fast
  then show ?thesis
    using snap
    by (cases "ms_m s k") (auto simp: Reap_def reap_range InvalidatedAfterMeta_def epochFor_inactive)
qed

theorem purge_reap_exact_witness:
  "map_option snd (ms_m (fst (Reap id (purge_all id [(Tag ''t'', 9)] (purge_New 2)) [(''a'', (plain_meta 2)\<lparr>me_Created := 5, me_Tags := [''t'']\<rparr>)]
     (mem_commit (NewMemory 4) ''a'' ((plain_meta 2)\<lparr>me_Created := 5, me_Tags := [''t'']\<rparr>, ''xy'')))) ''a'') = None"
proof -
  let ?m = "(plain_meta 2)\<lparr>me_Created := 5, me_Tags := [''t'']\<rparr>"
  let ?s = "mem_commit (NewMemory 4) ''a'' (?m, ''xy'')"
  let ?t = "purge_all id [(Tag ''t'', 9)] (purge_New 2)"
  have adm: "lru_admit (newLRU 4) ''a'' 2 = (\<lparr>l_ll = [\<lparr>li_key = ''a'', li_size = 2\<rparr>], l_max = 4, l_cur = 2\<rparr>, [])"
    by code_simp
  have m: "ms_m ?s = [''a'' \<mapsto> (?m, ''xy'')]"
    using mem_commit_m(1) [of "NewMemory 4" "''a''" "(?m, ''xy'')"] adm
    by (simp add: NewMemory_def plain_meta_def fun_upd_def)
  have snap: "is_snapshot ?s [(''a'', ?m)]" unfolding is_snapshot_def m by (simp add: cloneMeta_def fun_eq_iff)
  have pos: "\<forall>e \<in> ran (ms_m ?s). 0 < me_Created (fst e)" unfolding m by simp
  have inv: "me_Created ?m \<le> InvalidatedAfterMeta id ?t ?m" by code_simp
  have "ms_m (fst (Reap id ?t [(''a'', ?m)] ?s)) ''a'' = None"
    unfolding purge_reap_exact [OF snap pos] m fun_upd_same option.case fst_conv if_P [OF inv] ..
  then show ?thesis by (simp only: option.map)
qed

text \<open>The comment on \<^verbatim>\<open>normalizePrefix\<close> speaks of a single trailing slash; every trailing slash goes.\<close>

theorem purge_prefix_all_slashes: "normalizePrefix ''/blog//'' = ''/blog''"
  by code_simp

end
