(* ===== verification/Cache_Keys.thy ===== *)
theory Cache_Keys
  imports Cache_Purge
begin

text \<open>
  The keys of the response cache (\<^verbatim>\<open>primaryHash\<close>, \<^verbatim>\<open>variantHashFor\<close> and their parts in
  \<^verbatim>\<open>pkg/cache/cache.go\<close>) and the Vary names learned per primary key. The truncated SHA-256 is a
  parameter \<open>hash\<close>; what the keys separate is stated for inputs on which it has no collision.
\<close>

definition normalizeHost :: "string \<Rightarrow> string" where
  "normalizeHost host =
     (let h = ToLower host in case SplitHostPort h of Some (hh, _) \<Rightarrow> hh | None \<Rightarrow> h)"

definition schemeOf :: "HttpRequest \<Rightarrow> string" where
  "schemeOf r =
     (let proto = header_Get (hr_Header r) ''X-Forwarded-Proto''
      in if EqualFold proto ''https'' then ''https''
         else if EqualFold proto ''http'' then ''http''
         else if hr_TLS r then ''https''
         else ''http'')"

definition nl :: char where
  "nl = CHR 0x0A"

definition primary_input :: "HttpRequest \<Rightarrow> string" where
  "primary_input r = normalizeHost (hr_Host r) @ [nl] @ hr_Method r @ [nl] @ schemeOf r @ [nl] @ hr_URI r"

definition primaryHash :: "(string \<Rightarrow> string) \<Rightarrow> HttpRequest \<Rightarrow> string" where
  "primaryHash hash r = hash (primary_input r)"

fun vary_input :: "string list \<Rightarrow> Header \<Rightarrow> string" where
  "vary_input [] h = ''''"
| "vary_input (name # names) h = name @ ''='' @ header_Get h name @ [nl] @ vary_input names h"

definition variant_input :: "string \<Rightarrow> string list \<Rightarrow> Header \<Rightarrow> string" where
  "variant_input primaryHex names h = primaryHex @ [CHR 0x00] @ vary_input names h"

definition variantHashFor :: "(string \<Rightarrow> string) \<Rightarrow> string \<Rightarrow> string list \<Rightarrow> Header \<Rightarrow> string" where
  "variantHashFor hash primaryHex names h = hash (variant_input primaryHex names h)"

section \<open>Learned Vary names\<close>

type_synonym primaryVary = "(string \<times> string list) list"

definition getPrimaryVary :: "primaryVary \<Rightarrow> string \<Rightarrow> string list" where
  "getPrimaryVary pv k = get_list pv k"

text \<open>
  \<^verbatim>\<open>sort.Strings\<close> sorts by bytes. When the map is full an arbitrary entry goes: \<open>victim\<close> is the one the
  iteration meets first.
\<close>

fun string_le :: "string \<Rightarrow> string \<Rightarrow> bool" where
  "string_le [] t \<longleftrightarrow> True"
| "string_le (c # s) [] \<longleftrightarrow> False"
| "string_le (c # s) (d # t) \<longleftrightarrow> byte c < byte d \<or> c = d \<and> string_le s t"

fun insert_string :: "string \<Rightarrow> string list \<Rightarrow> string list" where
  "insert_string s [] = [s]"
| "insert_string s (t # ts) = (if string_le s t then s # t # ts else t # insert_string s ts)"

definition sort_Strings :: "string list \<Rightarrow> string list" where
  "sort_Strings ss = foldr insert_string ss []"

definition setPrimaryVary :: "nat \<Rightarrow> string \<Rightarrow> string \<Rightarrow> string list \<Rightarrow> primaryVary \<Rightarrow> primaryVary" where
  "setPrimaryVary maxPrimaryVary victim primaryHex names pv =
     (let pv1 = (if map_of pv primaryHex = None \<and> maxPrimaryVary \<le> length pv
                 then AList.delete victim pv else pv)
      in AList.update primaryHex (sort_Strings names) pv1)"

lemma insert_string_set [simp]: "set (insert_string s ts) = insert s (set ts)"
  by (induction ts) auto

lemma sort_Strings_set [simp]: "set (sort_Strings ss) = set ss"
  by (induction ss) (simp_all add: sort_Strings_def)

lemma insert_string_distinct: "distinct ts \<Longrightarrow> s \<notin> set ts \<Longrightarrow> distinct (insert_string s ts)"
  by (induction ts) auto

lemma sort_Strings_distinct: "distinct ss \<Longrightarrow> distinct (sort_Strings ss)"
proof (induction ss)
  case (Cons s ss)
  then show ?case
    using insert_string_distinct [of "sort_Strings ss" s] sort_Strings_set [of ss]
    by (simp add: sort_Strings_def)
qed (simp add: sort_Strings_def)

lemma string_le_total: "string_le s t \<or> string_le t s"
proof (induction s t rule: string_le.induct)
  case (3 c s d t)
  have "byte c < byte d \<or> c = d \<or> byte d < byte c"
    using byte_eq [of c d] by linarith
  with 3 show ?case by auto
qed simp_all

lemma string_le_trans: "string_le s t \<Longrightarrow> string_le t u \<Longrightarrow> string_le s u"
proof (induction s t arbitrary: u rule: string_le.induct)
  case (3 c s d t)
  then show ?case by (cases u) auto
qed simp_all

lemma insert_string_sorted: "sorted_wrt string_le ts \<Longrightarrow> sorted_wrt string_le (insert_string s ts)"
proof (induction ts)
  case (Cons t ts)
  show ?case
  proof (cases "string_le s t")
    case True
    then show ?thesis using Cons.prems string_le_trans [OF True] by simp
  next
    case False
    then show ?thesis using Cons string_le_total [of s t] by simp
  qed
qed simp

lemma sort_Strings_sorted: "sorted_wrt string_le (sort_Strings ss)"
  by (induction ss) (simp_all add: sort_Strings_def insert_string_sorted)

section \<open>What the keys separate\<close>

lemma list_all_avoids: "list_all (\<lambda>c. c \<noteq> x) xs \<longleftrightarrow> x \<notin> set xs"
  by (auto simp: list_all_iff)

lemma split_at_unique: "a @ c # b = a' @ c # b' \<Longrightarrow> c \<notin> set a \<Longrightarrow> c \<notin> set a' \<Longrightarrow> a = a' \<and> b = b'"
  using Cut_append [of c a b] Cut_append [of c a' b'] by (metis prod.inject)

lemma schemeOf_nl: "nl \<notin> set (schemeOf r)"
  by (simp add: schemeOf_def nl_def Let_def)

definition key_safe :: "HttpRequest \<Rightarrow> bool" where
  "key_safe r \<longleftrightarrow> nl \<notin> set (normalizeHost (hr_Host r)) \<and> nl \<notin> set (hr_Method r)"

lemma primary_input_inj:
  assumes "primary_input r = primary_input r'" "key_safe r" "key_safe r'"
  shows "normalizeHost (hr_Host r) = normalizeHost (hr_Host r') \<and> hr_Method r = hr_Method r' \<and>
    schemeOf r = schemeOf r' \<and> hr_URI r = hr_URI r'"
proof -
  have 1: "normalizeHost (hr_Host r) = normalizeHost (hr_Host r')"
    "hr_Method r @ nl # schemeOf r @ nl # hr_URI r = hr_Method r' @ nl # schemeOf r' @ nl # hr_URI r'"
    using split_at_unique [OF assms(1) [unfolded primary_input_def append_Cons append_Nil]] assms(2,3)
    by (simp_all add: key_safe_def)
  have 2: "hr_Method r = hr_Method r'" "schemeOf r @ nl # hr_URI r = schemeOf r' @ nl # hr_URI r'"
    using split_at_unique [OF 1(2)] assms(2,3) by (simp_all add: key_safe_def)
  show ?thesis
    using 1(1) 2 split_at_unique [OF 2(2) schemeOf_nl schemeOf_nl] by simp
qed

definition vary_safe :: "string list \<Rightarrow> Header \<Rightarrow> bool" where
  "vary_safe names h \<longleftrightarrow> (\<forall>n \<in> set names. CHR ''='' \<notin> set n \<and> nl \<notin> set (header_Get h n))"

lemma vary_input_inj:
  "vary_input names h = vary_input names' h' \<Longrightarrow> vary_safe names h \<Longrightarrow> vary_safe names' h' \<Longrightarrow>
     names = names' \<and> (\<forall>n \<in> set names. header_Get h n = header_Get h' n)"
proof (induction names h arbitrary: names' rule: vary_input.induct)
  case (1 h)
  then show ?case by (cases names') simp_all
next
  case (2 n names h)
  then obtain n' names1 where n': "names' = n' # names1" by (cases names') simp_all
  have eq: "n @ CHR ''='' # (header_Get h n @ nl # vary_input names h) =
      n' @ CHR ''='' # (header_Get h' n' @ nl # vary_input names1 h')"
    using "2.prems"(1) by (simp add: n')
  have s: "CHR ''='' \<notin> set n" "CHR ''='' \<notin> set n'" "nl \<notin> set (header_Get h n)" "nl \<notin> set (header_Get h' n')"
    "vary_safe names h" "vary_safe names1 h'"
    using "2.prems"(2,3) by (simp_all add: vary_safe_def n')
  note a = split_at_unique [OF eq s(1,2)]
  then have b: "header_Get h n @ nl # vary_input names h = header_Get h' n' @ nl # vary_input names1 h'"
    by blast
  note c = split_at_unique [OF b s(3,4)]
  then show ?case using a "2.IH" [OF _ s(5,6)] by (simp add: n')
qed

lemma variant_input_inj:
  assumes "variant_input p names h = variant_input p' names' h'" "CHR 0x00 \<notin> set p" "CHR 0x00 \<notin> set p'"
    and "vary_safe names h" "vary_safe names' h'"
  shows "p = p' \<and> names = names' \<and> (\<forall>n \<in> set names. header_Get h n = header_Get h' n)"
proof -
  have "p = p' \<and> vary_input names h = vary_input names' h'"
    using split_at_unique [of p "CHR 0x00" "vary_input names h" p' "vary_input names' h'"] assms(1-3)
    by (simp add: variant_input_def)
  then show ?thesis using vary_input_inj [OF _ assms(4,5)] by simp
qed

section \<open>Properties\<close>

text \<open>C35. Where the hash has no collision, requests share a storage key only if they have the same normalized
  host, method, scheme and request URI, were keyed on the same Vary names, and agree on the value of
  each of these.\<close>

theorem cache_keys_separate:
  assumes "variantHashFor hash (primaryHash hash r) names (hr_Header r) =
      variantHashFor hash (primaryHash hash r') names' (hr_Header r')"
    and "inj_on hash {primary_input r, primary_input r', variant_input (primaryHash hash r) names (hr_Header r),
      variant_input (primaryHash hash r') names' (hr_Header r')}"
    and "CHR 0x00 \<notin> set (primaryHash hash r)" "CHR 0x00 \<notin> set (primaryHash hash r')"
    and "key_safe r" "key_safe r'" "vary_safe names (hr_Header r)" "vary_safe names' (hr_Header r')"
  shows "normHost (hr_Host r) = normHost (hr_Host r') \<and> hr_Method r = hr_Method r' \<and>
    schemeOf r = schemeOf r' \<and> hr_URI r = hr_URI r' \<and> names = names' \<and>
    (\<forall>n \<in> set names. header_Get (hr_Header r) n = header_Get (hr_Header r') n)"
proof -
  have "variant_input (primaryHash hash r) names (hr_Header r) =
      variant_input (primaryHash hash r') names' (hr_Header r')"
    by (rule inj_onD [OF assms(2) assms(1) [unfolded variantHashFor_def]]) blast+
  note v = variant_input_inj [OF this assms(3,4,7,8)]
  then have "hash (primary_input r) = hash (primary_input r')" by (simp only: primaryHash_def)
  then have "primary_input r = primary_input r'"
    by (rule inj_onD [OF assms(2)]) blast+
  note p = primary_input_inj [OF this assms(5,6)]
  have "normHost = normalizeHost" by (intro ext) (simp add: normalizeHost_def normHost_def)
  then show ?thesis using p v by (simp only:) blast
qed

theorem cache_keys_separate_witness:
  "variantHashFor id (primaryHash id (purge_request ''H:80'' ''/a'')) [] Map.empty =
     variantHashFor id (primaryHash id (purge_request ''h'' ''/a'')) [] Map.empty \<and>
   normHost ''H:80'' = normHost ''h''"
proof -
  let ?r = "purge_request ''H:80'' ''/a''" and ?r' = "purge_request ''h'' ''/a''"
  have eq: "variantHashFor id (primaryHash id ?r) [] Map.empty = variantHashFor id (primaryHash id ?r') [] Map.empty"
    by code_simp
  have safe: "list_all (\<lambda>c. c \<noteq> CHR 0x00) (primaryHash id ?r) \<and> list_all (\<lambda>c. c \<noteq> CHR 0x00) (primaryHash id ?r') \<and>
      list_all (\<lambda>c. c \<noteq> nl) (normalizeHost ''H:80'') \<and> list_all (\<lambda>c. c \<noteq> nl) (normalizeHost ''h'') \<and>
      list_all (\<lambda>c. c \<noteq> nl) ''GET''"
    by code_simp
  note safe' = safe [unfolded list_all_avoids]
  have k: "key_safe ?r" "key_safe ?r'" "hr_Header ?r = Map.empty" "hr_Header ?r' = Map.empty"
    unfolding key_safe_def purge_request_def HttpRequest.simps using safe' by blast+
  have z: "CHR 0x00 \<notin> set (primaryHash id ?r)" "CHR 0x00 \<notin> set (primaryHash id ?r')"
    using safe' by blast+
  have v: "vary_safe [] (hr_Header ?r)" "vary_safe [] (hr_Header ?r')" by (simp_all add: vary_safe_def)
  have eq': "variantHashFor id (primaryHash id ?r) [] (hr_Header ?r) =
      variantHashFor id (primaryHash id ?r') [] (hr_Header ?r')"
    unfolding k(3,4) by (rule eq)
  from cache_keys_separate [OF eq' inj_on_id z k(1,2) v]
  have "normHost (hr_Host ?r) = normHost (hr_Host ?r')" by blast
  then have "normHost ''H:80'' = normHost ''h''" by (simp only: purge_request_def HttpRequest.simps)
  with eq show ?thesis by blast
qed

text \<open>Only the first value of a varied header enters the key: a request that sends the header twice shares
  the entry of one that sends its first value alone.\<close>

theorem cache_key_first_value_only:
  "variant_input p [''accept-language''] [''Accept-Language'' \<mapsto> [''en'', ''de'']] =
     variant_input p [''accept-language''] [''Accept-Language'' \<mapsto> [''en'']] \<and>
   header_Values [''Accept-Language'' \<mapsto> [''en'', ''de'']] ''accept-language'' \<noteq>
     header_Values [''Accept-Language'' \<mapsto> [''en'']] ''accept-language''"
proof -
  have "CanonicalHeaderKey ''accept-language'' = ''Accept-Language''" by code_simp
  then show ?thesis by (simp add: variant_input_def header_Get_def header_Values_def)
qed

end
