(* ===== verification/Cache_Policy.thy ===== *)
theory Cache_Policy
  imports Go_Http
begin

text \<open>
  What may be cached and for how long (\<^verbatim>\<open>pkg/cache/policy.go\<close>): the parsing of Cache-Control and Vary,
  freshness, the honor-origin decision and the forced one. Instants are nanoseconds; a difference of
  instants saturates and a product of durations wraps, as in Go. The parser of HTTP dates is a
  parameter \<open>pt\<close>, and the theorems hold for every such function.
\<close>

section \<open>Durations\<close>

definition Second :: int where
  "Second = 1000000000"

definition maxTTL :: int where
  "maxTTL = 10 * 365 * 24 * 3600 * Second"

definition time_Sub :: "int \<Rightarrow> int \<Rightarrow> int" where
  "time_Sub t u = max (- (2 ^ 63)) (min (2 ^ 63 - 1) (t - u))"

definition seconds :: "int \<Rightarrow> int" where
  "seconds n = s64 (n * Second)"

section \<open>Requests and statuses\<close>

definition cacheableMethod :: "string \<Rightarrow> bool" where
  "cacheableMethod m \<longleftrightarrow> m = ''GET'' \<or> m = ''HEAD''"

definition header_tokens :: "Header \<Rightarrow> string \<Rightarrow> string list" where
  "header_tokens h k = concat (map (split_on CHR '','') (header_Values h k))"

definition isUpgrade :: "HttpRequest \<Rightarrow> bool" where
  "isUpgrade r \<longleftrightarrow> header_Get (hr_Header r) ''Upgrade'' \<noteq> '''' \<or>
     list_ex (\<lambda>tok. EqualFold (TrimSpace tok) ''upgrade'') (header_tokens (hr_Header r) ''Connection'')"

definition cacheableStatus :: "int \<Rightarrow> bool" where
  "cacheableStatus code \<longleftrightarrow> code \<in> set [200, 203, 204, 300, 301, 308, 404, 410]"

section \<open>Cache-Control\<close>

record cacheControl =
  cc_maxAge :: int
  cc_sMaxAge :: int
  cc_staleWhileRevalidate :: int
  cc_staleIfError :: int
  cc_private :: bool
  cc_noStore :: bool
  cc_noCache :: bool
  cc_public :: bool
  cc_mustRevalidate :: bool
  cc_proxyRevalidate :: bool
  cc_hasMax :: bool
  cc_hasSMax :: bool

definition no_cc :: cacheControl where
  "no_cc = \<lparr>cc_maxAge = 0, cc_sMaxAge = 0, cc_staleWhileRevalidate = 0, cc_staleIfError = 0,
     cc_private = False, cc_noStore = False, cc_noCache = False, cc_public = False,
     cc_mustRevalidate = False, cc_proxyRevalidate = False, cc_hasMax = False, cc_hasSMax = False\<rparr>"

definition cc_directive :: "cacheControl \<Rightarrow> string \<Rightarrow> cacheControl" where
  "cc_directive cc raw =
     (let d = TrimSpace raw
      in if d = '''' then cc
         else case Cut CHR ''='' d of (name0, val0, _) \<Rightarrow>
           let name = ToLower (TrimSpace name0);
               val = Trim_char (TrimSpace val0) CHR 0x22
           in if name = ''private'' then cc\<lparr>cc_private := True\<rparr>
              else if name = ''no-store'' then cc\<lparr>cc_noStore := True\<rparr>
              else if name = ''no-cache'' then cc\<lparr>cc_noCache := True\<rparr>
              else if name = ''public'' then cc\<lparr>cc_public := True\<rparr>
              else if name = ''must-revalidate'' then cc\<lparr>cc_mustRevalidate := True\<rparr>
              else if name = ''proxy-revalidate'' then cc\<lparr>cc_proxyRevalidate := True\<rparr>
              else if name = ''max-age'' then
                (case ParseInt val of Some n \<Rightarrow> cc\<lparr>cc_maxAge := n, cc_hasMax := True\<rparr> | None \<Rightarrow> cc)
              else if name = ''s-maxage'' then
                (case ParseInt val of Some n \<Rightarrow> cc\<lparr>cc_sMaxAge := n, cc_hasSMax := True\<rparr> | None \<Rightarrow> cc)
              else if name = ''stale-while-revalidate'' then
                (case ParseInt val of
                   Some n \<Rightarrow> if 0 \<le> n then cc\<lparr>cc_staleWhileRevalidate := n\<rparr> else cc | None \<Rightarrow> cc)
              else if name = ''stale-if-error'' then
                (case ParseInt val of
                   Some n \<Rightarrow> if 0 \<le> n then cc\<lparr>cc_staleIfError := n\<rparr> else cc | None \<Rightarrow> cc)
              else cc)"

definition parseCacheControl :: "Header \<Rightarrow> cacheControl" where
  "parseCacheControl h = foldl cc_directive no_cc (header_tokens h ''Cache-Control'')"

section \<open>Vary\<close>

text \<open>The names seen so far are the names collected.\<close>

fun vary_loop :: "string list \<Rightarrow> string list \<Rightarrow> string list \<times> bool" where
  "vary_loop [] names = (names, False)"
| "vary_loop (t # toks) names =
     (let tok = ToLower (TrimSpace t)
      in if tok = '''' then vary_loop toks names
         else if tok = ''*'' then ([], True)
         else if tok \<in> set names then vary_loop toks names
         else vary_loop toks (names @ [tok]))"

definition parseVary :: "Header \<Rightarrow> string list \<times> bool" where
  "parseVary h = vary_loop (header_tokens h ''Vary'') []"

section \<open>Refusals and size\<close>

definition storeRefusals :: "int \<Rightarrow> Header \<Rightarrow> string list option" where
  "storeRefusals status h =
     (if \<not> cacheableStatus status then None
      else if header_Values h ''Set-Cookie'' \<noteq> [] then None
      else case parseVary h of (vary, star) \<Rightarrow> if star then None else Some vary)"

definition sharedOptIn :: "cacheControl \<Rightarrow> bool" where
  "sharedOptIn cc \<longleftrightarrow> cc_public cc \<or> cc_hasSMax cc \<or> cc_mustRevalidate cc"

definition contentLength :: "Header \<Rightarrow> int option" where
  "contentLength h =
     (let v = header_Get h ''Content-Length'' in if v = '''' then None else ParseInt (TrimSpace v))"

definition isEventStream :: "Header \<Rightarrow> bool" where
  "isEventStream h \<longleftrightarrow>
     (let ct = ToLower (TrimSpace (header_Get h ''Content-Type''))
      in ct = ''text/event-stream'' \<or> HasPrefix ct ''text/event-stream;'')"

definition fitsCap :: "string \<Rightarrow> Header \<Rightarrow> int \<Rightarrow> bool \<Rightarrow> bool" where
  "fitsCap meth h maxFileSize cacheChunked \<longleftrightarrow>
     (if meth \<noteq> ''GET'' then True
      else case contentLength h of
             None \<Rightarrow> cacheChunked \<and> \<not> isEventStream h
           | Some cl \<Rightarrow> 0 \<le> cl \<and> cl \<le> maxFileSize)"

section \<open>Freshness\<close>

definition responseAge :: "(string \<Rightarrow> int option) \<Rightarrow> Header \<Rightarrow> int \<Rightarrow> int" where
  "responseAge pt h now =
     (let apparent =
            (let d = header_Get h ''Date''
             in if d = '''' then 0
                else case pt d of None \<Rightarrow> 0
                     | Some dt \<Rightarrow> if 0 < time_Sub now dt then time_Sub now dt else 0);
          ageVal =
            (let v = header_Get h ''Age''
             in if v = '''' then 0
                else case ParseInt (TrimSpace v) of None \<Rightarrow> 0
                     | Some n \<Rightarrow> if 0 < n then seconds n else 0)
      in if apparent < ageVal then ageVal else apparent)"

definition freshnessLifetime :: "(string \<Rightarrow> int option) \<Rightarrow> cacheControl \<Rightarrow> Header \<Rightarrow> int \<Rightarrow> int" where
  "freshnessLifetime pt cc h now =
     (if cc_hasSMax cc then seconds (cc_sMaxAge cc)
      else if cc_hasMax cc then seconds (cc_maxAge cc)
      else let ex = header_Get h ''Expires''
           in if ex = '''' then 0
              else case pt ex of
                     None \<Rightarrow> 0
                   | Some expTime \<Rightarrow>
                       let d = header_Get h ''Date'';
                           ref = (if d = '''' then now else case pt d of Some dt \<Rightarrow> dt | None \<Rightarrow> now)
                       in time_Sub expTime ref)"

definition freshness :: "(string \<Rightarrow> int option) \<Rightarrow> cacheControl \<Rightarrow> Header \<Rightarrow> int \<Rightarrow> int" where
  "freshness pt cc h now =
     (let lifetime = freshnessLifetime pt cc h now
      in if lifetime \<le> 0 then lifetime else s64 (lifetime - responseAge pt h now))"

definition clampStaleWindow :: "int \<Rightarrow> int" where
  "clampStaleWindow d = (if d < 0 then 0 else if maxTTL < d then maxTTL else d)"

definition staleWindows :: "cacheControl \<Rightarrow> int \<times> int" where
  "staleWindows cc =
     (if cc_mustRevalidate cc \<or> cc_proxyRevalidate cc then (0, 0)
      else (clampStaleWindow (seconds (cc_staleWhileRevalidate cc)),
            clampStaleWindow (seconds (cc_staleIfError cc))))"

section \<open>The decisions\<close>

record decision =
  de_freshUntil :: int
  de_vary :: "string list"
  de_staleWhileRevalidate :: int
  de_staleIfError :: int
  de_cacheable :: bool
  de_noStale :: bool

definition no_decision :: decision where
  "no_decision = \<lparr>de_freshUntil = 0, de_vary = [], de_staleWhileRevalidate = 0, de_staleIfError = 0,
     de_cacheable = False, de_noStale = False\<rparr>"

definition decide ::
  "(string \<Rightarrow> int option) \<Rightarrow> string \<Rightarrow> int \<Rightarrow> Header \<Rightarrow> bool \<Rightarrow> int \<Rightarrow> bool \<Rightarrow> int \<Rightarrow> decision"
where
  "decide pt meth status h reqAuthorized maxFileSize cacheChunked now =
     (case storeRefusals status h of
        None \<Rightarrow> no_decision
      | Some vary \<Rightarrow>
          let cc = parseCacheControl h
          in if cc_private cc \<or> cc_noStore cc \<or> cc_noCache cc then no_decision
             else if reqAuthorized \<and> \<not> sharedOptIn cc then no_decision
             else let ttl = freshness pt cc h now
                  in if ttl \<le> 0 then no_decision
                     else if \<not> fitsCap meth h maxFileSize cacheChunked then no_decision
                     else let ttl1 = (if maxTTL < ttl then maxTTL else ttl);
                              noStale = (cc_mustRevalidate cc \<or> cc_proxyRevalidate cc)
                          in case staleWindows cc of (swr, sie) \<Rightarrow>
                               \<lparr>de_freshUntil = now + ttl1, de_vary = vary, de_staleWhileRevalidate = swr,
                                de_staleIfError = sie, de_cacheable = True, de_noStale = noStale\<rparr>)"

datatype OverrideMode = OverrideBalanced | OverrideConservative | OverrideAggressive

record Override =
  ov_TTL :: int
  ov_StaleWhileRevalidate :: int
  ov_StaleIfError :: int
  ov_Mode :: OverrideMode

definition mode_refuses :: "OverrideMode \<Rightarrow> cacheControl \<Rightarrow> bool \<Rightarrow> bool" where
  "mode_refuses mode cc reqAuthorized =
     (case mode of
        OverrideConservative \<Rightarrow>
          cc_private cc \<or> cc_noStore cc \<or> cc_noCache cc \<or> (reqAuthorized \<and> \<not> sharedOptIn cc)
      | OverrideBalanced \<Rightarrow> cc_private cc \<or> cc_noStore cc \<or> (reqAuthorized \<and> \<not> sharedOptIn cc)
      | OverrideAggressive \<Rightarrow> False)"

definition forced_windows :: "Override \<Rightarrow> cacheControl \<Rightarrow> int \<times> int \<times> bool" where
  "forced_windows ov cc =
     (if ov_Mode ov = OverrideConservative then
        (case staleWindows cc of (swr, sie) \<Rightarrow>
           let noStale = (cc_mustRevalidate cc \<or> cc_proxyRevalidate cc)
           in if \<not> noStale then
                (if swr = 0 then clampStaleWindow (ov_StaleWhileRevalidate ov) else swr,
                 if sie = 0 then clampStaleWindow (ov_StaleIfError ov) else sie, noStale)
              else (swr, sie, noStale))
      else (clampStaleWindow (ov_StaleWhileRevalidate ov), clampStaleWindow (ov_StaleIfError ov), False))"

definition decideForced ::
  "(string \<Rightarrow> int option) \<Rightarrow> string \<Rightarrow> int \<Rightarrow> Header \<Rightarrow> bool \<Rightarrow> int \<Rightarrow> bool \<Rightarrow> int \<Rightarrow> Override \<Rightarrow> decision"
where
  "decideForced pt meth status h reqAuthorized maxFileSize cacheChunked now ov =
     (case storeRefusals status h of
        None \<Rightarrow> no_decision
      | Some vary \<Rightarrow>
          let cc = parseCacheControl h
          in if mode_refuses (ov_Mode ov) cc reqAuthorized then no_decision
             else let originTTL = freshness pt cc h now;
                      ttl = (if ov_Mode ov = OverrideConservative \<and> 0 < originTTL then originTTL else ov_TTL ov)
                  in if ttl \<le> 0 then no_decision
                     else if \<not> fitsCap meth h maxFileSize cacheChunked then no_decision
                     else let ttl1 = (if maxTTL < ttl then maxTTL else ttl)
                          in case forced_windows ov cc of (swr, sie, noStale) \<Rightarrow>
                               \<lparr>de_freshUntil = now + ttl1, de_vary = vary, de_staleWhileRevalidate = swr,
                                de_staleIfError = sie, de_cacheable = True, de_noStale = noStale\<rparr>)"

text \<open>A response of five bytes with the given Cache-Control.\<close>

definition fresh_header :: "string \<Rightarrow> Header" where
  "fresh_header v = [''Cache-Control'' \<mapsto> [v], ''Content-Length'' \<mapsto> [''5'']]"

section \<open>Facts\<close>

lemma clamp_range: "0 \<le> clampStaleWindow d \<and> clampStaleWindow d \<le> maxTTL"
  by (simp add: clampStaleWindow_def maxTTL_def Second_def)

lemma staleWindows_range:
  "staleWindows cc = (swr, sie) \<Longrightarrow> 0 \<le> swr \<and> swr \<le> maxTTL \<and> 0 \<le> sie \<and> sie \<le> maxTTL"
  using clamp_range by (auto simp: staleWindows_def maxTTL_def Second_def split: if_splits)

definition vary_name :: "string \<Rightarrow> bool" where
  "vary_name n \<longleftrightarrow> n \<noteq> '''' \<and> n \<noteq> ''*'' \<and> ToLower n = n"

lemma vary_loop_names:
  "distinct names \<Longrightarrow> list_all vary_name names \<Longrightarrow> vary_loop toks names = (out, False) \<Longrightarrow>
     distinct out \<and> list_all vary_name out"
proof (induction toks arbitrary: names)
  case (Cons t toks)
  let ?tok = "ToLower (TrimSpace t)"
  consider "?tok = '''' \<or> ?tok \<in> set names" | "?tok = ''*''" "?tok \<notin> set names"
    | "vary_name ?tok" "?tok \<notin> set names"
    unfolding vary_name_def by (metis ToLower_idem)
  then show ?case
  proof cases
    case 1
    then have "vary_loop toks names = (out, False)"
      using Cons.prems(2,3) by (auto simp: Let_def vary_name_def list_all_iff split: if_splits)
    with Cons show ?thesis by blast
  next
    case 2
    then show ?thesis using Cons.prems(3) by simp
  next
    case 3
    then have "vary_loop toks (names @ [?tok]) = (out, False)"
      using Cons.prems(3) by (simp add: Let_def vary_name_def)
    with Cons.IH [of "names @ [?tok]"] Cons.prems 3 show ?thesis by simp
  qed
qed simp

lemma decide_cacheable:
  "de_cacheable (decide pt meth status h auth mfs chunked now) \<longleftrightarrow>
     storeRefusals status h \<noteq> None \<and>
     \<not> mode_refuses OverrideConservative (parseCacheControl h) auth \<and>
     0 < freshness pt (parseCacheControl h) h now \<and> fitsCap meth h mfs chunked"
  by (auto simp: decide_def mode_refuses_def no_decision_def Let_def split: option.splits prod.splits)

lemma decideForced_cacheable:
  "de_cacheable (decideForced pt meth status h auth mfs chunked now ov) \<longleftrightarrow>
     storeRefusals status h \<noteq> None \<and>
     \<not> mode_refuses (ov_Mode ov) (parseCacheControl h) auth \<and>
     (0 < ov_TTL ov \<or> ov_Mode ov = OverrideConservative \<and> 0 < freshness pt (parseCacheControl h) h now) \<and>
     fitsCap meth h mfs chunked"
  by (auto simp: decideForced_def no_decision_def Let_def split: option.splits prod.splits)

lemma decide_fields:
  assumes "de_cacheable (decide pt meth status h auth mfs chunked now)"
  shows "Some (de_vary (decide pt meth status h auth mfs chunked now)) = storeRefusals status h"
    and "de_freshUntil (decide pt meth status h auth mfs chunked now) =
      now + min maxTTL (freshness pt (parseCacheControl h) h now)"
    and "(de_staleWhileRevalidate (decide pt meth status h auth mfs chunked now),
      de_staleIfError (decide pt meth status h auth mfs chunked now)) = staleWindows (parseCacheControl h)"
    and "de_noStale (decide pt meth status h auth mfs chunked now) \<longleftrightarrow>
      cc_mustRevalidate (parseCacheControl h) \<or> cc_proxyRevalidate (parseCacheControl h)"
  using assms
  by (auto simp: decide_def no_decision_def Let_def min_def split: option.splits prod.splits if_splits)

lemma decideForced_fields:
  assumes "de_cacheable (decideForced pt meth status h auth mfs chunked now ov)"
  shows "Some (de_vary (decideForced pt meth status h auth mfs chunked now ov)) = storeRefusals status h"
    and "de_freshUntil (decideForced pt meth status h auth mfs chunked now ov) =
      now + min maxTTL (if ov_Mode ov = OverrideConservative \<and> 0 < freshness pt (parseCacheControl h) h now
        then freshness pt (parseCacheControl h) h now else ov_TTL ov)"
  using assms
  by (auto simp: decideForced_def no_decision_def Let_def min_def split: option.splits prod.splits if_splits)

lemma responseAge_nonneg: "0 \<le> responseAge pt h now"
  by (auto simp: responseAge_def Let_def split: option.split)

section \<open>Properties\<close>

text \<open>C30. What the honor-origin policy caches: a cacheable status without Set-Cookie or Vary *, not private,
  no-store or no-cache, for an authorized request only with a shared opt-in, explicitly fresh and
  within the size cap; it is fresh for a positive time of at most \<^verbatim>\<open>maxTTL\<close>, the stale windows lie in
  the same range, and must-revalidate leaves none.\<close>

theorem policy_honors_origin:
  fixes pt h
  defines "cc \<equiv> parseCacheControl h"
  assumes "d = decide pt meth status h auth mfs chunked now" "de_cacheable d"
  shows "cacheableStatus status \<and> header_Values h ''Set-Cookie'' = [] \<and> \<not> snd (parseVary h) \<and>
    \<not> cc_private cc \<and> \<not> cc_noStore cc \<and> \<not> cc_noCache cc \<and>
    (auth \<longrightarrow> cc_public cc \<or> cc_hasSMax cc \<or> cc_mustRevalidate cc) \<and> fitsCap meth h mfs chunked \<and>
    now < de_freshUntil d \<and> de_freshUntil d \<le> now + maxTTL \<and>
    0 \<le> de_staleWhileRevalidate d \<and> de_staleWhileRevalidate d \<le> maxTTL \<and>
    0 \<le> de_staleIfError d \<and> de_staleIfError d \<le> maxTTL \<and>
    (cc_mustRevalidate cc \<or> cc_proxyRevalidate cc \<longrightarrow>
       de_staleWhileRevalidate d = 0 \<and> de_staleIfError d = 0 \<and> de_noStale d)"
proof -
  note c = assms(3) [unfolded assms(2)]
  note w = decide_fields(3) [OF c, symmetric]
  have refuse: "cacheableStatus status \<and> header_Values h ''Set-Cookie'' = [] \<and> \<not> snd (parseVary h)"
    using c by (auto simp: decide_cacheable storeRefusals_def split: if_splits prod.splits)
  have gate: "\<not> cc_private cc \<and> \<not> cc_noStore cc \<and> \<not> cc_noCache cc \<and>
      (auth \<longrightarrow> cc_public cc \<or> cc_hasSMax cc \<or> cc_mustRevalidate cc) \<and> fitsCap meth h mfs chunked"
    using c by (auto simp: decide_cacheable mode_refuses_def sharedOptIn_def cc_def)
  have fresh: "now < de_freshUntil d \<and> de_freshUntil d \<le> now + maxTTL"
    using c by (simp add: assms(2) decide_fields(2) [OF c] decide_cacheable) (simp add: maxTTL_def Second_def)
  have "cc_mustRevalidate cc \<or> cc_proxyRevalidate cc \<longrightarrow>
      de_staleWhileRevalidate d = 0 \<and> de_staleIfError d = 0 \<and> de_noStale d"
    using w decide_fields(4) [OF c] by (auto simp: assms(2) staleWindows_def cc_def)
  then show ?thesis
    using refuse gate fresh staleWindows_range [OF w] by (simp add: assms(2))
qed

theorem policy_honors_origin_witness:
  "de_cacheable (decide (\<lambda>_. None) ''GET'' 200 (fresh_header ''public, max-age=60'') True 100 False 7) \<and>
   de_freshUntil (decide (\<lambda>_. None) ''GET'' 200 (fresh_header ''public, max-age=60'') True 100 False 7) \<le> 7 + maxTTL \<and>
   cc_public (parseCacheControl (fresh_header ''public, max-age=60''))"
proof -
  let ?h = "fresh_header ''public, max-age=60''"
  have c: "de_cacheable (decide (\<lambda>_. None) ''GET'' 200 ?h True 100 False 7)" by code_simp
  have "cc_public (parseCacheControl ?h)" by code_simp
  then show ?thesis using policy_honors_origin [OF refl c] c by blast
qed

text \<open>The overrides are ordered: with a positive forced lifetime, whatever the honor-origin policy
  caches the conservative override caches with the same freshness, whatever that caches the balanced
  one caches, and whatever that caches the aggressive one caches; each still refuses what storing
  always refuses and what does not fit.\<close>

theorem policy_override_order:
  assumes "0 < ov_TTL ov"
  shows "(de_cacheable (decide pt meth status h auth mfs chunked now) \<longrightarrow>
      de_cacheable (decideForced pt meth status h auth mfs chunked now (ov\<lparr>ov_Mode := OverrideConservative\<rparr>)) \<and>
      de_freshUntil (decideForced pt meth status h auth mfs chunked now (ov\<lparr>ov_Mode := OverrideConservative\<rparr>)) =
        de_freshUntil (decide pt meth status h auth mfs chunked now)) \<and>
    (de_cacheable (decideForced pt meth status h auth mfs chunked now (ov\<lparr>ov_Mode := OverrideConservative\<rparr>)) \<longrightarrow>
      de_cacheable (decideForced pt meth status h auth mfs chunked now (ov\<lparr>ov_Mode := OverrideBalanced\<rparr>))) \<and>
    (de_cacheable (decideForced pt meth status h auth mfs chunked now (ov\<lparr>ov_Mode := OverrideBalanced\<rparr>)) \<longrightarrow>
      de_cacheable (decideForced pt meth status h auth mfs chunked now (ov\<lparr>ov_Mode := OverrideAggressive\<rparr>))) \<and>
    (de_cacheable (decideForced pt meth status h auth mfs chunked now (ov\<lparr>ov_Mode := OverrideAggressive\<rparr>)) \<longleftrightarrow>
      storeRefusals status h \<noteq> None \<and> fitsCap meth h mfs chunked)"
proof -
  let ?D = "\<lambda>mode. decideForced pt meth status h auth mfs chunked now (ov\<lparr>ov_Mode := mode\<rparr>)"
  have "de_freshUntil (?D OverrideConservative) = de_freshUntil (decide pt meth status h auth mfs chunked now)"
    if c: "de_cacheable (decide pt meth status h auth mfs chunked now)"
      and f: "de_cacheable (?D OverrideConservative)"
    using c decide_fields(2) [OF c] decideForced_fields(2) [OF f] by (simp add: decide_cacheable)
  then show ?thesis
    using assms by (auto simp: decide_cacheable decideForced_cacheable mode_refuses_def)
qed

theorem policy_override_order_witness:
  "de_cacheable (decideForced (\<lambda>_. None) ''GET'' 200 (fresh_header ''no-store'') True 100 False 0
     \<lparr>ov_TTL = 60, ov_StaleWhileRevalidate = 0, ov_StaleIfError = 0, ov_Mode = OverrideAggressive\<rparr>) \<and>
   \<not> de_cacheable (decideForced (\<lambda>_. None) ''GET'' 200 (fresh_header ''no-store'') True 100 False 0
     \<lparr>ov_TTL = 60, ov_StaleWhileRevalidate = 0, ov_StaleIfError = 0, ov_Mode = OverrideBalanced\<rparr>)"
proof -
  let ?ov = "\<lparr>ov_TTL = 60, ov_StaleWhileRevalidate = 0, ov_StaleIfError = 0, ov_Mode = OverrideBalanced\<rparr>"
  have "storeRefusals 200 (fresh_header ''no-store'') = Some []" "fitsCap ''GET'' (fresh_header ''no-store'') 100 False"
    "\<not> de_cacheable (decideForced (\<lambda>_. None) ''GET'' 200 (fresh_header ''no-store'') True 100 False 0 ?ov)"
    by code_simp+
  then show ?thesis
    using policy_override_order [of ?ov "\<lambda>_. None" "''GET''" 200 "fresh_header ''no-store''" True 100 False 0]
    by simp
qed

text \<open>The product with a second wraps before the clamp: a max-age of 18446744074 seconds is fresh for 0.29
  seconds, one of 9223372037 seconds is not cached, and an Age of 9223372037 seconds counts as none.\<close>

theorem policy_max_age_wraps:
  "de_freshUntil (decide (\<lambda>_. None) ''GET'' 200 (fresh_header ''max-age=18446744074'') False 100 False 0) = 290448384 \<and>
   \<not> de_cacheable (decide (\<lambda>_. None) ''GET'' 200 (fresh_header ''max-age=9223372037'') False 100 False 0) \<and>
   de_cacheable (decide (\<lambda>_. None) ''GET'' 200
     ((fresh_header ''max-age=60'')(''Age'' \<mapsto> [''9223372037''])) False 100 False 0)"
  by code_simp

lemma storeRefusals_vary:
  assumes "storeRefusals status h = Some vary"
  shows "distinct vary \<and> list_all vary_name vary"
  using assms vary_loop_names [of "[]" "header_tokens h ''Vary''" vary]
  by (auto simp: storeRefusals_def parseVary_def split: if_splits prod.splits)

end
