(* ===== verification/Cache_Fill.thy ===== *)
theory Cache_Fill
  imports Cache_Keys Cache_Policy
begin

text \<open>
  Filling the cache (\<^verbatim>\<open>pkg/cache/tee.go\<close>, and \<^verbatim>\<open>New\<close>, \<^verbatim>\<open>overrideFor\<close> and \<^verbatim>\<open>fill\<close> of \<^verbatim>\<open>cache.go\<close>): the writer
  that streams a response to the client and to storage, decides what is kept, and commits it only
  when it is complete. The storage is any backend with the operations of the storage interface.
\<close>

section \<open>The middleware and its storage\<close>

record Cache =
  ca_invalidatedAfter :: "(HttpRequest \<Rightarrow> Meta \<Rightarrow> int) option"
  ca_cacheable :: "(HttpRequest \<Rightarrow> bool) option"
  ca_override :: "(HttpRequest \<Rightarrow> int \<Rightarrow> Header \<Rightarrow> Override option) option"
  ca_maxFileSize :: int
  ca_lockTimeout :: int
  ca_revalidateTimeout :: int
  ca_defaultSWR :: int
  ca_defaultSIE :: int
  ca_decoupleFill :: bool
  ca_cacheChunked :: bool

record Options =
  op_InvalidatedAfter :: "(HttpRequest \<Rightarrow> Meta \<Rightarrow> int) option"
  op_Cacheable :: "(HttpRequest \<Rightarrow> bool) option"
  op_Override :: "(HttpRequest \<Rightarrow> int \<Rightarrow> Header \<Rightarrow> Override option) option"
  op_MaxFileSize :: int
  op_LockTimeout :: int
  op_RevalidateTimeout :: int
  op_DefaultStaleWhileRevalidate :: int
  op_DefaultStaleIfError :: int
  op_DecoupleFill :: bool
  op_CacheChunked :: bool

definition cache_New :: "Options \<Rightarrow> Cache" where
  "cache_New opts = \<lparr>
     ca_invalidatedAfter = op_InvalidatedAfter opts,
     ca_cacheable = op_Cacheable opts,
     ca_override = op_Override opts,
     ca_maxFileSize = (if op_MaxFileSize opts \<le> 0 then 8 * 2 ^ 20 else op_MaxFileSize opts),
     ca_lockTimeout = (if op_LockTimeout opts \<le> 0 then 2 * Second else op_LockTimeout opts),
     ca_revalidateTimeout = (if op_RevalidateTimeout opts \<le> 0 then 30 * Second else op_RevalidateTimeout opts),
     ca_defaultSWR = clampStaleWindow (op_DefaultStaleWhileRevalidate opts),
     ca_defaultSIE = clampStaleWindow (op_DefaultStaleIfError opts),
     ca_decoupleFill = op_DecoupleFill opts,
     ca_cacheChunked = op_CacheChunked opts\<rparr>"

definition overrideFor :: "Cache \<Rightarrow> HttpRequest \<Rightarrow> int \<Rightarrow> Header \<Rightarrow> Override option" where
  "overrideFor c r status h =
     (case ca_override c of
        None \<Rightarrow> None
      | Some f \<Rightarrow> (case f r status h of
                   None \<Rightarrow> None
                 | Some ov \<Rightarrow> if ov_TTL ov \<le> 0 then None else Some ov))"

text \<open>
  A backend: lookup, whether a writer opens for a key, whether it takes a chunk, commit with its
  success, and delete.
\<close>

record 's Storage =
  so_Get :: "'s \<Rightarrow> string \<Rightarrow> 's \<times> entry option"
  so_Opens :: "'s \<Rightarrow> string \<Rightarrow> bool"
  so_Accepts :: "'s \<Rightarrow> string \<Rightarrow> bool"
  so_Commit :: "'s \<Rightarrow> string \<Rightarrow> entry \<Rightarrow> 's \<times> bool"
  so_Delete :: "'s \<Rightarrow> string \<Rightarrow> 's"

text \<open>The state of the middleware: its store and the learned Vary names.\<close>

record 's cache_state =
  cs_store :: 's
  cs_vary :: primaryVary

section \<open>Stored headers and tags\<close>

definition hopByHop :: "string list" where
  "hopByHop = [''Connection'', ''Proxy-Connection'', ''Keep-Alive'', ''Te'', ''Trailer'', ''Transfer-Encoding'',
     ''Upgrade'', ''Proxy-Authenticate'', ''Proxy-Authorization'']"

definition sanitizeHeader :: "Header \<Rightarrow> Header" where
  "sanitizeHeader h = (\<lambda>k. if CanonicalHeaderKey k \<in> set hopByHop then None else h k)"

definition maxCacheTags :: nat where
  "maxCacheTags = 64"

definition maxCacheTagLen :: nat where
  "maxCacheTagLen = 256"

fun tags_loop :: "string list \<Rightarrow> string list \<Rightarrow> string list" where
  "tags_loop [] tags = tags"
| "tags_loop (t0 # toks) tags =
     (let t = TrimSpace t0
      in if t = '''' \<or> maxCacheTagLen < length t then tags_loop toks tags
         else if t \<in> set tags then tags_loop toks tags
         else if maxCacheTags \<le> length (tags @ [t]) then tags @ [t]
         else tags_loop toks (tags @ [t]))"

definition parseCacheTags :: "Header \<Rightarrow> string list" where
  "parseCacheTags h = tags_loop (header_tokens h ''Cache-Tag'') []"

section \<open>The tee writer\<close>

text \<open>
  \<open>tw_u\<close> is the client's writer and \<open>tw_ew\<close> the body streamed to storage, \<open>None\<close> when the response is
  not cached.
\<close>

record 'w teeWriter =
  tw_u :: 'w
  tw_ew :: "string option"
  tw_freshUntil :: int
  tw_metaHeader :: Header
  tw_storeKey :: string
  tw_vary :: "string list"
  tw_tags :: "string list"
  tw_leaderBuf :: string
  tw_swr :: int
  tw_sie :: int
  tw_written :: int
  tw_contentLen :: int
  tw_status :: int
  tw_wroteHeader :: bool
  tw_hasCL :: bool
  tw_deferredClient :: bool

definition new_tee :: "'w \<Rightarrow> 'w teeWriter" where
  "new_tee u = \<lparr>tw_u = u, tw_ew = None, tw_freshUntil = 0, tw_metaHeader = Map.empty, tw_storeKey = '''',
     tw_vary = [], tw_tags = [], tw_leaderBuf = '''', tw_swr = 0, tw_sie = 0, tw_written = 0,
     tw_contentLen = 0, tw_status = 0, tw_wroteHeader = False, tw_hasCL = False, tw_deferredClient = False\<rparr>"

text \<open>
  What a fill is given: the middleware, the hash and the date parser, the request and its primary
  key, whether the storage opens a writer and takes a chunk, whether followers wait on the fill lock
  when the header is written, and the time then.
\<close>

record fill_env =
  fe_c :: Cache
  fe_hash :: "string \<Rightarrow> string"
  fe_pt :: "string \<Rightarrow> int option"
  fe_r :: HttpRequest
  fe_primaryHex :: string
  fe_opens :: "string \<Rightarrow> bool"
  fe_accepts :: "string \<Rightarrow> bool"
  fe_contended :: bool
  fe_now :: int

definition tee_decide :: "fill_env \<Rightarrow> int \<Rightarrow> Header \<Rightarrow> decision" where
  "tee_decide E code h =
     (let c = fe_c E; r = fe_r E; auth = (header_Get (hr_Header r) ''Authorization'' \<noteq> '''')
      in case overrideFor c r code h of
           Some ov \<Rightarrow> decideForced (fe_pt E) (hr_Method r) code h auth (ca_maxFileSize c) (ca_cacheChunked c) (fe_now E) ov
         | None \<Rightarrow> decide (fe_pt E) (hr_Method r) code h auth (ca_maxFileSize c) (ca_cacheChunked c) (fe_now E))"

definition tee_open :: "fill_env \<Rightarrow> int \<Rightarrow> Header \<Rightarrow> 'w teeWriter \<Rightarrow> 'w teeWriter" where
  "tee_open E code h tw =
     (let dec = tee_decide E code h; c = fe_c E
      in if \<not> de_cacheable dec then tw
         else let vary = sort_Strings (de_vary dec);
                  storeKey = variantHashFor (fe_hash E) (fe_primaryHex E) vary (hr_Header (fe_r E))
              in if \<not> fe_opens E storeKey then tw
                 else tw\<lparr>tw_ew := Some '''', tw_storeKey := storeKey, tw_vary := vary,
                         tw_tags := parseCacheTags h, tw_freshUntil := de_freshUntil dec,
                         tw_swr := (if \<not> de_noStale dec \<and> de_staleWhileRevalidate dec = 0
                                    then ca_defaultSWR c else de_staleWhileRevalidate dec),
                         tw_sie := (if \<not> de_noStale dec \<and> de_staleIfError dec = 0
                                    then ca_defaultSIE c else de_staleIfError dec),
                         tw_metaHeader := sanitizeHeader h,
                         tw_hasCL := (contentLength h \<noteq> None),
                         tw_contentLen := (case contentLength h of Some cl \<Rightarrow> cl | None \<Rightarrow> 0)\<rparr>)"

definition tee_WriteHeader :: "'w writer \<Rightarrow> fill_env \<Rightarrow> int \<Rightarrow> 'w teeWriter \<Rightarrow> 'w teeWriter" where
  "tee_WriteHeader W E code tw =
     (if tw_wroteHeader tw then tw
      else let h = wr_Header W (tw_u tw);
               tw1 = tee_open E code h (tw\<lparr>tw_wroteHeader := True, tw_status := code\<rparr>)
           in if tw_ew tw1 \<noteq> None \<and> tw_hasCL tw1 \<and> ca_decoupleFill (fe_c E) \<and> fe_contended E
              then tw1\<lparr>tw_deferredClient := True\<rparr>
              else tw1\<lparr>tw_u := wr_step W (WriteHeader code) (wr_step W (HSet ''X-Cache'' ''MISS'') (tw_u tw1))\<rparr>)"

definition tee_abort :: "'w teeWriter \<Rightarrow> 'w teeWriter" where
  "tee_abort tw = tw\<lparr>tw_ew := None\<rparr>"

definition tee_store :: "fill_env \<Rightarrow> string \<Rightarrow> 'w teeWriter \<Rightarrow> 'w teeWriter" where
  "tee_store E p tw =
     (case tw_ew tw of
        None \<Rightarrow> tw
      | Some b \<Rightarrow>
          if ca_maxFileSize (fe_c E) < tw_written tw + int (length p) then tee_abort tw
          else if \<not> fe_accepts E p then tee_abort tw
          else tw\<lparr>tw_ew := Some (b @ p), tw_written := tw_written tw + int (length p)\<rparr>)"

definition tee_buffer :: "fill_env \<Rightarrow> string \<Rightarrow> 'w teeWriter \<Rightarrow> 'w teeWriter" where
  "tee_buffer E p tw =
     (let room = ca_maxFileSize (fe_c E) - int (length (tw_leaderBuf tw))
      in if 0 < room
         then (if int (length p) \<le> room then tw\<lparr>tw_leaderBuf := tw_leaderBuf tw @ p\<rparr>
               else tw\<lparr>tw_leaderBuf := tw_leaderBuf tw @ take (nat room) p\<rparr>)
         else tw)"

definition tee_Write :: "'w writer \<Rightarrow> fill_env \<Rightarrow> string \<Rightarrow> 'w teeWriter \<Rightarrow> 'w teeWriter" where
  "tee_Write W E p tw =
     (let tw1 = (if tw_wroteHeader tw then tw else tee_WriteHeader W E 200 tw)
      in if tw_deferredClient tw1 then tee_store E p (tee_buffer E p tw1)
         else tee_store E p (tw1\<lparr>tw_u := wr_step W (Write p) (tw_u tw1)\<rparr>))"

definition tee_Flush :: "'w writer \<Rightarrow> 'w teeWriter \<Rightarrow> 'w teeWriter" where
  "tee_Flush W tw = (if tw_deferredClient tw then tw else tw\<lparr>tw_u := wr_step W Flush (tw_u tw)\<rparr>)"

fun tee_step :: "'w writer \<Rightarrow> fill_env \<Rightarrow> wop \<Rightarrow> 'w teeWriter \<Rightarrow> 'w teeWriter" where
  "tee_step W E (WriteHeader code) tw = tee_WriteHeader W E code tw"
| "tee_step W E (Write p) tw = tee_Write W E p tw"
| "tee_step W E Flush tw = tee_Flush W tw"
| "tee_step W E op tw = tw\<lparr>tw_u := wr_step W op (tw_u tw)\<rparr>"

section \<open>Finishing\<close>

definition tee_complete :: "fill_env \<Rightarrow> 'w teeWriter \<Rightarrow> bool" where
  "tee_complete E tw \<longleftrightarrow> hr_Method (fe_r E) = ''HEAD'' \<or>
     (tw_hasCL tw \<and> tw_written tw = tw_contentLen tw) \<or>
     (\<not> tw_hasCL tw \<and> ca_cacheChunked (fe_c E))"

definition tee_meta :: "fill_env \<Rightarrow> int \<Rightarrow> 'w teeWriter \<Rightarrow> Meta" where
  "tee_meta E now tw = \<lparr>
     me_Header = tw_metaHeader tw,
     me_PrimaryHex = fe_primaryHex E,
     me_Host = normalizeHost (hr_Host (fe_r E)),
     me_URI = hr_URI (fe_r E),
     me_Vary = tw_vary tw,
     me_Tags = tw_tags tw,
     me_Created = s64 now,
     me_FreshUntil = s64 (tw_freshUntil tw),
     me_StaleWhileRevalidate = tw_swr tw,
     me_StaleIfError = tw_sie tw,
     me_Size = tw_written tw,
     me_Status = tw_status tw\<rparr>"

text \<open>\<open>learn\<close> is \<^verbatim>\<open>setPrimaryVary\<close> with the bound of the map and the entry it drops when full.\<close>

definition tee_finish ::
  "'s Storage \<Rightarrow> (string \<Rightarrow> string list \<Rightarrow> primaryVary \<Rightarrow> primaryVary) \<Rightarrow> fill_env \<Rightarrow> int
     \<Rightarrow> 'w teeWriter \<Rightarrow> 's cache_state \<Rightarrow> 's cache_state"
where
  "tee_finish S learn E now tw s =
     (case tw_ew tw of
        None \<Rightarrow> s
      | Some body \<Rightarrow>
          if \<not> tee_complete E tw then s
          else case so_Commit S (cs_store s) (tw_storeKey tw) (tee_meta E now tw, body) of
                 (st, ok) \<Rightarrow>
                   if ok then \<lparr>cs_store = st, cs_vary = learn (fe_primaryHex E) (tw_vary tw) (cs_vary s)\<rparr>
                   else s\<lparr>cs_store := st\<rparr>)"

definition serveLeader :: "'w writer \<Rightarrow> fill_env \<Rightarrow> 'w teeWriter \<Rightarrow> 'w" where
  "serveLeader W E tw =
     (let u = wr_step W (WriteHeader (tw_status tw))
                (wr_step W (HSet ''X-Cache'' ''MISS'')
                  (wr_step W (HMerge (tw_metaHeader tw)) (wr_step W HClear (tw_u tw))))
      in if hr_Method (fe_r E) \<noteq> ''HEAD'' \<and> tw_status tw \<noteq> 204
         then wr_step W (Write (tw_leaderBuf tw)) u else u)"

text \<open>
  \<^verbatim>\<open>fill\<close>: the leader. A panic of the handler unwinds through the deferred cleanup, which aborts the
  entry; otherwise the entry is finished and a deferred client served. The flag reports the panic.
\<close>

definition fill ::
  "'s Storage \<Rightarrow> (string \<Rightarrow> string list \<Rightarrow> primaryVary \<Rightarrow> primaryVary) \<Rightarrow> 'w writer \<Rightarrow> fill_env \<Rightarrow> int
     \<Rightarrow> Handler \<Rightarrow> 'w \<Rightarrow> 's cache_state \<Rightarrow> 's cache_state \<times> 'w \<times> bool"
where
  "fill S learn W E now next u s =
     (case run_ops (tee_step W E) (next (fe_r E)) (new_tee u) of
        (tw, True) \<Rightarrow> (s, tw_u tw, True)
      | (tw, False) \<Rightarrow>
          (tee_finish S learn E now tw s,
           if tw_deferredClient tw then serveLeader W E tw else tw_u tw, False))"

section \<open>What a fill stores\<close>

fun op_payload :: "wop \<Rightarrow> string" where
  "op_payload (Write p) = p"
| "op_payload _ = ''''"

definition payload :: "wop list \<Rightarrow> string" where
  "payload ops = concat (map op_payload ops)"

lemma run_ops_payload:
  assumes "\<And>pl op w. \<not> is_Panic op \<Longrightarrow> Q pl w \<Longrightarrow> Q (pl @ op_payload op) (step op w)"
  shows "Q pl w \<Longrightarrow> run_ops step ops w = (w', False) \<Longrightarrow> Q (pl @ payload ops) w'"
  using assms
proof (induction ops arbitrary: pl w)
  case (Cons op ops)
  then have "\<not> is_Panic op" "run_ops step ops (step op w) = (w', False)"
    by (auto split: if_splits)
  with Cons.IH [of "pl @ op_payload op" "step op w"] Cons.prems show ?case
    by (simp add: payload_def)
qed (simp add: payload_def)

text \<open>What the writer keeps about the response it opened an entry for, whose header was \<open>h\<close>.\<close>

definition opened :: "fill_env \<Rightarrow> Header \<Rightarrow> 'w teeWriter \<Rightarrow> bool" where
  "opened E h tw \<longleftrightarrow>
     de_cacheable (tee_decide E (tw_status tw) h) \<and>
     tw_vary tw = sort_Strings (de_vary (tee_decide E (tw_status tw) h)) \<and>
     tw_storeKey tw = variantHashFor (fe_hash E) (fe_primaryHex E) (tw_vary tw) (hr_Header (fe_r E)) \<and>
     tw_freshUntil tw = de_freshUntil (tee_decide E (tw_status tw) h) \<and>
     tw_metaHeader tw = sanitizeHeader h \<and> tw_tags tw = parseCacheTags h \<and>
     tw_hasCL tw = (contentLength h \<noteq> None) \<and>
     (\<forall>cl. contentLength h = Some cl \<longrightarrow> tw_contentLen tw = cl)"

definition tee_inv :: "fill_env \<Rightarrow> string \<Rightarrow> 'w teeWriter \<Rightarrow> bool" where
  "tee_inv E pl tw \<longleftrightarrow>
     (\<not> tw_wroteHeader tw \<longrightarrow> pl = '''' \<and> tw_ew tw = None \<and> tw_written tw = 0) \<and>
     (\<forall>b. tw_ew tw = Some b \<longrightarrow> b = pl \<and> tw_written tw = int (length b) \<and>
        tw_written tw \<le> ca_maxFileSize (fe_c E) \<and> (\<exists>h. opened E h tw))"

lemma opened_frame:
  "opened E h (tw\<lparr>tw_u := u\<rparr>) = opened E h tw"
  "opened E h (tw\<lparr>tw_deferredClient := d\<rparr>) = opened E h tw"
  "opened E h (tw\<lparr>tw_leaderBuf := b\<rparr>) = opened E h tw"
  "opened E h (tw\<lparr>tw_ew := e, tw_written := n\<rparr>) = opened E h tw"
  by (simp_all add: opened_def)

lemma tee_inv_frame:
  "tee_inv E pl (tw\<lparr>tw_u := u\<rparr>) = tee_inv E pl tw"
  "tee_inv E pl (tw\<lparr>tw_deferredClient := d\<rparr>) = tee_inv E pl tw"
  "tee_inv E pl (tw\<lparr>tw_leaderBuf := b\<rparr>) = tee_inv E pl tw"
  by (simp_all add: tee_inv_def opened_frame)

lemma tee_open_inv:
  assumes "tw_ew tw = None" "tw_written tw = 0" "tw_wroteHeader tw" "tw_status tw = code"
    and "0 \<le> ca_maxFileSize (fe_c E)"
  shows "tee_inv E '''' (tee_open E code h tw)"
proof (cases "tw_ew (tee_open E code h tw)")
  case None
  have "tw_wroteHeader (tee_open E code h tw)"
    using assms(3) by (simp add: tee_open_def Let_def)
  with None show ?thesis by (simp add: tee_inv_def)
next
  case (Some b)
  then have "opened E h (tee_open E code h tw)" "b = ''''"
    using assms by (auto simp: opened_def tee_open_def Let_def split: if_splits)
  moreover have "tw_wroteHeader (tee_open E code h tw)" "tw_written (tee_open E code h tw) = 0"
    using assms by (simp_all add: tee_open_def Let_def)
  ultimately show ?thesis using Some assms(5) by (auto simp: tee_inv_def)
qed

lemma tee_WriteHeader_inv:
  assumes "0 \<le> ca_maxFileSize (fe_c E)" "tee_inv E pl tw"
  shows "tee_inv E pl (tee_WriteHeader W E code tw) \<and> tw_wroteHeader (tee_WriteHeader W E code tw)"
proof (cases "tw_wroteHeader tw")
  case True
  then show ?thesis using assms by (simp add: tee_WriteHeader_def)
next
  case False
  then have "pl = ''''" "tw_ew tw = None" "tw_written tw = 0" using assms(2) by (simp_all add: tee_inv_def)
  then have "tee_inv E pl (tee_open E code (wr_Header W (tw_u tw)) (tw\<lparr>tw_wroteHeader := True, tw_status := code\<rparr>))"
    using tee_open_inv [of "tw\<lparr>tw_wroteHeader := True, tw_status := code\<rparr>" code E] assms(1) by simp
  moreover have "tw_wroteHeader (tee_open E code h (tw\<lparr>tw_wroteHeader := True, tw_status := code\<rparr>))" for h
    by (simp add: tee_open_def Let_def)
  ultimately show ?thesis
    using False by (simp add: tee_WriteHeader_def Let_def tee_inv_frame)
qed

lemma tee_store_inv:
  "tee_inv E pl tw \<Longrightarrow> tw_wroteHeader tw \<Longrightarrow> tee_inv E (pl @ p) (tee_store E p tw)"
  by (auto simp: tee_inv_def tee_store_def tee_abort_def opened_frame split: option.split)

lemma tee_buffer_frame:
  "tee_inv E pl (tee_buffer E p tw) = tee_inv E pl tw"
  "tw_wroteHeader (tee_buffer E p tw) = tw_wroteHeader tw"
  by (simp_all add: tee_buffer_def Let_def tee_inv_frame)

lemma tee_Write_inv:
  assumes "0 \<le> ca_maxFileSize (fe_c E)" "tee_inv E pl tw"
  shows "tee_inv E (pl @ p) (tee_Write W E p tw)"
proof -
  let ?tw = "if tw_wroteHeader tw then tw else tee_WriteHeader W E 200 tw"
  have "tee_inv E pl ?tw" "tw_wroteHeader ?tw" using tee_WriteHeader_inv [OF assms] assms(2) by simp_all
  then have "tee_inv E (pl @ p) (tee_store E p (tee_buffer E p ?tw))"
    "tee_inv E (pl @ p) (tee_store E p (?tw\<lparr>tw_u := u\<rparr>))" for u
    by (simp_all only: tee_store_inv tee_buffer_frame tee_inv_frame teeWriter.simps if_True)
      (simp_all add: tee_store_inv tee_inv_frame)
  then show ?thesis unfolding tee_Write_def Let_def by (simp only: if_split) blast
qed

lemma tee_step_inv:
  assumes "0 \<le> ca_maxFileSize (fe_c E)" "tee_inv E pl tw"
  shows "tee_inv E (pl @ op_payload op) (tee_step W E op tw)"
  using assms tee_WriteHeader_inv [OF assms] tee_Write_inv [OF assms]
  by (cases op) (simp_all add: tee_inv_frame tee_Flush_def)

lemma sanitize_values:
  "CanonicalHeaderKey (CanonicalHeaderKey k) \<notin> set hopByHop \<Longrightarrow>
     header_Values (sanitizeHeader h) k = header_Values h k"
  by (simp add: header_Values_def sanitizeHeader_def)

lemma sanitize_concrete:
  "header_Values (sanitizeHeader h) ''Content-Length'' = header_Values h ''Content-Length''"
  "header_Values (sanitizeHeader h) ''Set-Cookie'' = header_Values h ''Set-Cookie''"
  "header_Values (sanitizeHeader h) ''Vary'' = header_Values h ''Vary''"
  "header_Values (sanitizeHeader h) ''Cache-Tag'' = header_Values h ''Cache-Tag''"
  by (rule sanitize_values, code_simp)+

lemma sanitize_reads:
  "contentLength (sanitizeHeader h) = contentLength h"
  "parseVary (sanitizeHeader h) = parseVary h"
  "parseCacheTags (sanitizeHeader h) = parseCacheTags h"
  by (simp_all add: contentLength_def parseVary_def parseCacheTags_def header_tokens_def header_Get_def
      sanitize_concrete)

lemma tee_decide_cacheable:
  assumes "de_cacheable (tee_decide E code h)"
  shows "storeRefusals code h = Some (de_vary (tee_decide E code h))"
    "fitsCap (hr_Method (fe_r E)) h (ca_maxFileSize (fe_c E)) (ca_cacheChunked (fe_c E))"
    "fe_now E < de_freshUntil (tee_decide E code h)"
    "de_freshUntil (tee_decide E code h) \<le> fe_now E + maxTTL"
proof -
  let ?dec = "tee_decide E code h"
  let ?auth = "header_Get (hr_Header (fe_r E)) ''Authorization'' \<noteq> ''''"
  have "0 < maxTTL" by (simp add: maxTTL_def Second_def)
  consider "?dec = decide (fe_pt E) (hr_Method (fe_r E)) code h ?auth (ca_maxFileSize (fe_c E)) (ca_cacheChunked (fe_c E)) (fe_now E)"
    | ov where "?dec = decideForced (fe_pt E) (hr_Method (fe_r E)) code h ?auth (ca_maxFileSize (fe_c E)) (ca_cacheChunked (fe_c E)) (fe_now E) ov" "0 < ov_TTL ov"
    by (cases "overrideFor (fe_c E) (fe_r E) code h")
      (auto simp: tee_decide_def Let_def overrideFor_def split: option.splits if_splits)
  then have "storeRefusals code h = Some (de_vary ?dec) \<and>
      fitsCap (hr_Method (fe_r E)) h (ca_maxFileSize (fe_c E)) (ca_cacheChunked (fe_c E)) \<and>
      fe_now E < de_freshUntil ?dec \<and> de_freshUntil ?dec \<le> fe_now E + maxTTL"
  proof cases
    case 1
    note c = assms [unfolded 1]
    show ?thesis
      unfolding 1 using c [unfolded decide_cacheable] decide_fields(1,2) [OF c] \<open>0 < maxTTL\<close> by simp
  next
    case 2
    note c = assms [unfolded 2(1)]
    show ?thesis
      unfolding 2(1) using c [unfolded decideForced_cacheable] decideForced_fields(1,2) [OF c] \<open>0 < maxTTL\<close> 2(2)
      by simp
  qed
  then show "storeRefusals code h = Some (de_vary ?dec)"
    "fitsCap (hr_Method (fe_r E)) h (ca_maxFileSize (fe_c E)) (ca_cacheChunked (fe_c E))"
    "fe_now E < de_freshUntil ?dec" "de_freshUntil ?dec \<le> fe_now E + maxTTL" by blast+
qed

text \<open>An entry that is whole and shareable, for a handler that wrote \<open>pl\<close>.\<close>

definition sound_entry :: "fill_env \<Rightarrow> string \<Rightarrow> string \<Rightarrow> entry \<Rightarrow> bool" where
  "sound_entry E pl key e \<longleftrightarrow>
     (case e of (m, body) \<Rightarrow>
        body = pl \<and> me_Size m = int (length body) \<and> me_Size m \<le> ca_maxFileSize (fe_c E) \<and>
        (hr_Method (fe_r E) = ''HEAD'' \<or> contentLength (me_Header m) = Some (int (length body)) \<or>
         contentLength (me_Header m) = None \<and> ca_cacheChunked (fe_c E)) \<and>
        cacheableStatus (me_Status m) \<and> header_Values (me_Header m) ''Set-Cookie'' = [] \<and>
        parseVary (me_Header m) = (fst (parseVary (me_Header m)), False) \<and>
        me_Vary m = sort_Strings (fst (parseVary (me_Header m))) \<and>
        me_Tags m = parseCacheTags (me_Header m) \<and>
        key = variantHashFor (fe_hash E) (me_PrimaryHex m) (me_Vary m) (hr_Header (fe_r E)) \<and>
        me_PrimaryHex m = fe_primaryHex E \<and>
        (0 \<le> fe_now E \<and> fe_now E + maxTTL < 2 ^ 63 \<longrightarrow>
           fe_now E < me_FreshUntil m \<and> me_FreshUntil m \<le> fe_now E + maxTTL))"

lemma opened_sound:
  assumes "tee_inv E pl tw" "tw_ew tw = Some body" "tee_complete E tw"
  shows "sound_entry E pl (tw_storeKey tw) (tee_meta E now tw, body)"
proof -
  from assms obtain h where h: "opened E h tw" and b: "body = pl" "tw_written tw = int (length body)"
    "tw_written tw \<le> ca_maxFileSize (fe_c E)"
    by (auto simp: tee_inv_def)
  from h have c: "de_cacheable (tee_decide E (tw_status tw) h)" by (simp add: opened_def)
  note r = tee_decide_cacheable(1) [OF c]
  then have "cacheableStatus (tw_status tw)" "header_Values h ''Set-Cookie'' = []"
    "parseVary h = (de_vary (tee_decide E (tw_status tw) h), False)"
    by (auto simp: storeRefusals_def split: if_splits prod.splits)
  moreover have "hr_Method (fe_r E) = ''HEAD'' \<or> contentLength h = Some (int (length body)) \<or>
      contentLength h = None \<and> ca_cacheChunked (fe_c E)"
    using assms(3) h b(2) by (auto simp: tee_complete_def opened_def)
  moreover have "0 \<le> fe_now E \<and> fe_now E + maxTTL < 2 ^ 63 \<longrightarrow>
      fe_now E < s64 (tw_freshUntil tw) \<and> s64 (tw_freshUntil tw) \<le> fe_now E + maxTTL"
    using tee_decide_cacheable(3,4) [OF c] h s64_id [of "tw_freshUntil tw"] by (auto simp: opened_def in64_def)
  ultimately show ?thesis
    using h b by (simp add: sound_entry_def tee_meta_def opened_def sanitize_reads sanitize_concrete)
qed

lemma fill_cases:
  "fill S learn W E now next u s =
     (let (tw, p) = run_ops (tee_step W E) (next (fe_r E)) (new_tee u)
      in if p then (s, tw_u tw, True)
         else (tee_finish S learn E now tw s,
               if tw_deferredClient tw then serveLeader W E tw else tw_u tw, False))"
  by (simp add: fill_def split: prod.split bool.split)

section \<open>Properties of what is stored\<close>

text \<open>C7. Whatever the handler does, a fill leaves the storage alone or commits one entry: the handler
  returned without a panic, the body is everything it wrote, at most the size cap and of exactly the
  declared length (when a length is required), the status is cacheable, there is no Set-Cookie and no
  Vary star, and the key is the one of the entry's own Vary names and the request's values for them.\<close>

theorem fill_commits_whole:
  assumes "0 < ca_maxFileSize (fe_c E)" "fill S learn W E now next u s = (s', u', panicked)"
  shows "s' = s \<or>
    (\<exists>key e st ok. \<not> panicked \<and> sound_entry E (payload (next (fe_r E))) key e \<and>
       so_Commit S (cs_store s) key e = (st, ok) \<and>
       s' = \<lparr>cs_store = st, cs_vary = (if ok then learn (fe_primaryHex E) (me_Vary (fst e)) (cs_vary s) else cs_vary s)\<rparr>)"
proof (cases "run_ops (tee_step W E) (next (fe_r E)) (new_tee u)")
  case (Pair tw p)
  show ?thesis
  proof (cases "p \<or> tw_ew tw = None \<or> \<not> tee_complete E tw")
    case True
    then have "s' = s"
      using assms(2) by (auto simp: fill_cases Pair tee_finish_def split: if_splits option.splits)
    then show ?thesis ..
  next
    case False
    then obtain body where b: "\<not> p" "tw_ew tw = Some body" "tee_complete E tw" by auto
    have "tee_inv E '''' (new_tee u)" by (simp add: tee_inv_def new_tee_def)
    from run_ops_payload [of "tee_inv E", OF tee_step_inv this] assms(1) Pair b(1)
    have "tee_inv E (payload (next (fe_r E))) tw" by fastforce
    from opened_sound [OF this b(2,3), of now]
    have snd: "sound_entry E (payload (next (fe_r E))) (tw_storeKey tw) (tee_meta E now tw, body)" .
    obtain st ok where c: "so_Commit S (cs_store s) (tw_storeKey tw) (tee_meta E now tw, body) = (st, ok)"
      by fastforce
    have "s' = tee_finish S learn E now tw s" "\<not> panicked"
      using assms(2) b(1) by (auto simp: fill_cases Pair)
    moreover have "tee_finish S learn E now tw s =
        \<lparr>cs_store = st, cs_vary = (if ok then learn (fe_primaryHex E) (me_Vary (tee_meta E now tw)) (cs_vary s) else cs_vary s)\<rparr>"
      using b c by (simp add: tee_finish_def tee_meta_def)
    ultimately show ?thesis using snd c by (metis fst_conv)
  qed
qed

text \<open>A GET of a five byte response that may be stored for a minute, from an empty store of one map.\<close>

definition fill_env0 :: "bool \<Rightarrow> fill_env" where
  "fill_env0 contended = \<lparr>
     fe_c = cache_New \<lparr>op_InvalidatedAfter = None, op_Cacheable = None, op_Override = None, op_MaxFileSize = 0,
       op_LockTimeout = 0, op_RevalidateTimeout = 0, op_DefaultStaleWhileRevalidate = 0,
       op_DefaultStaleIfError = 0, op_DecoupleFill = True, op_CacheChunked = False\<rparr>,
     fe_hash = id, fe_pt = (\<lambda>_. None), fe_r = purge_request ''h'' ''/a'', fe_primaryHex = ''p'',
     fe_opens = (\<lambda>_. True), fe_accepts = (\<lambda>_. True), fe_contended = contended, fe_now = 1000\<rparr>"

definition alist_storage :: "((string \<times> entry) list) Storage" where
  "alist_storage = \<lparr>so_Get = (\<lambda>s k. (s, map_of s k)), so_Opens = (\<lambda>_ _. True), so_Accepts = (\<lambda>_ _. True),
     so_Commit = (\<lambda>s k e. (AList.update k e s, True)), so_Delete = (\<lambda>s k. AList.delete k s)\<rparr>"

definition five_bytes :: Handler where
  "five_bytes r = [HSet ''Content-Length'' ''5'', HSet ''Cache-Control'' ''max-age=60'', WriteHeader 200,
     Write ''he'', Flush, Write ''llo'']"

definition fill0 :: "Handler \<Rightarrow> bool \<Rightarrow> ((string \<times> entry) list) cache_state \<times> ResponseWriter \<times> bool" where
  "fill0 next contended =
     fill alist_storage (setPrimaryVary 10 '''') server_writer (fill_env0 contended) 1000 next new_rw
       \<lparr>cs_store = [], cs_vary = []\<rparr>"

theorem fill_commits_whole_witness:
  "\<exists>s' u'. fill0 five_bytes False = (s', u', False) \<and> map (snd \<circ> snd) (cs_store s') = [''hello''] \<and>
     sound_entry (fill_env0 False) ''hello'' (fst (hd (cs_store s'))) (snd (hd (cs_store s')))"
proof -
  obtain s' u' p where f: "fill0 five_bytes False = (s', u', p)" by (cases "fill0 five_bytes False") auto
  have "map (snd \<circ> snd) (cs_store (fst (fill0 five_bytes False))) = [''hello''] \<and> \<not> snd (snd (fill0 five_bytes False))"
    by code_simp
  then have c: "map (snd \<circ> snd) (cs_store s') = [''hello'']" "\<not> p" using f by simp_all
  have pl: "payload (five_bytes (fe_r (fill_env0 False))) = ''hello''"
    by (simp add: payload_def five_bytes_def)
  have "0 < ca_maxFileSize (fe_c (fill_env0 False))" by (simp add: fill_env0_def cache_New_def)
  from fill_commits_whole [OF this f [unfolded fill0_def], unfolded pl] c(1)
  obtain key e where e: "sound_entry (fill_env0 False) ''hello'' key e" "cs_store s' = AList.update key e []"
    by (auto simp: alist_storage_def)
  then show ?thesis using f c by auto
qed

section \<open>What the client of a fill sees\<close>

definition same_header :: "Header \<Rightarrow> Header \<Rightarrow> bool" where
  "same_header h h' \<longleftrightarrow> (\<forall>k. k \<noteq> ''X-Cache'' \<longrightarrow> h k = h' k)"

definition rw_like :: "ResponseWriter \<Rightarrow> ResponseWriter \<Rightarrow> bool" where
  "rw_like u v \<longleftrightarrow> same_header (rw_Header u) (rw_Header v) \<and> rw_info u = rw_info v \<and>
     rw_status u = rw_status v \<and> same_header (rw_sent u) (rw_sent v) \<and> rw_body u = rw_body v \<and>
     rw_flushes u = rw_flushes v"

lemma same_header_op: "same_header h h' \<Longrightarrow> same_header (header_op op h) (header_op op h')"
  by (cases op) (auto simp: same_header_def header_Set_def header_Add_def header_Del_def header_Values_def
      map_add_def split: option.split)

text \<open>An operation writes, flushes, or only changes the header map.\<close>

definition only_header :: "wop \<Rightarrow> bool" where
  "only_header op \<longleftrightarrow> (\<forall>c. op \<noteq> WriteHeader c) \<and> (\<forall>p. op \<noteq> Write p) \<and> op \<noteq> Flush"

lemma wop_kind:
  obtains (header) "only_header op" | (WriteHeader) c where "op = WriteHeader c" | (Write) p where "op = Write p"
    | (Flush) "op = Flush"
  unfolding only_header_def by blast

lemma only_header_steps:
  assumes "only_header op"
  shows "rw_step op w = w\<lparr>rw_Header := header_op op (rw_Header w)\<rparr>"
    "tee_step W E op tw = tw\<lparr>tw_u := wr_step W op (tw_u tw)\<rparr>"
    "op_payload op = ''''"
  using assms by (cases op; simp add: only_header_def)+

lemma rw_like_step: "rw_like u v \<Longrightarrow> rw_like (rw_step op u) (rw_step op v)"
  by (cases op rule: wop_kind)
    (simp_all add: only_header_steps rw_like_def rw_WriteHeader_def rw_Write_def rw_Flush_def same_header_op)

lemma X_Cache_canonical: "CanonicalHeaderKey ''X-Cache'' = ''X-Cache''"
  by code_simp

lemma rw_like_tag: "rw_like (rw_step (HSet ''X-Cache'' t) u) v = rw_like u v"
  by (simp add: rw_like_def same_header_def header_Set_def X_Cache_canonical)

lemma tee_open_frame [simp]:
  "tw_u (tee_open E code h tw) = tw_u tw"
  "tw_wroteHeader (tee_open E code h tw) = tw_wroteHeader tw"
  "tw_status (tee_open E code h tw) = tw_status tw"
  "tw_deferredClient (tee_open E code h tw) = tw_deferredClient tw"
  "tw_leaderBuf (tee_open E code h tw) = tw_leaderBuf tw"
  by (simp_all add: tee_open_def Let_def)

lemma tee_open_metaHeader:
  "tw_ew tw = None \<Longrightarrow> tw_ew (tee_open E code h tw) \<noteq> None \<Longrightarrow>
     tw_metaHeader (tee_open E code h tw) = sanitizeHeader h"
  by (simp add: tee_open_def Let_def split: if_splits)

lemma tee_store_frame [simp]:
  "tw_u (tee_store E p tw) = tw_u tw"
  "tw_wroteHeader (tee_store E p tw) = tw_wroteHeader tw"
  "tw_status (tee_store E p tw) = tw_status tw"
  "tw_deferredClient (tee_store E p tw) = tw_deferredClient tw"
  "tw_leaderBuf (tee_store E p tw) = tw_leaderBuf tw"
  "tw_metaHeader (tee_store E p tw) = tw_metaHeader tw"
  by (simp_all add: tee_store_def tee_abort_def split: option.split)

lemma tee_buffer_only [simp]:
  "tw_u (tee_buffer E p tw) = tw_u tw"
  "tw_status (tee_buffer E p tw) = tw_status tw"
  "tw_deferredClient (tee_buffer E p tw) = tw_deferredClient tw"
  "tw_metaHeader (tee_buffer E p tw) = tw_metaHeader tw"
  by (simp_all add: tee_buffer_def Let_def)

lemma tee_buffer_take:
  assumes "int n = ca_maxFileSize (fe_c E)" "tw_leaderBuf tw = take n b"
  shows "tw_leaderBuf (tee_buffer E p tw) = take n (b @ p)"
proof (cases "n \<le> length b")
  case True
  then show ?thesis using assms by (simp add: tee_buffer_def Let_def)
next
  case False
  then have "tw_leaderBuf tw = b" "nat (int n - int (length b)) = n - length b" using assms(2) by simp_all
  then show ?thesis using False by (simp add: tee_buffer_def Let_def flip: assms(1))
qed

definition informational :: "int \<Rightarrow> bool" where
  "informational code \<longleftrightarrow> 100 \<le> code \<and> code \<le> 199 \<and> code \<noteq> 101"

text \<open>The writer \<open>v\<close> the handler would have written to without the cache.\<close>

definition tee_like :: "nat \<Rightarrow> ResponseWriter teeWriter \<Rightarrow> ResponseWriter \<Rightarrow> bool" where
  "tee_like n tw v \<longleftrightarrow>
     (if tw_deferredClient tw
      then tw_wroteHeader tw \<and> rw_body (tw_u tw) = '''' \<and> tw_leaderBuf tw = take n (rw_body v) \<and>
        (case rw_status (tw_u tw) of
           None \<Rightarrow> rw_status v = Some (tw_status tw) \<and> \<not> informational (tw_status tw) \<and>
             (\<exists>h. tw_metaHeader tw = sanitizeHeader h \<and> same_header h (rw_sent v))
         | Some c \<Rightarrow> rw_status v = Some c \<and> same_header (rw_sent (tw_u tw)) (rw_sent v))
      else rw_like (tw_u tw) v \<and> tw_leaderBuf tw = '''' \<and>
        (if tw_wroteHeader tw then rw_status (tw_u tw) \<noteq> None else rw_body v = '''' \<and> tw_ew tw = None))"

lemma tee_like_new: "tee_like n (new_tee u) u \<longleftrightarrow> rw_body u = ''''"
  by (simp add: tee_like_def new_tee_def rw_like_def same_header_def)

lemma rw_header_kept:
  "rw_status v = Some c \<Longrightarrow> rw_WriteHeader code v = v"
  "\<not> informational code \<Longrightarrow> rw_status (rw_WriteHeader code v) \<noteq> None"
  by (auto simp: rw_WriteHeader_def informational_def)

lemma tee_like_wrote:
  assumes "tee_like n tw v" "tw_wroteHeader tw"
  shows "rw_status v \<noteq> None"
proof (cases "tw_deferredClient tw")
  case True
  then show ?thesis using assms by (auto simp: tee_like_def split: option.splits)
next
  case False
  then have "rw_like (tw_u tw) v" "rw_status (tw_u tw) \<noteq> None"
    using assms unfolding tee_like_def by simp_all
  then show ?thesis unfolding rw_like_def by metis
qed

lemma tee_like_WriteHeader:
  assumes "tee_like n tw v" "\<not> informational code"
  shows "tee_like n (tee_WriteHeader server_writer E code tw) (rw_WriteHeader code v)"
proof (cases "tw_wroteHeader tw")
  case True
  then have "rw_status v \<noteq> None"
    by (rule tee_like_wrote [OF assms(1)])
  then show ?thesis using True assms(1) by (auto simp: tee_WriteHeader_def rw_WriteHeader_def)
next
  case False
  let ?u = "tw_u tw"
  let ?tw = "tee_open E code (rw_Header ?u) (tw\<lparr>tw_wroteHeader := True, tw_status := code\<rparr>)"
  have l: "\<not> tw_deferredClient tw" "rw_like ?u v" "tw_leaderBuf tw = ''''" "rw_body v = ''''" "tw_ew tw = None"
    using assms(1) False by (auto simp: tee_like_def split: if_splits)
  show ?thesis
  proof (cases "tw_ew ?tw \<noteq> None \<and> tw_hasCL ?tw \<and> ca_decoupleFill (fe_c E) \<and> fe_contended E")
    case True
    then have "tw_metaHeader ?tw = sanitizeHeader (rw_Header ?u)"
      using tee_open_metaHeader [of "tw\<lparr>tw_wroteHeader := True, tw_status := code\<rparr>"] l(5) by simp
    moreover have "tee_WriteHeader server_writer E code tw = ?tw\<lparr>tw_deferredClient := True\<rparr>"
      using False True by (simp add: tee_WriteHeader_def server_writer_def)
    ultimately show ?thesis
      using l assms(2)
      by (auto simp: tee_like_def rw_like_def rw_WriteHeader_def informational_def split: option.split)
  next
    case no: False
    let ?u1 = "rw_WriteHeader code (rw_step (HSet ''X-Cache'' ''MISS'') ?u)"
    have eq: "tee_WriteHeader server_writer E code tw = ?tw\<lparr>tw_u := ?u1\<rparr>"
      unfolding tee_WriteHeader_def server_writer_def Let_def using False no by auto
    have "rw_like ?u1 (rw_WriteHeader code v)"
      using rw_like_step [of "rw_step (HSet ''X-Cache'' ''MISS'') ?u" v "WriteHeader code"] l(2) rw_like_tag by simp
    moreover have "rw_status ?u1 \<noteq> None" by (rule rw_header_kept(2) [OF assms(2)])
    ultimately show ?thesis unfolding eq using l by (simp add: tee_like_def)
  qed
qed

lemma tee_like_Write:
  assumes "tee_like n tw v" "int n = ca_maxFileSize (fe_c E)"
  shows "tee_like n (tee_Write server_writer E p tw) (rw_Write p v)"
proof -
  define tw1 where "tw1 = (if tw_wroteHeader tw then tw else tee_WriteHeader server_writer E 200 tw)"
  let ?v = "rw_WriteHeader 200 v"
  have st: "rw_status ?v \<noteq> None" "\<not> informational 200" by (auto simp: rw_WriteHeader_def informational_def)
  have w: "tw_wroteHeader (tee_WriteHeader server_writer E 200 tw)" by (simp add: tee_WriteHeader_def Let_def)
  note tee_like_wrote [OF assms(1)]
  then have l: "tee_like n tw1 ?v" "tw_wroteHeader tw1"
    using tee_like_WriteHeader [OF assms(1) st(2), of E] assms(1) w rw_header_kept(1) by (auto simp: tw1_def)
  have v: "rw_Write p v = ?v\<lparr>rw_body := rw_body ?v @ p\<rparr>" by (simp add: rw_Write_def Let_def)
  show ?thesis
  proof (cases "tw_deferredClient tw1")
    case True
    have eq: "tee_Write server_writer E p tw = tee_store E p (tee_buffer E p tw1)"
      unfolding tee_Write_def Let_def tw1_def [symmetric] using True by simp
    have "tw_leaderBuf tw1 = take n (rw_body ?v)" using l(1) True by (simp add: tee_like_def)
    note tee_buffer_take [OF assms(2) this]
    then have "tw_leaderBuf (tee_buffer E p tw1) = take n (rw_body ?v @ p)" .
    then show ?thesis unfolding eq v using True l
      by (simp add: tee_like_def tee_buffer_frame split: option.splits)
  next
    case False
    have eq: "tee_Write server_writer E p tw = tee_store E p (tw1\<lparr>tw_u := rw_Write p (tw_u tw1)\<rparr>)"
      unfolding tee_Write_def Let_def tw1_def [symmetric] using False by (simp add: server_writer_def)
    have "rw_like (rw_Write p (tw_u tw1)) (rw_Write p ?v)"
      using rw_like_step [of "tw_u tw1" ?v "Write p"] l(1) False by (simp add: tee_like_def)
    moreover have "rw_Write p ?v = rw_Write p v"
      using st(1) by (auto simp: rw_Write_def rw_header_kept(1))
    moreover have "rw_status (rw_Write p (tw_u tw1)) \<noteq> None"
      by (simp add: rw_Write_def Let_def rw_WriteHeader_def)
    ultimately show ?thesis
      unfolding eq using l False by (simp add: tee_like_def)
  qed
qed

lemma tee_like_step:
  assumes "tee_like n tw v" "int n = ca_maxFileSize (fe_c E)" "\<And>c. op = WriteHeader c \<Longrightarrow> \<not> informational c"
  shows "tee_like n (tee_step server_writer E op tw) (rw_step op v)"
proof (cases op rule: wop_kind)
  case header
  have "tw_deferredClient tw \<or> rw_like (rw_step op (tw_u tw)) (rw_step op v)"
    using assms(1) rw_like_step [of "tw_u tw" v op] by (cases "tw_deferredClient tw") (simp_all add: tee_like_def)
  then show ?thesis
    using assms(1) by (auto simp: tee_like_def server_writer_def only_header_steps [OF header] split: option.splits)
next
  case (WriteHeader c)
  then show ?thesis using tee_like_WriteHeader assms by simp
next
  case (Write p)
  then show ?thesis using tee_like_Write assms by simp
next
  case Flush
  show ?thesis
  proof (cases "tw_deferredClient tw")
    case True
    then have "rw_status v \<noteq> None" using assms(1) by (auto simp: tee_like_def split: option.splits)
    then show ?thesis using True Flush assms(1)
      by (auto simp: tee_like_def tee_Flush_def rw_Flush_def rw_header_kept(1) Let_def split: option.splits)
  next
    case False
    then have "rw_like (rw_Flush (tw_u tw)) (rw_Flush v)"
      using assms(1) rw_like_step [of "tw_u tw" v Flush] by (simp add: tee_like_def)
    moreover have "rw_status (rw_Flush (tw_u tw)) \<noteq> None" "rw_body (rw_Flush v) = rw_body v"
      by (simp_all add: rw_Flush_def rw_WriteHeader_def Let_def)
    ultimately show ?thesis using False Flush assms(1)
      by (simp add: tee_like_def tee_Flush_def server_writer_def)
  qed
qed

text \<open>A handler that sends no informational status and does not panic.\<close>

definition plain_ops :: "wop list \<Rightarrow> bool" where
  "plain_ops ops \<longleftrightarrow> list_all (\<lambda>op. \<not> is_Panic op \<and> (case op of WriteHeader c \<Rightarrow> \<not> informational c | _ \<Rightarrow> True)) ops"

lemma run_ops_plain: "list_all (\<lambda>op. \<not> is_Panic op) ops \<Longrightarrow> run_ops step ops w = (fold step ops w, False)"
  by (induction ops arbitrary: w) auto

lemma plain_no_panic: "plain_ops ops \<Longrightarrow> list_all (\<lambda>op. \<not> is_Panic op) ops"
  by (auto simp: plain_ops_def list_all_iff)

lemma tee_like_fold:
  assumes "int n = ca_maxFileSize (fe_c E)"
  shows "tee_like n tw v \<Longrightarrow> plain_ops ops \<Longrightarrow>
    tee_like n (fold (tee_step server_writer E) ops tw) (fold rw_step ops v)"
proof (induction ops arbitrary: tw v)
  case (Cons op ops)
  have "\<not> informational c" if "op = WriteHeader c" for c
    using Cons.prems(2) that by (simp add: plain_ops_def)
  then have "tee_like n (tee_step server_writer E op tw) (rw_step op v)" "plain_ops ops"
    using tee_like_step [OF Cons.prems(1) assms, of op] Cons.prems(2) by (auto simp: plain_ops_def)
  then show ?case using Cons.IH by simp
qed simp

lemma rw_body_payload: "rw_body (fold rw_step ops v) = rw_body v @ payload ops"
proof (induction ops arbitrary: v)
  case (Cons op ops)
  have "rw_body (rw_step op v) = rw_body v @ op_payload op"
    by (cases op rule: wop_kind)
      (simp_all add: only_header_steps rw_WriteHeader_def rw_Write_def rw_Flush_def Let_def)
  then show ?case by (simp add: Cons.IH payload_def)
qed (simp add: payload_def)

lemma status_not_204:
  "tw_status tw \<noteq> 204 \<Longrightarrow> WriteHeader 204 \<notin> set ops \<Longrightarrow> tw_status (fold (tee_step W E) ops tw) \<noteq> 204"
proof (induction ops arbitrary: tw)
  case (Cons op ops)
  have "tw_status (tee_step W E op tw) \<noteq> 204"
    using Cons.prems
    by (cases op rule: wop_kind)
      (auto simp: only_header_steps tee_WriteHeader_def tee_Write_def tee_Flush_def Let_def)
  then show ?case using Cons by simp
qed simp

lemma rw_status_not_204:
  "rw_status w \<noteq> Some 204 \<Longrightarrow> WriteHeader 204 \<notin> set ops \<Longrightarrow> rw_status (fold rw_step ops w) \<noteq> Some 204"
proof (induction ops arbitrary: w)
  case (Cons op ops)
  have "rw_status (rw_step op w) \<noteq> Some 204"
    using Cons.prems
    by (cases op rule: wop_kind)
      (auto simp: only_header_steps rw_WriteHeader_def rw_Write_def rw_Flush_def Let_def)
  then show ?case using Cons by simp
qed simp

definition end_to_end :: "Header \<Rightarrow> Header \<Rightarrow> bool" where
  "end_to_end h h' \<longleftrightarrow> (\<forall>k. k \<noteq> ''X-Cache'' \<and> CanonicalHeaderKey k \<notin> set hopByHop \<longrightarrow> h k = h' k)"

lemma serveLeader_like:
  assumes "tee_like n tw v" "tw_deferredClient tw" "length (rw_body v) \<le> n"
    and "hr_Method (fe_r E) = ''HEAD'' \<or> rw_status v = Some 204 \<or> tw_status tw = 204 \<longrightarrow> rw_body v = ''''"
  shows "rw_status (serveLeader server_writer E tw) = rw_status v"
    "rw_body (serveLeader server_writer E tw) = rw_body v"
    "end_to_end (rw_sent (serveLeader server_writer E tw)) (rw_sent v)"
proof -
  have b: "rw_body (tw_u tw) = ''''" "tw_leaderBuf tw = rw_body v"
    using assms(1-3) by (simp_all add: tee_like_def)
  have "rw_status (serveLeader server_writer E tw) = rw_status v \<and>
      rw_body (serveLeader server_writer E tw) = rw_body v \<and>
      end_to_end (rw_sent (serveLeader server_writer E tw)) (rw_sent v)"
  proof (cases "rw_status (tw_u tw)")
    case None
    then obtain h where "rw_status v = Some (tw_status tw)" "\<not> informational (tw_status tw)"
      "tw_metaHeader tw = sanitizeHeader h" "same_header h (rw_sent v)"
      using assms(1,2) by (auto simp: tee_like_def)
    then show ?thesis using None b assms(4)
      by (auto simp: serveLeader_def server_writer_def Let_def rw_Write_def rw_WriteHeader_def informational_def
          end_to_end_def same_header_def sanitizeHeader_def header_Set_def X_Cache_canonical)
  next
    case (Some c)
    then have "rw_status v = Some c" "same_header (rw_sent (tw_u tw)) (rw_sent v)"
      using assms(1,2) by (simp_all add: tee_like_def)
    then show ?thesis using Some b assms(4)
      by (auto simp: serveLeader_def server_writer_def Let_def rw_Write_def rw_WriteHeader_def
          end_to_end_def same_header_def)
  qed
  then show "rw_status (serveLeader server_writer E tw) = rw_status v"
    "rw_body (serveLeader server_writer E tw) = rw_body v"
    "end_to_end (rw_sent (serveLeader server_writer E tw)) (rw_sent v)" by blast+
qed

lemma same_header_end_to_end: "same_header h h' \<Longrightarrow> end_to_end h h'"
  by (simp add: same_header_def end_to_end_def)

section \<open>Properties of what the client sees\<close>



text \<open>An informational status is taken for the final one: a handler that sends 103 and then answers 404
  reaches the client of a fill as 200.\<close>

definition early_hints :: Handler where
  "early_hints r = [WriteHeader 103, WriteHeader 404, Write ''none'']"

theorem fill_informational_swallows_status:
  "rw_status (fst (run_ops rw_step (early_hints r) new_rw)) = Some 404 \<and>
   rw_status (fst (snd (fill0 early_hints False))) = Some 200 \<and>
   rw_body (fst (snd (fill0 early_hints False))) = ''none''"
proof -
  have "rw_status (fst (snd (fill0 early_hints False))) = Some 200 \<and>
      rw_body (fst (snd (fill0 early_hints False))) = ''none''"
    by code_simp
  then show ?thesis by (simp add: early_hints_def new_rw_def rw_WriteHeader_def rw_Write_def)
qed

text \<open>The tags of an entry are distinct, nonempty and bounded in number and length, whatever the origin sends.\<close>

lemma tags_loop_bounds:
  "distinct tags \<Longrightarrow> length tags < maxCacheTags \<Longrightarrow>
     list_all (\<lambda>t. t \<noteq> '''' \<and> length t \<le> maxCacheTagLen) tags \<Longrightarrow>
     distinct (tags_loop toks tags) \<and> length (tags_loop toks tags) \<le> maxCacheTags \<and>
     list_all (\<lambda>t. t \<noteq> '''' \<and> length t \<le> maxCacheTagLen) (tags_loop toks tags)"
proof (induction toks arbitrary: tags)
  case (Cons t toks)
  show ?case
  proof (cases "TrimSpace t = '''' \<or> maxCacheTagLen < length (TrimSpace t) \<or> TrimSpace t \<in> set tags")
    case True
    then have "tags_loop (t # toks) tags = tags_loop toks tags" by (auto simp: Let_def)
    then show ?thesis using Cons by simp
  next
    case False
    then have "distinct (tags @ [TrimSpace t])"
      "list_all (\<lambda>t. t \<noteq> '''' \<and> length t \<le> maxCacheTagLen) (tags @ [TrimSpace t])"
      using Cons.prems by simp_all
    then show ?thesis using Cons.IH [of "tags @ [TrimSpace t]"] Cons.prems(2) False by (auto simp: Let_def)
  qed
qed simp

lemma parseCacheTags_bounds:
  "distinct (parseCacheTags h) \<and> length (parseCacheTags h) \<le> maxCacheTags \<and>
     list_all (\<lambda>t. t \<noteq> '''' \<and> length t \<le> maxCacheTagLen) (parseCacheTags h)"
  unfolding parseCacheTags_def by (rule tags_loop_bounds) (simp_all add: maxCacheTags_def)

end
