(* ===== verification/Cache_Serve.thy ===== *)
theory Cache_Serve
  imports Cache_Fill
begin

text \<open>
  Serving through the cache (\<^verbatim>\<open>pkg/cache/stale.go\<close> and \<^verbatim>\<open>serve\<close>, \<^verbatim>\<open>tryServeHit\<close>, \<^verbatim>\<open>fillAndServe\<close> and
  \<^verbatim>\<open>writeStored\<close> of \<^verbatim>\<open>cache.go\<close>): the classification of a stored entry, hits, stale hits with a
  background refresh, the stale-if-error gate, and fills by leaders and followers.
\<close>

section \<open>Classification\<close>

datatype freshState = stateExpired | stateFresh | stateStaleRevalidate | stateStaleIfError

definition classify :: "Cache \<Rightarrow> Meta \<Rightarrow> HttpRequest \<Rightarrow> int \<Rightarrow> freshState" where
  "classify c m r now =
     (let fresh = me_FreshUntil m;
          gated = (\<lambda>state. case ca_invalidatedAfter c of
                     Some inval \<Rightarrow> if me_Created m \<le> inval r m then stateExpired else state
                   | None \<Rightarrow> state)
      in if now \<le> fresh then gated stateFresh
         else if 0 < me_StaleWhileRevalidate m \<and> now < fresh + me_StaleWhileRevalidate m
           then gated stateStaleRevalidate
         else if 0 < me_StaleIfError m \<and> now < fresh + me_StaleIfError m then gated stateStaleIfError
         else stateExpired)"

section \<open>Writing a stored entry\<close>

definition servedAgeSeconds :: "(string \<Rightarrow> int option) \<Rightarrow> Meta \<Rightarrow> int \<Rightarrow> int" where
  "servedAgeSeconds pt m now =
     (let age = s64 (responseAge pt (me_Header m) (me_Created m) + time_Sub now (me_Created m))
      in (if age < 0 then 0 else age) div Second)"

definition writeStored ::
  "'w writer \<Rightarrow> (string \<Rightarrow> int option) \<Rightarrow> HttpRequest \<Rightarrow> entry \<Rightarrow> string \<Rightarrow> int \<Rightarrow> 'w \<Rightarrow> 'w"
where
  "writeStored W pt r e tag now u =
     (case e of (m, body) \<Rightarrow>
        let bodiless = (hr_Method r = ''HEAD'' \<or> me_Status m = 204);
            u1 = wr_step W (HSet ''X-Cache'' tag)
                   (wr_step W (HSet ''Age'' (FormatInt (servedAgeSeconds pt m now)))
                     (wr_step W (HMerge (me_Header m)) u));
            u2 = (if header_Get (wr_Header W u1) ''Content-Length'' = '''' \<and> \<not> bodiless
                  then wr_step W (HSet ''Content-Length'' (FormatInt (int (length body)))) u1 else u1);
            u3 = wr_step W (WriteHeader (me_Status m)) u2
        in if bodiless then u3 else wr_step W (Write body) u3)"

section \<open>The stale-if-error gate\<close>

record 'w staleGate =
  sg_u :: 'w
  sg_decided :: bool
  sg_fellBack :: bool

definition gate_WriteHeader :: "'w writer \<Rightarrow> int \<Rightarrow> 'w staleGate \<Rightarrow> 'w staleGate" where
  "gate_WriteHeader W code g =
     (if sg_decided g then g
      else let g1 = g\<lparr>sg_decided := True\<rparr>
           in if 500 \<le> code then g1\<lparr>sg_fellBack := True\<rparr>
              else g1\<lparr>sg_u := wr_step W (WriteHeader code) (sg_u g1)\<rparr>)"

definition gate_Write :: "'w writer \<Rightarrow> string \<Rightarrow> 'w staleGate \<Rightarrow> 'w staleGate" where
  "gate_Write W p g =
     (let g1 = (if sg_decided g then g else gate_WriteHeader W 200 g)
      in if sg_fellBack g1 then g1 else g1\<lparr>sg_u := wr_step W (Write p) (sg_u g1)\<rparr>)"

definition gate_Flush :: "'w writer \<Rightarrow> 'w staleGate \<Rightarrow> 'w staleGate" where
  "gate_Flush W g = (if sg_fellBack g then g else g\<lparr>sg_u := wr_step W Flush (sg_u g)\<rparr>)"

fun gate_step :: "'w writer \<Rightarrow> wop \<Rightarrow> 'w staleGate \<Rightarrow> 'w staleGate" where
  "gate_step W (WriteHeader code) g = gate_WriteHeader W code g"
| "gate_step W (Write p) g = gate_Write W p g"
| "gate_step W Flush g = gate_Flush W g"
| "gate_step W op g = g\<lparr>sg_u := wr_step W op (sg_u g)\<rparr>"

definition gate_writer :: "'w writer \<Rightarrow> 'w staleGate writer" where
  "gate_writer W = \<lparr>wr_step = gate_step W, wr_Header = (\<lambda>g. wr_Header W (sg_u g))\<rparr>"

definition gate_finalize ::
  "'w writer \<Rightarrow> (string \<Rightarrow> int option) \<Rightarrow> HttpRequest \<Rightarrow> entry \<Rightarrow> int \<Rightarrow> 'w staleGate \<Rightarrow> 'w"
where
  "gate_finalize W pt r e now g =
     (if \<not> sg_fellBack g then sg_u g
      else writeStored W pt r e ''STALE'' now (wr_step W HClear (sg_u g)))"

text \<open>The client of a background refresh keeps the header map and drops the rest.\<close>

fun discard_step :: "wop \<Rightarrow> Header \<Rightarrow> Header" where
  "discard_step op h = header_op op h"

definition discard_writer :: "Header writer" where
  "discard_writer = \<lparr>wr_step = discard_step, wr_Header = (\<lambda>h. h)\<rparr>"

section \<open>Fill locks\<close>

text \<open>The state of the middleware and the keys with a fill in flight.\<close>

record 's cache_rt =
  rt_s :: "'s cache_state"
  rt_locks :: "string list"

definition acquire_lock :: "string \<Rightarrow> 's cache_rt \<Rightarrow> 's cache_rt \<times> bool" where
  "acquire_lock k ct = (if k \<in> set (rt_locks ct) then (ct, False) else (ct\<lparr>rt_locks := k # rt_locks ct\<rparr>, True))"

definition release_lock :: "string \<Rightarrow> 's cache_rt \<Rightarrow> 's cache_rt" where
  "release_lock k ct = ct\<lparr>rt_locks := removeAll k (rt_locks ct)\<rparr>"

section \<open>Serving\<close>

datatype Result = ResultHit | ResultMiss | ResultStale | ResultStaleError | ResultBypass

text \<open>
  What the middleware is given: its configuration, storage, hash, date parser and what learning a
  Vary drops when full; the readings of the clock (at the lookup, at the re-read of attempt \<open>i\<close>, when
  the header of a fill is written, when it is finished, and when a stored entry is written); whether
  the fill is contended; and what the other requests do to the state while attempt \<open>i\<close> waits.
\<close>

record 's serve_env =
  se_c :: Cache
  se_S :: "'s Storage"
  se_hash :: "string \<Rightarrow> string"
  se_pt :: "string \<Rightarrow> int option"
  se_learn :: "string \<Rightarrow> string list \<Rightarrow> primaryVary \<Rightarrow> primaryVary"
  se_lookup :: int
  se_reread :: "nat \<Rightarrow> int"
  se_decide :: int
  se_finish :: int
  se_served :: int
  se_contended :: bool
  se_others :: "nat \<Rightarrow> 's cache_rt \<Rightarrow> 's cache_rt"

definition variantHash :: "'s serve_env \<Rightarrow> string \<Rightarrow> HttpRequest \<Rightarrow> 's cache_rt \<Rightarrow> string" where
  "variantHash X primaryHex r ct =
     variantHashFor (se_hash X) primaryHex (getPrimaryVary (cs_vary (rt_s ct)) primaryHex) (hr_Header r)"

definition store_of :: "'s cache_rt \<Rightarrow> 's" where
  "store_of ct = cs_store (rt_s ct)"

definition set_store :: "'s \<Rightarrow> 's cache_rt \<Rightarrow> 's cache_rt" where
  "set_store st ct = ct\<lparr>rt_s := (rt_s ct)\<lparr>cs_store := st\<rparr>\<rparr>"

definition fill_envOf :: "'s serve_env \<Rightarrow> HttpRequest \<Rightarrow> string \<Rightarrow> bool \<Rightarrow> 's cache_rt \<Rightarrow> fill_env" where
  "fill_envOf X r primaryHex contended ct = \<lparr>
     fe_c = se_c X, fe_hash = se_hash X, fe_pt = se_pt X, fe_r = r, fe_primaryHex = primaryHex,
     fe_opens = so_Opens (se_S X) (store_of ct), fe_accepts = so_Accepts (se_S X) (store_of ct),
     fe_contended = contended, fe_now = se_decide X\<rparr>"

definition tryServeHit ::
  "'s serve_env \<Rightarrow> 'w writer \<Rightarrow> HttpRequest \<Rightarrow> string \<Rightarrow> int \<Rightarrow> 'w \<Rightarrow> 's cache_rt \<Rightarrow> 's cache_rt \<times> 'w \<times> bool"
where
  "tryServeHit X W r key now u ct =
     (case so_Get (se_S X) (store_of ct) key of
        (st, None) \<Rightarrow> (set_store st ct, u, False)
      | (st, Some (m, body)) \<Rightarrow>
          (case classify (se_c X) m r now of
             stateFresh \<Rightarrow> (set_store st ct, writeStored W (se_pt X) r (m, body) ''HIT'' (se_served X) u, True)
           | stateExpired \<Rightarrow> (set_store (so_Delete (se_S X) st key) ct, u, False)
           | _ \<Rightarrow> (set_store st ct, u, False)))"

text \<open>The leader's fill under its lock, and a follower's own uncached fetch.\<close>

definition lead ::
  "'s serve_env \<Rightarrow> 'w writer \<Rightarrow> HttpRequest \<Rightarrow> Handler \<Rightarrow> string \<Rightarrow> string \<Rightarrow> bool \<Rightarrow> 'w \<Rightarrow> 's cache_rt
     \<Rightarrow> 's cache_rt \<times> 'w \<times> bool"
where
  "lead X W r next primaryHex variantHex contended u ct =
     (case fill (se_S X) (se_learn X) W (fill_envOf X r primaryHex contended ct) (se_finish X) next u (rt_s ct) of
        (s', u', p) \<Rightarrow> (release_lock variantHex (ct\<lparr>rt_s := s'\<rparr>), u', p))"

definition own_fetch :: "'w writer \<Rightarrow> HttpRequest \<Rightarrow> Handler \<Rightarrow> 'w \<Rightarrow> 'w \<times> bool" where
  "own_fetch W r next u = run_ops (wr_step W) (next r) (wr_step W (HSet ''X-Cache'' ''MISS'') u)"

fun fill_attempts ::
  "nat \<Rightarrow> 's serve_env \<Rightarrow> 'w writer \<Rightarrow> HttpRequest \<Rightarrow> Handler \<Rightarrow> string \<Rightarrow> 'w \<Rightarrow> 's cache_rt
     \<Rightarrow> 's cache_rt \<times> 'w \<times> Result \<times> bool"
where
  "fill_attempts 0 X W r next primaryHex u ct =
     (case own_fetch W r next u of (u', p) \<Rightarrow> (ct, u', ResultMiss, p))"
| "fill_attempts (Suc k) X W r next primaryHex u ct =
     (let variantHex = variantHash X primaryHex r ct
      in case acquire_lock variantHex ct of
           (ct1, True) \<Rightarrow>
             (case lead X W r next primaryHex variantHex (se_contended X) u ct1 of
                (ct2, u', p) \<Rightarrow> (ct2, u', ResultMiss, p))
         | (ct1, False) \<Rightarrow>
             let ct2 = se_others X (Suc k) ct1
             in case tryServeHit X W r (variantHash X primaryHex r ct2) (se_reread X (Suc k)) u ct2 of
                  (ct3, u', True) \<Rightarrow> (ct3, u', ResultHit, False)
                | (ct3, u', False) \<Rightarrow>
                    if variantHash X primaryHex r ct3 = variantHex
                    then (case own_fetch W r next u' of (u'', p) \<Rightarrow> (ct3, u'', ResultMiss, p))
                    else fill_attempts k X W r next primaryHex u' ct3)"

definition fillAndServe ::
  "'s serve_env \<Rightarrow> 'w writer \<Rightarrow> HttpRequest \<Rightarrow> Handler \<Rightarrow> string \<Rightarrow> 'w \<Rightarrow> 's cache_rt
     \<Rightarrow> 's cache_rt \<times> 'w \<times> Result \<times> bool"
where
  "fillAndServe X W r next primaryHex u ct = fill_attempts 2 X W r next primaryHex u ct"

definition fillWithStale ::
  "'s serve_env \<Rightarrow> 'w writer \<Rightarrow> HttpRequest \<Rightarrow> Handler \<Rightarrow> string \<Rightarrow> entry \<Rightarrow> 'w \<Rightarrow> 's cache_rt
     \<Rightarrow> 's cache_rt \<times> 'w \<times> Result \<times> bool"
where
  "fillWithStale X W r next primaryHex e u ct =
     (case fillAndServe X (gate_writer W) r next primaryHex
             \<lparr>sg_u = u, sg_decided = False, sg_fellBack = False\<rparr> ct of
        (ct', g, res, True) \<Rightarrow> (ct', sg_u g, res, True)
      | (ct', g, res, False) \<Rightarrow>
          (ct', gate_finalize W (se_pt X) r e (se_served X) g,
           if sg_fellBack g then ResultStaleError else res, False))"

text \<open>
  \<^verbatim>\<open>revalidate\<close> starts a refresh unless a fill of the key is in flight; \<open>revalidate_run\<close> is the
  goroutine, which contains a panic of the handler and frees the lock.
\<close>

definition revalidate :: "'s serve_env \<Rightarrow> HttpRequest \<Rightarrow> string \<Rightarrow> 's cache_rt \<Rightarrow> 's cache_rt \<times> string option" where
  "revalidate X r primaryHex ct =
     (let variantHex = variantHash X primaryHex r ct
      in case acquire_lock variantHex ct of
           (ct1, False) \<Rightarrow> (ct1, None)
         | (ct1, True) \<Rightarrow> (ct1, Some variantHex))"

definition revalidate_run ::
  "'s serve_env \<Rightarrow> HttpRequest \<Rightarrow> Handler \<Rightarrow> string \<Rightarrow> string \<Rightarrow> 's cache_rt \<Rightarrow> 's cache_rt"
where
  "revalidate_run X r next primaryHex variantHex ct =
     fst (lead X discard_writer r next primaryHex variantHex False Map.empty ct)"

definition bypasses :: "Cache \<Rightarrow> HttpRequest \<Rightarrow> bool" where
  "bypasses c r \<longleftrightarrow> \<not> cacheableMethod (hr_Method r) \<or> isUpgrade r \<or>
     header_Get (hr_Header r) ''Range'' \<noteq> '''' \<or>
     (case ca_cacheable c of Some f \<Rightarrow> \<not> f r | None \<Rightarrow> False)"

text \<open>A request: the state, the client's writer, the result, whether the handler panicked, and the key of a
  refresh started.\<close>

definition cache_serve ::
  "'s serve_env \<Rightarrow> 'w writer \<Rightarrow> HttpRequest \<Rightarrow> Handler \<Rightarrow> 'w \<Rightarrow> 's cache_rt
     \<Rightarrow> ('s cache_rt \<times> 'w \<times> Result \<times> bool) \<times> string option"
where
  "cache_serve X W r next u ct =
     (if bypasses (se_c X) r
      then (case run_ops (wr_step W) (next r) u of (u', p) \<Rightarrow> ((ct, u', ResultBypass, p), None))
      else let primaryHex = primaryHash (se_hash X) r; key = variantHash X primaryHex r ct
           in case so_Get (se_S X) (store_of ct) key of
                (st, None) \<Rightarrow> (fillAndServe X W r next primaryHex u (set_store st ct), None)
              | (st, Some e) \<Rightarrow>
                  let ct1 = set_store st ct
                  in (case classify (se_c X) (fst e) r (se_lookup X) of
                        stateFresh \<Rightarrow>
                          ((ct1, writeStored W (se_pt X) r e ''HIT'' (se_served X) u, ResultHit, False), None)
                      | stateStaleRevalidate \<Rightarrow>
                          (case revalidate X r primaryHex ct1 of
                             (ct2, job) \<Rightarrow>
                               ((ct2, writeStored W (se_pt X) r e ''STALE'' (se_served X) u, ResultStale, False), job))
                      | stateStaleIfError \<Rightarrow> (fillWithStale X W r next primaryHex e u ct1, None)
                      | stateExpired \<Rightarrow>
                          (fillAndServe X W r next primaryHex u
                             (set_store (so_Delete (se_S X) st key) ct1), None)))"

section \<open>Facts\<close>

definition invalidated :: "Cache \<Rightarrow> HttpRequest \<Rightarrow> Meta \<Rightarrow> bool" where
  "invalidated c r m \<longleftrightarrow> (case ca_invalidatedAfter c of Some f \<Rightarrow> me_Created m \<le> f r m | None \<Rightarrow> False)"

lemma classify_fresh: "classify c m r now = stateFresh \<longleftrightarrow> now \<le> me_FreshUntil m \<and> \<not> invalidated c r m"
  by (auto simp: classify_def invalidated_def Let_def split: option.split)

text \<open>An entry is expired exactly from the instant the startup scan of the disk backend takes it for dead.\<close>

lemma classify_expired:
  "classify c m r now = stateExpired \<longleftrightarrow>
     invalidated c r m \<or> (me_FreshUntil m < now \<and> serveableUntil m \<le> now)"
  by (auto simp: classify_def invalidated_def serveableUntil_def Let_def split: option.split)

lemma acquire_cases:
  "acquire_lock k ct = (ct1, True) \<longleftrightarrow> k \<notin> set (rt_locks ct) \<and> ct1 = ct\<lparr>rt_locks := k # rt_locks ct\<rparr>"
  "acquire_lock k ct = (ct1, False) \<longleftrightarrow> k \<in> set (rt_locks ct) \<and> ct1 = ct"
  by (auto simp: acquire_lock_def)

text \<open>\<open>e\<close> is stored under a key of the request and may be served at \<open>t\<close>.\<close>

definition servable :: "'s serve_env \<Rightarrow> HttpRequest \<Rightarrow> entry \<Rightarrow> int \<Rightarrow> bool" where
  "servable X r e t \<longleftrightarrow>
     (\<exists>st names. snd (so_Get (se_S X) st (variantHashFor (se_hash X) (primaryHash (se_hash X) r) names (hr_Header r))) = Some e) \<and>
     \<not> invalidated (se_c X) r (fst e) \<and> (t \<le> me_FreshUntil (fst e) \<or> t < serveableUntil (fst e))"

lemma servableI:
  assumes "so_Get (se_S X) st (variantHash X (primaryHash (se_hash X) r) r ct) = (st', Some e)"
    and "classify (se_c X) (fst e) r t \<noteq> stateExpired"
  shows "servable X r e t"
proof -
  have "snd (so_Get (se_S X) st (variantHashFor (se_hash X) (primaryHash (se_hash X) r)
      (getPrimaryVary (cs_vary (rt_s ct)) (primaryHash (se_hash X) r)) (hr_Header r))) = Some e"
    using assms(1) by (simp add: variantHash_def)
  then show ?thesis using assms(2) [unfolded classify_expired] unfolding servable_def by fastforce
qed

lemma tryServeHit_cases:
  assumes "tryServeHit X W r (variantHash X (primaryHash (se_hash X) r) r ct0) now u ct = (ct', u', hit)"
  shows "(\<not> hit \<and> u' = u) \<or>
    (hit \<and> (\<exists>e. u' = writeStored W (se_pt X) r e ''HIT'' (se_served X) u \<and> servable X r e now \<and>
       now \<le> me_FreshUntil (fst e)))"
proof -
  let ?key = "variantHash X (primaryHash (se_hash X) r) r ct0"
  obtain st got where g: "so_Get (se_S X) (store_of ct) ?key = (st, got)" by fastforce
  show ?thesis
  proof (cases got)
    case None
    then show ?thesis using assms g by (simp add: tryServeHit_def)
  next
    case (Some e)
    obtain m body where e: "e = (m, body)" by fastforce
    show ?thesis
    proof (cases "classify (se_c X) m r now = stateFresh")
      case True
      then have "servable X r e now" "now \<le> me_FreshUntil m"
        using servableI [OF g [unfolded Some], of now] classify_fresh [of "se_c X" m r now] by (simp_all add: e)
      then show ?thesis using assms g Some e True by (auto simp: tryServeHit_def)
    next
      case False
      then show ?thesis using assms g Some e by (auto simp: tryServeHit_def split: freshState.splits)
    qed
  qed
qed

lemma fill_attempts_result:
  assumes "fill_attempts k X W r next (primaryHash (se_hash X) r) u ct = (ct', u', res, p)"
  shows "res = ResultMiss \<or>
    (res = ResultHit \<and> \<not> p \<and> (\<exists>e i. u' = writeStored W (se_pt X) r e ''HIT'' (se_served X) u \<and>
       servable X r e (se_reread X i) \<and> se_reread X i \<le> me_FreshUntil (fst e)))"
  using assms
proof (induction k arbitrary: ct)
  case 0
  then show ?case by (auto split: prod.splits)
next
  case (Suc k)
  let ?ph = "primaryHash (se_hash X) r"
  let ?vh = "variantHash X ?ph r ct"
  show ?case
  proof (cases "?vh \<in> set (rt_locks ct)")
    case False
    then show ?thesis using Suc.prems by (auto simp: acquire_lock_def Let_def split: prod.splits)
  next
    case True
    let ?ct2 = "se_others X (Suc k) ct"
    obtain ct3 u3 hit where t: "tryServeHit X W r (variantHash X ?ph r ?ct2) (se_reread X (Suc k)) u ?ct2 = (ct3, u3, hit)"
      by (metis prod.exhaust)
    note c = tryServeHit_cases [OF t]
    show ?thesis
    proof (cases hit)
      case h: True
      then have "(ct', u', res, p) = (ct3, u3, ResultHit, False)"
        using Suc.prems True t by (simp add: acquire_lock_def Let_def)
      then show ?thesis using c h by auto
    next
      case h: False
      then have u: "u3 = u" using c by blast
      show ?thesis
      proof (cases "variantHash X ?ph r ct3 = ?vh")
        case v: True
        then show ?thesis using Suc.prems True t h by (auto simp: acquire_lock_def Let_def split: prod.splits)
      next
        case v: False
        then have "fill_attempts k X W r next ?ph u ct3 = (ct', u', res, p)"
          using Suc.prems True t h u by (simp add: acquire_lock_def Let_def)
        then show ?thesis by (rule Suc.IH)
      qed
    qed
  qed
qed

text \<open>Written to an undecided gate, a stored entry either passes as it is or makes the gate fall back.\<close>

definition at_gate :: "'w \<Rightarrow> 'w staleGate" where
  "at_gate u = \<lparr>sg_u = u, sg_decided = False, sg_fellBack = False\<rparr>"

lemma at_gate_steps:
  "gate_step W (HSet k v) (at_gate u) = at_gate (wr_step W (HSet k v) u)"
  "gate_step W (HMerge h) (at_gate u) = at_gate (wr_step W (HMerge h) u)"
  "wr_Header (gate_writer W) (at_gate u) = wr_Header W u"
  "wr_step (gate_writer W) = gate_step W"
  by (simp_all add: at_gate_def gate_writer_def)

lemma at_gate_status:
  "gate_step W (WriteHeader code) (at_gate u) =
     (if 500 \<le> code then \<lparr>sg_u = u, sg_decided = True, sg_fellBack = True\<rparr>
      else \<lparr>sg_u = wr_step W (WriteHeader code) u, sg_decided = True, sg_fellBack = False\<rparr>)"
  "gate_step W (Write p) \<lparr>sg_u = u, sg_decided = True, sg_fellBack = f\<rparr> =
     \<lparr>sg_u = (if f then u else wr_step W (Write p) u), sg_decided = True, sg_fellBack = f\<rparr>"
  by (simp_all add: at_gate_def gate_WriteHeader_def gate_Write_def Let_def)

lemma gate_writeStored:
  "sg_fellBack (writeStored (gate_writer W) pt r e tag now (at_gate u)) \<longleftrightarrow> 500 \<le> me_Status (fst e)" (is ?A)
  "me_Status (fst e) < 500 \<Longrightarrow>
     sg_u (writeStored (gate_writer W) pt r e tag now (at_gate u)) = writeStored W pt r e tag now u" (is "_ \<Longrightarrow> ?B")
proof -
  obtain m body where e: "e = (m, body)" by fastforce
  define u1 where "u1 = wr_step W (HSet ''X-Cache'' tag)
    (wr_step W (HSet ''Age'' (FormatInt (servedAgeSeconds pt m now))) (wr_step W (HMerge (me_Header m)) u))"
  define bodiless where "bodiless \<longleftrightarrow> hr_Method r = ''HEAD'' \<or> me_Status m = 204"
  define u2 where "u2 = (if header_Get (wr_Header W u1) ''Content-Length'' = '''' \<and> \<not> bodiless
    then wr_step W (HSet ''Content-Length'' (FormatInt (int (length body)))) u1 else u1)"
  define u3 where "u3 = wr_step W (WriteHeader (me_Status m)) u2"
  have plain: "writeStored W pt r e tag now u = (if bodiless then u3 else wr_step W (Write body) u3)"
    unfolding writeStored_def e prod.case Let_def bodiless_def [symmetric] u1_def [symmetric] u2_def [symmetric]
      u3_def [symmetric] by (rule refl)
  have if_gate: "(if b then at_gate x else at_gate y) = at_gate (if b then x else y)" for b and x y :: 'a by simp
  have gated: "writeStored (gate_writer W) pt r e tag now (at_gate u) =
      (if bodiless then gate_step W (WriteHeader (me_Status m)) (at_gate u2)
       else gate_step W (Write body) (gate_step W (WriteHeader (me_Status m)) (at_gate u2)))"
    unfolding writeStored_def e prod.case Let_def bodiless_def [symmetric] at_gate_steps u1_def [symmetric]
      if_gate u2_def [symmetric] by (rule refl)
  show ?A unfolding gated by (simp add: e at_gate_status del: gate_step.simps)
  show ?B if "me_Status (fst e) < 500"
    unfolding gated plain using that by (simp add: e at_gate_status u3_def del: gate_step.simps)
qed

lemma fillWithStale_cases:
  assumes "fill_attempts 2 X (gate_writer W) r next primaryHex (at_gate u) ct = (ct1, g, res1, p1)"
  shows "fillWithStale X W r next primaryHex e u ct =
    (if p1 then (ct1, sg_u g, res1, True)
     else (ct1, gate_finalize W (se_pt X) r e (se_served X) g,
           if sg_fellBack g then ResultStaleError else res1, False))"
  unfolding fillWithStale_def fillAndServe_def assms [unfolded at_gate_def] by (cases p1) simp_all

lemma fillWithStale_result:
  assumes "fillWithStale X W r next (primaryHash (se_hash X) r) e u ct = (ct', u', res, p)"
  shows "res = ResultMiss \<or>
    (res = ResultHit \<and> (\<exists>e' i. u' = writeStored W (se_pt X) r e' ''HIT'' (se_served X) u \<and>
       servable X r e' (se_reread X i) \<and> se_reread X i \<le> me_FreshUntil (fst e'))) \<or>
    (res = ResultStaleError \<and> (\<exists>u0. u' = writeStored W (se_pt X) r e ''STALE'' (se_served X) (wr_step W HClear u0)))"
proof -
  obtain ct1 g res1 p1 where f:
    "fill_attempts 2 X (gate_writer W) r next (primaryHash (se_hash X) r) (at_gate u) ct = (ct1, g, res1, p1)"
    by (metis prod.exhaust)
  note c = fill_attempts_result [OF f]
  note w = assms [unfolded fillWithStale_cases [OF f]]
  consider "p1" | "\<not> p1" "sg_fellBack g" | "\<not> p1" "\<not> sg_fellBack g" by blast
  then show ?thesis
  proof cases
    case 1
    then show ?thesis using w c by auto
  next
    case 2
    then have "res = ResultStaleError" "u' = gate_finalize W (se_pt X) r e (se_served X) g" using w by simp_all
    then show ?thesis using 2 unfolding gate_finalize_def by (simp only: if_False simp_thms) blast
  next
    case 3
    then have res: "res = res1" "u' = sg_u g" using w by (simp_all add: gate_finalize_def)
    show ?thesis
    proof (cases "res1 = ResultMiss")
      case True
      then show ?thesis using res by simp
    next
      case False
      then obtain e' i where h: "res1 = ResultHit"
        "g = writeStored (gate_writer W) (se_pt X) r e' ''HIT'' (se_served X) (at_gate u)"
        "servable X r e' (se_reread X i)" "se_reread X i \<le> me_FreshUntil (fst e')"
        using c by blast
      have "me_Status (fst e') < 500"
        using 3(2) gate_writeStored(1) [of W "se_pt X" r e' "''HIT''" "se_served X" u] unfolding h(2) by linarith
      then have "u' = writeStored W (se_pt X) r e' ''HIT'' (se_served X) u"
        unfolding res h(2) by (rule gate_writeStored(2))
      then show ?thesis using res(1) h by blast
    qed
  qed
qed

text \<open>The response is an entry of the store that may be served, and a fresh one where the result says hit.\<close>

definition served_from ::
  "'s serve_env \<Rightarrow> 'w writer \<Rightarrow> HttpRequest \<Rightarrow> 'w \<Rightarrow> 'w \<Rightarrow> Result \<Rightarrow> entry \<Rightarrow> bool"
where
  "served_from X W r u u' res e \<longleftrightarrow>
     (\<exists>t tag u0. servable X r e t \<and> t \<in> insert (se_lookup X) (range (se_reread X)) \<and>
        u' = writeStored W (se_pt X) r e tag (se_served X) u0 \<and>
        (res = ResultHit \<longrightarrow> t \<le> me_FreshUntil (fst e) \<and> tag = ''HIT'') \<and>
        (res = ResultStale \<or> res = ResultStaleError \<longrightarrow> tag = ''STALE'') \<and>
        (res \<noteq> ResultStaleError \<longrightarrow> u0 = u))"

lemma served_hit:
  "servable X r e t \<Longrightarrow> t \<in> insert (se_lookup X) (range (se_reread X)) \<Longrightarrow> t \<le> me_FreshUntil (fst e) \<Longrightarrow>
     u' = writeStored W (se_pt X) r e ''HIT'' (se_served X) u \<Longrightarrow> served_from X W r u u' ResultHit e"
  unfolding served_from_def by blast

lemma served_stale:
  "servable X r e t \<Longrightarrow> t \<in> insert (se_lookup X) (range (se_reread X)) \<Longrightarrow>
     u' = writeStored W (se_pt X) r e ''STALE'' (se_served X) u \<Longrightarrow> served_from X W r u u' ResultStale e"
  "servable X r e t \<Longrightarrow> t \<in> insert (se_lookup X) (range (se_reread X)) \<Longrightarrow>
     u' = writeStored W (se_pt X) r e ''STALE'' (se_served X) u0 \<Longrightarrow> served_from X W r u u' ResultStaleError e"
  unfolding served_from_def by blast+

lemma fillAndServe_served:
  assumes "fillAndServe X W r next (primaryHash (se_hash X) r) u ct = (ct', u', res, p)" "res \<noteq> ResultMiss"
  shows "\<exists>e. served_from X W r u u' res e"
proof -
  from fill_attempts_result [OF assms(1) [unfolded fillAndServe_def]] assms(2)
  obtain e i where "res = ResultHit" "u' = writeStored W (se_pt X) r e ''HIT'' (se_served X) u"
    "servable X r e (se_reread X i)" "se_reread X i \<le> me_FreshUntil (fst e)"
    by blast
  then show ?thesis using served_hit [of X r e "se_reread X i" u' W u] by blast
qed

lemma fillWithStale_served:
  assumes "fillWithStale X W r next (primaryHash (se_hash X) r) e u ct = (ct', u', res, p)" "res \<noteq> ResultMiss"
    and "servable X r e (se_lookup X)"
  shows "\<exists>e. served_from X W r u u' res e"
proof -
  consider (hit) e' i where "res = ResultHit" "u' = writeStored W (se_pt X) r e' ''HIT'' (se_served X) u"
      "servable X r e' (se_reread X i)" "se_reread X i \<le> me_FreshUntil (fst e')"
    | (stale) u0 where "res = ResultStaleError"
      "u' = writeStored W (se_pt X) r e ''STALE'' (se_served X) (wr_step W HClear u0)"
    using fillWithStale_result [OF assms(1)] assms(2) by (elim disjE conjE exE) simp_all
  then show ?thesis
  proof cases
    case hit
    then have "served_from X W r u u' ResultHit e'" using served_hit [of X r e' "se_reread X i" u' W u] by blast
    then show ?thesis using hit(1) by blast
  next
    case stale
    have "served_from X W r u u' ResultStaleError e"
      by (rule served_stale(2) [OF assms(3) _ stale(2)]) simp
    then show ?thesis using stale(1) by blast
  qed
qed

text \<open>The branches of \<^verbatim>\<open>serve\<close>.\<close>

lemma cache_serve_bypass:
  "bypasses (se_c X) r \<Longrightarrow>
     cache_serve X W r next u ct =
       (case run_ops (wr_step W) (next r) u of (u', p) \<Rightarrow> ((ct, u', ResultBypass, p), None))"
  unfolding cache_serve_def by (simp only: if_True)

lemma cache_serve_absent:
  assumes "\<not> bypasses (se_c X) r" "ph = primaryHash (se_hash X) r"
    and "so_Get (se_S X) (store_of ct) (variantHash X ph r ct) = (st, None)"
  shows "cache_serve X W r next u ct = (fillAndServe X W r next ph u (set_store st ct), None)"
  unfolding cache_serve_def Let_def using assms by simp

lemma cache_serve_present:
  assumes "\<not> bypasses (se_c X) r" "ph = primaryHash (se_hash X) r"
    and "so_Get (se_S X) (store_of ct) (variantHash X ph r ct) = (st, Some e)"
  shows "classify (se_c X) (fst e) r (se_lookup X) = stateFresh \<Longrightarrow>
      cache_serve X W r next u ct =
        ((set_store st ct, writeStored W (se_pt X) r e ''HIT'' (se_served X) u, ResultHit, False), None)"
    "classify (se_c X) (fst e) r (se_lookup X) = stateStaleRevalidate \<Longrightarrow>
      cache_serve X W r next u ct =
        ((fst (revalidate X r ph (set_store st ct)), writeStored W (se_pt X) r e ''STALE'' (se_served X) u,
          ResultStale, False), snd (revalidate X r ph (set_store st ct)))"
    "classify (se_c X) (fst e) r (se_lookup X) = stateStaleIfError \<Longrightarrow>
      cache_serve X W r next u ct = (fillWithStale X W r next ph e u (set_store st ct), None)"
    "classify (se_c X) (fst e) r (se_lookup X) = stateExpired \<Longrightarrow>
      cache_serve X W r next u ct =
        (fillAndServe X W r next ph u
           (set_store (so_Delete (se_S X) st (variantHash X ph r ct)) (set_store st ct)), None)"
  unfolding cache_serve_def Let_def using assms by (simp_all split: prod.split)

lemma cache_serve_result:
  assumes "cache_serve X W r next u ct = ((ct', u', res, p), job)" "res \<noteq> ResultMiss" "res \<noteq> ResultBypass"
  shows "\<exists>e. served_from X W r u u' res e"
proof -
  define ph where "ph = primaryHash (se_hash X) r"
  obtain st got where g: "so_Get (se_S X) (store_of ct) (variantHash X ph r ct) = (st, got)" by fastforce
  have nb: "\<not> bypasses (se_c X) r"
    using assms(1,3) cache_serve_bypass [of X r W "next" u ct] by (auto split: prod.splits)
  show ?thesis
  proof (cases got)
    case None
    have "fillAndServe X W r next ph u (set_store st ct) = (ct', u', res, p)"
      using assms(1) cache_serve_absent [OF nb ph_def g [unfolded None]] by (metis prod.inject)
    then show ?thesis unfolding ph_def by (rule fillAndServe_served [OF _ assms(2)])
  next
    case (Some e)
    note b = cache_serve_present [OF nb ph_def g [unfolded Some], of W "next" u]
    note s = servableI [OF g [unfolded Some ph_def], of "se_lookup X"]
    show ?thesis
    proof (cases "classify (se_c X) (fst e) r (se_lookup X)")
      case stateExpired
      have "fillAndServe X W r next ph u (set_store (so_Delete (se_S X) st (variantHash X ph r ct)) (set_store st ct)) =
          (ct', u', res, p)"
        using assms(1) b(4) [OF stateExpired] by (metis prod.inject)
      then show ?thesis unfolding ph_def by (rule fillAndServe_served [OF _ assms(2)])
    next
      case stateFresh
      have "res = ResultHit" "u' = writeStored W (se_pt X) r e ''HIT'' (se_served X) u"
        using assms(1) b(1) [OF stateFresh] by simp_all
      moreover have "se_lookup X \<le> me_FreshUntil (fst e)" "servable X r e (se_lookup X)"
        using s stateFresh classify_fresh [of "se_c X" "fst e" r "se_lookup X"] by simp_all
      ultimately show ?thesis using served_hit [of X r e "se_lookup X" u' W u] by blast
    next
      case stateStaleRevalidate
      have "res = ResultStale" "u' = writeStored W (se_pt X) r e ''STALE'' (se_served X) u"
        using assms(1) b(2) [OF stateStaleRevalidate] by simp_all
      moreover have "servable X r e (se_lookup X)" using s stateStaleRevalidate by simp
      ultimately show ?thesis using served_stale(1) [of X r e "se_lookup X" u' W u] by blast
    next
      case stateStaleIfError
      have "fillWithStale X W r next ph e u (set_store st ct) = (ct', u', res, p)"
        using assms(1) b(3) [OF stateStaleIfError] by (metis prod.inject)
      then show ?thesis unfolding ph_def
        by (rule fillWithStale_served [OF _ assms(2)]) (use s stateStaleIfError in simp)
    qed
  qed
qed

section \<open>Stale if error\<close>

text \<open>A gate that fell back, over a server writer to which nothing was sent.\<close>

definition unsent_gate :: "bool \<Rightarrow> ResponseWriter staleGate \<Rightarrow> bool" where
  "unsent_gate d g \<longleftrightarrow> (\<exists>h. sg_u g = new_rw\<lparr>rw_Header := h\<rparr>) \<and> sg_decided g = d \<and> sg_fellBack g = d"

lemma server_clear: "unsent_gate d g \<Longrightarrow> wr_step server_writer HClear (sg_u g) = new_rw"
  by (auto simp: unsent_gate_def server_writer_def new_rw_def)

lemma gate_header_op:
  assumes "only_header op"
  shows "gate_step W op g = g\<lparr>sg_u := wr_step W op (sg_u g)\<rparr>"
  using assms by (cases op) (simp_all add: only_header_def)

lemma unsent_header: "only_header op \<Longrightarrow> unsent_gate d g \<Longrightarrow> unsent_gate d (gate_step server_writer op g)"
  by (auto simp: gate_header_op unsent_gate_def server_writer_def only_header_steps(1) new_rw_def)

lemma unsent_error:
  "unsent_gate False g \<Longrightarrow> 500 \<le> code \<Longrightarrow> unsent_gate True (gate_WriteHeader server_writer code g)"
  by (simp add: unsent_gate_def gate_WriteHeader_def)

lemma unsent_fell: "unsent_gate True g \<Longrightarrow> unsent_gate True (gate_step server_writer op g)"
  by (cases op rule: wop_kind)
    (simp_all add: unsent_header, simp_all add: unsent_gate_def gate_WriteHeader_def gate_Write_def gate_Flush_def)

lemma error_not_cacheable:
  assumes "500 \<le> code"
  shows "\<not> de_cacheable (tee_decide E code h)"
proof
  assume "de_cacheable (tee_decide E code h)"
  from tee_decide_cacheable(1) [OF this] have "cacheableStatus code"
    by (auto simp: storeRefusals_def split: if_splits)
  then show False using assms by (auto simp: cacheableStatus_def)
qed

text \<open>The tee over the gate: before the error status and after it.\<close>

definition err_tee :: "bool \<Rightarrow> ResponseWriter staleGate teeWriter \<Rightarrow> bool" where
  "err_tee d tw \<longleftrightarrow> unsent_gate d (tw_u tw) \<and> tw_wroteHeader tw = d \<and> tw_ew tw = None \<and> \<not> tw_deferredClient tw"

lemma err_tee_header:
  "only_header op \<Longrightarrow> err_tee d tw \<Longrightarrow> err_tee d (tee_step (gate_writer server_writer) E op tw)"
  by (simp add: err_tee_def only_header_steps(2) at_gate_steps(4) unsent_header)

lemma err_tee_status:
  assumes "err_tee False tw" "500 \<le> code"
  shows "err_tee True (tee_step (gate_writer server_writer) E (WriteHeader code) tw)"
proof -
  have no: "tee_open E code h t = t" for h and t :: "ResponseWriter staleGate teeWriter"
    using error_not_cacheable [OF assms(2)] by (simp add: tee_open_def)
  have "only_header (HSet ''X-Cache'' ''MISS'')" by (simp add: only_header_def)
  then have "unsent_gate False (gate_step server_writer (HSet ''X-Cache'' ''MISS'') (tw_u tw))"
    using assms(1) unsent_header unfolding err_tee_def by blast
  from unsent_error [OF this assms(2)] show ?thesis
    using assms(1) by (simp add: err_tee_def tee_WriteHeader_def no at_gate_steps(4) Let_def)
qed

lemma err_tee_fell:
  assumes "err_tee True tw"
  shows "err_tee True (tee_step (gate_writer server_writer) E op tw)"
  using assms unsent_fell [of "tw_u tw"]
proof (cases op rule: wop_kind)
  case header
  then show ?thesis using assms err_tee_header by blast
next
  case (Write p)
  then show ?thesis
    using assms unsent_fell [of "tw_u tw" "Write p"]
    by (simp add: err_tee_def tee_Write_def tee_store_def at_gate_steps(4))
next
  case Flush
  then show ?thesis
    using assms unsent_fell [of "tw_u tw" Flush] by (simp add: err_tee_def tee_Flush_def at_gate_steps(4))
qed (simp add: err_tee_def tee_WriteHeader_def)

lemma err_tee_fold:
  assumes "list_all only_header pre" "500 \<le> code"
  shows "err_tee False tw \<Longrightarrow>
    err_tee True (fold (tee_step (gate_writer server_writer) E) (pre @ WriteHeader code # rest) tw)"
proof -
  have pre: "err_tee False tw \<Longrightarrow> err_tee False (fold (tee_step (gate_writer server_writer) E) pre tw)" for tw
    using assms(1) by (induction pre arbitrary: tw) (simp_all add: err_tee_header)
  have post: "err_tee True tw \<Longrightarrow> err_tee True (fold (tee_step (gate_writer server_writer) E) rest tw)" for tw
    by (induction rest arbitrary: tw) (simp_all add: err_tee_fell)
  show "err_tee False tw \<Longrightarrow> ?thesis" using pre post err_tee_status [OF _ assms(2)] by simp
qed

lemma lead_error:
  assumes "ops = pre @ WriteHeader code # rest" "handler r = ops" "list_all only_header pre" "500 \<le> code"
    and "list_all (\<lambda>op. \<not> is_Panic op) ops" "variantHex \<notin> set (rt_locks ct)"
  shows "\<exists>g. lead X (gate_writer server_writer) r handler primaryHex variantHex contended (at_gate new_rw)
      (ct\<lparr>rt_locks := variantHex # rt_locks ct\<rparr>) = (ct, g, False) \<and> unsent_gate True g"
proof -
  let ?ct = "ct\<lparr>rt_locks := variantHex # rt_locks ct\<rparr>"
  let ?E = "fill_envOf X r primaryHex contended ?ct"
  define tw where "tw = fold (tee_step (gate_writer server_writer) ?E) ops (new_tee (at_gate new_rw))"
  have r: "fe_r ?E = r" by (simp add: fill_envOf_def)
  have "err_tee False (new_tee (at_gate new_rw))"
    by (auto simp: err_tee_def new_tee_def unsent_gate_def at_gate_def new_rw_def)
  from err_tee_fold [OF assms(3,4) this, of ?E rest] have tw: "err_tee True tw" by (simp add: tw_def assms(1))
  have "run_ops (tee_step (gate_writer server_writer) ?E) (handler r) (new_tee (at_gate new_rw)) = (tw, False)"
    unfolding tw_def assms(2) by (rule run_ops_plain [OF assms(5)])
  then have "fill (se_S X) (se_learn X) (gate_writer server_writer) ?E (se_finish X) handler (at_gate new_rw) (rt_s ?ct) =
      (rt_s ct, tw_u tw, False)"
    using tw by (simp add: fill_cases r tee_finish_def err_tee_def)
  moreover have "release_lock variantHex (?ct\<lparr>rt_s := rt_s ct\<rparr>) = ct"
    using assms(6) by (simp add: release_lock_def)
  ultimately have "lead X (gate_writer server_writer) r handler primaryHex variantHex contended (at_gate new_rw) ?ct =
      (ct, tw_u tw, False)"
    by (simp add: lead_def)
  then show ?thesis using tw by (auto simp: err_tee_def)
qed

lemma fill_attempts_lead:
  assumes "variantHash X primaryHex r ct \<notin> set (rt_locks ct)"
  shows "fill_attempts (Suc k) X W r next primaryHex u ct =
    (case lead X W r next primaryHex (variantHash X primaryHex r ct) (se_contended X) u
            (ct\<lparr>rt_locks := variantHash X primaryHex r ct # rt_locks ct\<rparr>) of
       (ct2, u', p) \<Rightarrow> (ct2, u', ResultMiss, p))"
  using assms by (simp add: acquire_lock_def Let_def)

lemma variantHash_set_store [simp]: "variantHash X ph r (set_store st ct) = variantHash X ph r ct"
  by (simp add: variantHash_def set_store_def)

lemma set_store_locks [simp]: "rt_locks (set_store st ct) = rt_locks ct"
  by (simp add: set_store_def)

section \<open>Properties\<close>

text \<open>A middleware over a map, with the given invalidation hook, looking up at the given time; and a state with
  one entry for \<^verbatim>\<open>/a\<close>.\<close>

definition serve_env0 :: "(HttpRequest \<Rightarrow> Meta \<Rightarrow> int) option \<Rightarrow> int \<Rightarrow> ((string \<times> entry) list) serve_env" where
  "serve_env0 inval t = \<lparr>se_c = (fe_c (fill_env0 False))\<lparr>ca_invalidatedAfter := inval\<rparr>, se_S = alist_storage,
     se_hash = id, se_pt = (\<lambda>_. None), se_learn = setPrimaryVary 10 '''', se_lookup = t, se_reread = (\<lambda>_. t),
     se_decide = t, se_finish = t, se_served = t, se_contended = False, se_others = (\<lambda>_. id)\<rparr>"

definition req_a :: HttpRequest where
  "req_a = purge_request ''h'' ''/a''"

definition entry_a :: entry where
  "entry_a = ((plain_meta 3)\<lparr>me_Created := 100, me_FreshUntil := 200, me_StaleIfError := 50\<rparr>, ''abc'')"

definition rt_a :: "((string \<times> entry) list) cache_rt" where
  "rt_a = \<lparr>rt_s = \<lparr>cs_store = [(variantHashFor id (primaryHash id req_a) [] Map.empty, entry_a)], cs_vary = []\<rparr>,
     rt_locks = []\<rparr>"

definition rt_0 :: "((string \<times> entry) list) cache_rt" where
  "rt_0 = \<lparr>rt_s = \<lparr>cs_store = [], cs_vary = []\<rparr>, rt_locks = []\<rparr>"





lemma insert_string_least: "list_all (string_le s) ts \<Longrightarrow> insert_string s ts = s # ts"
  by (cases ts) simp_all

lemma sort_Strings_id: "sorted_wrt string_le ss \<Longrightarrow> sort_Strings ss = ss"
proof (induction ss)
  case (Cons s ss)
  then have "sort_Strings ss = ss" "list_all (string_le s) ss" by (simp_all add: list_all_iff)
  then show ?case using insert_string_least [of s ss] by (simp add: sort_Strings_def)
qed (simp add: sort_Strings_def)

lemma vary_learned: "getPrimaryVary (setPrimaryVary mx victim k names pv) k = sort_Strings names"
  by (simp add: getPrimaryVary_def setPrimaryVary_def get_list_update)

lemma vary_input_cong: "\<forall>n \<in> set names. header_Get h n = header_Get h' n \<Longrightarrow> vary_input names h = vary_input names h'"
  by (induction names) simp_all

lemma sound_entry_key:
  assumes "sound_entry E pl k e"
  shows "k = variantHashFor (fe_hash E) (fe_primaryHex E) (me_Vary (fst e)) (hr_Header (fe_r E))"
    "sort_Strings (me_Vary (fst e)) = me_Vary (fst e)"
  using assms sort_Strings_id [OF sort_Strings_sorted] by (cases e; simp add: sound_entry_def)+

text \<open>A backend in which a commit that succeeds is visible and one that fails changes nothing.\<close>

definition commit_visible :: "'s Storage \<Rightarrow> bool" where
  "commit_visible S \<longleftrightarrow> (\<forall>st k e. case so_Commit S st k e of
     (st', ok) \<Rightarrow> if ok then snd (so_Get S st' k) = Some e else st' = st)"

lemma commit_visibleD:
  assumes "commit_visible S" "so_Commit S st k e = (st', ok)"
  shows "ok \<Longrightarrow> snd (so_Get S st' k) = Some e" "\<not> ok \<Longrightarrow> st' = st"
proof -
  have "case so_Commit S st k e of (st', ok) \<Rightarrow> if ok then snd (so_Get S st' k) = Some e else st' = st"
    by (rule assms(1) [unfolded commit_visible_def, rule_format])
  then show "ok \<Longrightarrow> snd (so_Get S st' k) = Some e" "\<not> ok \<Longrightarrow> st' = st"
    unfolding assms(2) by simp_all
qed

lemma miss_leads:
  assumes "\<not> bypasses (se_c X) r" "ph = primaryHash (se_hash X) r" "key = variantHash X ph r ct"
    and "so_Get (se_S X) (store_of ct) key = (st, None)" "key \<notin> set (rt_locks ct)"
    and "cache_serve X W r next u ct = ((ct1, u1, res, p), job)"
  shows "\<exists>E. fe_r E = r \<and> fe_c E = se_c X \<and> fe_primaryHex E = ph \<and> fe_hash E = se_hash X \<and> fe_now E = se_decide X \<and>
    fill (se_S X) (se_learn X) W E (se_finish X) next u (rt_s (set_store st ct)) = (rt_s ct1, u1, p)"
proof -
  let ?ct = "set_store st ct"
  let ?ct' = "?ct\<lparr>rt_locks := key # rt_locks ?ct\<rparr>"
  let ?E = "fill_envOf X r ph (se_contended X) ?ct'"
  obtain s' u' p' where f: "fill (se_S X) (se_learn X) W ?E (se_finish X) next u (rt_s ?ct') = (s', u', p')"
    by (metis prod.exhaust)
  have nl: "variantHash X ph r ?ct \<notin> set (rt_locks ?ct)" using assms(3,5) by simp
  have "fill_attempts (Suc 1) X W r next ph u ?ct = (release_lock key (?ct'\<lparr>rt_s := s'\<rparr>), u', ResultMiss, p')"
    unfolding fill_attempts_lead [OF nl] lead_def variantHash_set_store assms(3) [symmetric] f prod.case by (rule refl)
  moreover have "fill_attempts (Suc 1) X W r next ph u ?ct = (ct1, u1, res, p)"
    using assms(6) unfolding cache_serve_absent [OF assms(1,2) assms(4) [unfolded assms(3)]]
    by (simp only: fillAndServe_def numeral_2_eq_2 One_nat_def prod.inject)
  ultimately have "rt_s ct1 = s'" "u1 = u'" "p = p'" by (auto simp: release_lock_def)
  then show ?thesis using f by (intro exI [of _ ?E]) (simp add: fill_envOf_def)
qed

lemma stored_hit:
  assumes "rt_s ct = \<lparr>cs_store = st, cs_vary = pv\<rparr>" "getPrimaryVary pv ph = me_Vary (fst e)"
    and "snd (so_Get (se_S X) st (variantHashFor (se_hash X) ph (me_Vary (fst e)) (hr_Header r))) = Some e"
    and "\<not> bypasses (se_c X) r2" "primaryHash (se_hash X) r2 = ph"
    and "\<forall>n \<in> set (me_Vary (fst e)). header_Get (hr_Header r2) n = header_Get (hr_Header r) n"
    and "t \<le> me_FreshUntil (fst e)" "\<not> invalidated (se_c X) r2 (fst e)"
  shows "snd (fst (cache_serve (X\<lparr>se_lookup := t\<rparr>) W r2 next2 u2 ct)) =
    (writeStored W (se_pt X) r2 e ''HIT'' (se_served X) u2, ResultHit, False)"
proof -
  have "variantHash (X\<lparr>se_lookup := t\<rparr>) ph r2 ct = variantHashFor (se_hash X) ph (me_Vary (fst e)) (hr_Header r)"
    using vary_input_cong [OF assms(6)] by (simp add: variantHash_def assms(1,2) variantHashFor_def variant_input_def)
  moreover obtain st3 where
    "so_Get (se_S X) st (variantHashFor (se_hash X) ph (me_Vary (fst e)) (hr_Header r)) = (st3, Some e)"
    using assms(3) by (metis prod.collapse)
  ultimately show ?thesis
    using cache_serve_present(1) [of "X\<lparr>se_lookup := t\<rparr>" r2 ph ct st3 e W next2 u2] assms(4,5,7,8)
    by (simp add: store_of_def assms(1) classify_fresh)
qed



end
