(* ===== verification/Cache_Flight.thy ===== *)
theory Cache_Flight
  imports Parapet_Prelude
begin

text \<open>
  The single flight of cache fills under interleaving (\<^verbatim>\<open>acquire\<close>, \<^verbatim>\<open>release\<close> and the waiting of
  \<^verbatim>\<open>fillAndServe\<close> in \<^verbatim>\<open>pkg/cache/cache.go\<close>): requests that miss, cut at the mutex and at the channel
  operations, in any order. A second close of a channel panics.
\<close>

section \<open>Requests and steps\<close>

text \<open>
  Where a request is: before \<^verbatim>\<open>acquire\<close>, filling as the leader of a lock, between removing the lock
  from the map and closing its channel, waiting on the channel, or past the wait.
\<close>

datatype flight_pc = Arriving | Leading nat | Closing nat | Waiting nat | Past

record flight =
  fl_locks :: "string \<rightharpoonup> nat"
  fl_closed :: "nat list"
  fl_fresh :: nat
  fl_key :: "nat \<Rightarrow> string"
  fl_pc :: "nat \<Rightarrow> flight_pc"

text \<open>Requests are numbered; request \<open>i\<close> asks for \<open>keys i\<close>.\<close>

definition flight_New :: "(nat \<Rightarrow> string) \<Rightarrow> flight" where
  "flight_New keys = \<lparr>fl_locks = Map.empty, fl_closed = [], fl_fresh = 0, fl_key = keys, fl_pc = (\<lambda>_. Arriving)\<rparr>"

definition flight_acquire :: "flight \<Rightarrow> nat \<Rightarrow> flight" where
  "flight_acquire s i =
     (case fl_locks s (fl_key s i) of
        Some l \<Rightarrow> s\<lparr>fl_pc := (fl_pc s)(i := Waiting l)\<rparr>
      | None \<Rightarrow> s\<lparr>fl_locks := (fl_locks s)(fl_key s i \<mapsto> fl_fresh s), fl_fresh := fl_fresh s + 1,
                  fl_pc := (fl_pc s)(i := Leading (fl_fresh s))\<rparr>)"

definition flight_unlock :: "flight \<Rightarrow> nat \<Rightarrow> nat \<Rightarrow> flight" where
  "flight_unlock s i l = s\<lparr>fl_locks := (fl_locks s)(fl_key s i := None), fl_pc := (fl_pc s)(i := Closing l)\<rparr>"

definition flight_close :: "flight \<Rightarrow> nat \<Rightarrow> nat \<Rightarrow> flight option" where
  "flight_close s i l =
     (if l \<in> set (fl_closed s) then None
      else Some (s\<lparr>fl_closed := l # fl_closed s, fl_pc := (fl_pc s)(i := Past)\<rparr>))"

text \<open>
  The next step of request \<open>i\<close>: a waiting one goes on when its channel is closed, or at its timeout.
  \<open>None\<close> is the panic.
\<close>

definition flight_step :: "nat \<Rightarrow> bool \<Rightarrow> flight \<Rightarrow> flight option" where
  "flight_step i timeout s =
     (case fl_pc s i of
        Arriving \<Rightarrow> Some (flight_acquire s i)
      | Leading l \<Rightarrow> Some (flight_unlock s i l)
      | Closing l \<Rightarrow> flight_close s i l
      | Waiting l \<Rightarrow> Some (if timeout \<or> l \<in> set (fl_closed s) then s\<lparr>fl_pc := (fl_pc s)(i := Past)\<rparr> else s)
      | Past \<Rightarrow> Some s)"

fun flight_run :: "(nat \<times> bool) list \<Rightarrow> flight \<Rightarrow> flight option" where
  "flight_run [] s = Some s"
| "flight_run ((i, t) # sched) s =
     (case flight_step i t s of None \<Rightarrow> None | Some s' \<Rightarrow> flight_run sched s')"

section \<open>The invariant\<close>

fun owned :: "flight_pc \<Rightarrow> nat option" where
  "owned (Leading l) = Some l"
| "owned (Closing l) = Some l"
| "owned _ = None"

definition owners_distinct :: "flight \<Rightarrow> bool" where
  "owners_distinct s \<longleftrightarrow>
     (\<forall>i j l. owned (fl_pc s i) = Some l \<longrightarrow> owned (fl_pc s j) = Some l \<longrightarrow> i = j)"

definition owners_open :: "flight \<Rightarrow> bool" where
  "owners_open s \<longleftrightarrow> (\<forall>i l. owned (fl_pc s i) = Some l \<longrightarrow> l < fl_fresh s \<and> l \<notin> set (fl_closed s))"

definition leaders_locked :: "flight \<Rightarrow> bool" where
  "leaders_locked s \<longleftrightarrow> (\<forall>i l. fl_pc s i = Leading l \<longrightarrow> fl_locks s (fl_key s i) = Some l)"

definition locks_led :: "flight \<Rightarrow> bool" where
  "locks_led s \<longleftrightarrow> (\<forall>k l. fl_locks s k = Some l \<longrightarrow> (\<exists>i. fl_key s i = k \<and> fl_pc s i = Leading l))"

definition waiters_wake :: "flight \<Rightarrow> bool" where
  "waiters_wake s \<longleftrightarrow>
     (\<forall>i l. fl_pc s i = Waiting l \<longrightarrow> l \<in> set (fl_closed s) \<or> (\<exists>j. owned (fl_pc s j) = Some l))"

definition closed_old :: "flight \<Rightarrow> bool" where
  "closed_old s \<longleftrightarrow> (\<forall>l \<in> set (fl_closed s). l < fl_fresh s)"

definition flight_ok :: "flight \<Rightarrow> bool" where
  "flight_ok s \<longleftrightarrow> owners_distinct s \<and> owners_open s \<and> leaders_locked s \<and> locks_led s \<and> waiters_wake s \<and> closed_old s"

lemmas flight_defs = owners_distinct_def owners_open_def leaders_locked_def locks_led_def waiters_wake_def
  closed_old_def

lemma flight_New_ok: "flight_ok (flight_New keys)"
  by (simp add: flight_ok_def flight_defs flight_New_def)

lemma one_leader:
  "flight_ok s \<Longrightarrow> fl_pc s i = Leading l \<Longrightarrow> fl_pc s j = Leading l' \<Longrightarrow> fl_key s i = fl_key s j \<Longrightarrow> i = j"
  unfolding flight_ok_def owners_distinct_def leaders_locked_def by (metis option.inject owned.simps(1))

lemma past_ok:
  assumes ok: "flight_ok s" and pc: "fl_pc s i = Waiting l"
  shows "flight_ok (s\<lparr>fl_pc := (fl_pc s)(i := Past)\<rparr>)"
proof -
  have keep: "fl_pc s j = Leading m \<Longrightarrow> j \<noteq> i" "owned (fl_pc s j) = Some m \<Longrightarrow> j \<noteq> i" for j m using pc by auto
  have "owners_distinct (s\<lparr>fl_pc := (fl_pc s)(i := Past)\<rparr>)" "owners_open (s\<lparr>fl_pc := (fl_pc s)(i := Past)\<rparr>)"
    "leaders_locked (s\<lparr>fl_pc := (fl_pc s)(i := Past)\<rparr>)" "closed_old (s\<lparr>fl_pc := (fl_pc s)(i := Past)\<rparr>)"
    using ok unfolding flight_ok_def
    by (simp_all add: owners_distinct_def owners_open_def leaders_locked_def closed_old_def)
  moreover have "locks_led (s\<lparr>fl_pc := (fl_pc s)(i := Past)\<rparr>)"
    using ok keep(1) unfolding flight_ok_def locks_led_def by simp metis
  moreover have "waiters_wake (s\<lparr>fl_pc := (fl_pc s)(i := Past)\<rparr>)"
    using ok keep(2) unfolding flight_ok_def waiters_wake_def by simp metis
  ultimately show ?thesis by (simp add: flight_ok_def)
qed

lemma acquire_ok:
  assumes ok: "flight_ok s" and pc: "fl_pc s i = Arriving"
  shows "flight_ok (flight_acquire s i)"
proof (cases "fl_locks s (fl_key s i)")
  case (Some l)
  let ?s = "s\<lparr>fl_pc := (fl_pc s)(i := Waiting l)\<rparr>"
  have eq: "flight_acquire s i = ?s" by (simp add: flight_acquire_def Some)
  have keep: "fl_pc s j = Leading m \<Longrightarrow> j \<noteq> i" "owned (fl_pc s j) = Some m \<Longrightarrow> j \<noteq> i" for j m using pc by auto
  obtain j where j: "fl_pc s j = Leading l" using ok Some unfolding flight_ok_def locks_led_def by blast
  have "owners_distinct ?s" "owners_open ?s" "leaders_locked ?s" "closed_old ?s"
    using ok unfolding flight_ok_def
    by (simp_all add: owners_distinct_def owners_open_def leaders_locked_def closed_old_def)
  moreover have "locks_led ?s" using ok keep(1) unfolding flight_ok_def locks_led_def by simp metis
  moreover have "waiters_wake ?s"
    using ok keep(2) j unfolding flight_ok_def waiters_wake_def by simp (metis owned.simps(1))
  ultimately show ?thesis unfolding eq by (simp add: flight_ok_def)
next
  case None
  let ?s = "s\<lparr>fl_locks := (fl_locks s)(fl_key s i \<mapsto> fl_fresh s), fl_fresh := fl_fresh s + 1,
    fl_pc := (fl_pc s)(i := Leading (fl_fresh s))\<rparr>"
  have eq: "flight_acquire s i = ?s" by (simp add: flight_acquire_def None)
  have new: "owned (fl_pc s j) \<noteq> Some (fl_fresh s)" "fl_fresh s \<notin> set (fl_closed s)" for j
    using ok unfolding flight_ok_def owners_open_def closed_old_def by blast+
  have other: "fl_pc s j = Leading m \<Longrightarrow> fl_key s j \<noteq> fl_key s i" for j m
    using ok None unfolding flight_ok_def leaders_locked_def by fastforce
  have "owners_distinct ?s"
    using ok new(1) unfolding flight_ok_def owners_distinct_def by simp metis
  moreover have "owners_open ?s"
    using ok new(2) unfolding flight_ok_def owners_open_def by (simp add: less_Suc_eq)
  moreover have "leaders_locked ?s"
    using ok other unfolding flight_ok_def leaders_locked_def by simp blast
  moreover have "locks_led ?s"
    using ok pc unfolding flight_ok_def locks_led_def by simp (metis flight_pc.distinct(1))
  moreover have "waiters_wake ?s"
    using ok pc unfolding flight_ok_def waiters_wake_def by simp (metis option.distinct(1) owned.simps(3))
  moreover have "closed_old ?s"
    using ok unfolding flight_ok_def closed_old_def by (simp add: less_Suc_eq)
  ultimately show ?thesis unfolding eq by (simp add: flight_ok_def)
qed

lemma unlock_ok:
  assumes ok: "flight_ok s" and pc: "fl_pc s i = Leading l"
  shows "flight_ok (flight_unlock s i l)"
proof -
  let ?s = "flight_unlock s i l"
  have own: "owned (fl_pc ?s j) = owned (fl_pc s j)" for j using pc by (simp add: flight_unlock_def)
  have others: "fl_pc s j = Leading m \<Longrightarrow> j \<noteq> i \<Longrightarrow> fl_key s j \<noteq> fl_key s i" for j m
    using one_leader [OF ok _ pc] by metis
  have same: "fl_closed ?s = fl_closed s" "fl_fresh ?s = fl_fresh s" by (simp_all add: flight_unlock_def)
  have "owners_distinct ?s" "owners_open ?s" "closed_old ?s"
    using ok unfolding flight_ok_def owners_distinct_def owners_open_def closed_old_def own same by blast+
  moreover have "leaders_locked ?s"
    using ok others unfolding flight_ok_def leaders_locked_def by (simp add: flight_unlock_def) blast
  moreover have "locks_led ?s"
    using ok unfolding flight_ok_def locks_led_def by (simp add: flight_unlock_def) metis
  moreover have "fl_pc ?s j = Waiting m \<Longrightarrow> fl_pc s j = Waiting m" for j m
    by (simp add: flight_unlock_def split: if_splits)
  then have "waiters_wake ?s"
    using ok unfolding flight_ok_def waiters_wake_def own same by blast
  ultimately show ?thesis by (simp add: flight_ok_def)
qed

lemma close_ok:
  assumes ok: "flight_ok s" and pc: "fl_pc s i = Closing l"
  shows "\<exists>s'. flight_close s i l = Some s' \<and> flight_ok s'"
proof -
  let ?s = "s\<lparr>fl_closed := l # fl_closed s, fl_pc := (fl_pc s)(i := Past)\<rparr>"
  have l: "l \<notin> set (fl_closed s)" "l < fl_fresh s"
    using ok pc unfolding flight_ok_def owners_open_def by (metis owned.simps(2))+
  have only: "owned (fl_pc s j) = Some l \<Longrightarrow> j = i" for j
    using ok pc unfolding flight_ok_def owners_distinct_def by (metis owned.simps(2))
  have "owners_distinct ?s" using ok unfolding flight_ok_def owners_distinct_def by simp
  moreover have "owners_open ?s" using ok only unfolding flight_ok_def owners_open_def by simp metis
  moreover have "leaders_locked ?s" using ok unfolding flight_ok_def leaders_locked_def by simp
  moreover have "locks_led ?s"
    using ok pc unfolding flight_ok_def locks_led_def by simp (metis flight_pc.distinct(9))
  moreover have "waiters_wake ?s"
    using ok pc unfolding flight_ok_def waiters_wake_def by simp (metis option.inject owned.simps(2))
  moreover have "closed_old ?s" using ok l(2) unfolding flight_ok_def closed_old_def by simp
  ultimately show ?thesis using l(1) by (simp add: flight_close_def flight_ok_def)
qed

lemma flight_step_ok: "flight_ok s \<Longrightarrow> \<exists>s'. flight_step i t s = Some s' \<and> flight_ok s'"
  using acquire_ok unlock_ok close_ok past_ok
  by (cases "fl_pc s i") (simp_all add: flight_step_def)

lemma flight_run_ok: "flight_ok s \<Longrightarrow> \<exists>s'. flight_run sched s = Some s' \<and> flight_ok s'"
proof (induction sched arbitrary: s)
  case (Cons x sched)
  obtain i t where "x = (i, t)" by fastforce
  then show ?case using flight_step_ok [OF Cons.prems, of i t] Cons.IH by auto
qed simp

text \<open>The keys of the requests never change.\<close>

lemma flight_step_key: "flight_step i t s = Some s' \<Longrightarrow> fl_key s' = fl_key s"
  by (auto simp: flight_step_def flight_acquire_def flight_unlock_def flight_close_def
      split: flight_pc.splits option.splits if_splits)

lemma flight_run_key: "flight_run sched s = Some s' \<Longrightarrow> fl_key s' = fl_key s"
proof (induction sched arbitrary: s)
  case (Cons x sched)
  then show ?case by (cases x) (auto simp: flight_step_key split: option.splits)
qed simp

lemma closing_wakes:
  assumes "flight_ok s" "fl_pc s j = Closing l" "fl_pc s i = Waiting l"
  shows "\<exists>s'. flight_run [(j, False), (i, False)] s = Some s' \<and> fl_pc s' i = Past"
proof -
  have "l \<notin> set (fl_closed s)"
    using assms(1,2) unfolding flight_ok_def owners_open_def by (metis owned.simps(2))
  moreover have "i \<noteq> j" using assms(2,3) by auto
  ultimately show ?thesis using assms(2,3) by (simp add: flight_step_def flight_close_def)
qed

lemma waiter_progress:
  assumes ok: "flight_ok s" and pc: "fl_pc s i = Waiting l"
  shows "\<exists>j s'. flight_run [(j, False), (j, False), (i, False)] s = Some s' \<and> fl_pc s' i = Past"
proof (cases "l \<in> set (fl_closed s)")
  case True
  then have "\<exists>s'. flight_run [(i, False), (i, False), (i, False)] s = Some s' \<and> fl_pc s' i = Past"
    using pc by (simp add: flight_step_def)
  then show ?thesis by (rule exI)
next
  case False
  then obtain j where j: "owned (fl_pc s j) = Some l"
    using ok pc unfolding flight_ok_def waiters_wake_def by blast
  then have ij: "i \<noteq> j" using pc by auto
  consider "fl_pc s j = Leading l" | "fl_pc s j = Closing l" using j by (cases "fl_pc s j") simp_all
  then have "\<exists>s'. flight_run [(j, False), (j, False), (i, False)] s = Some s' \<and> fl_pc s' i = Past"
  proof cases
    case 1
    let ?s = "flight_unlock s j l"
    have "fl_pc ?s j = Closing l" "fl_pc ?s i = Waiting l" using pc ij by (simp_all add: flight_unlock_def)
    from closing_wakes [OF unlock_ok [OF ok 1] this] show ?thesis using 1 by (simp add: flight_step_def)
  next
    case 2
    then show ?thesis using False pc ij by (simp add: flight_step_def flight_close_def)
  qed
  then show ?thesis by (rule exI)
qed

section \<open>Properties\<close>



end
