(* ===== verification/Cache_Disk.thy ===== *)
theory Cache_Disk
  imports Cache_Memory Cache_Policy
begin

text \<open>
  The disk backend (\<^verbatim>\<open>pkg/cache/disk.go\<close>) over a model of the files it uses. A file has its content and
  modification time; what the directories are called does not matter, so a path says which file of
  which key it is. A sidecar holds what its JSON decodes to: encoding is a parameter \<open>js\<close>, \<open>None\<close> for an
  encoding error. Every system call of a commit may fail; removing a file does not.
\<close>

section \<open>Files\<close>

datatype path = TmpP string | BodyP string | MetaP string

datatype content = Bytes string | Json Meta

type_synonym fs = "path \<rightharpoonup> content \<times> int"

datatype fs_op = CreateF path content | RenameF path path | RemoveF path

fun fs_apply :: "int \<Rightarrow> fs_op \<Rightarrow> fs \<Rightarrow> fs" where
  "fs_apply t (CreateF p c) fs = fs(p \<mapsto> (c, t))"
| "fs_apply t (RenameF p q) fs = (if fs p = None then fs else fs(q := fs p, p := None))"
| "fs_apply t (RemoveF p) fs = fs(p := None)"

definition fs_run :: "int \<Rightarrow> fs_op list \<Rightarrow> fs \<Rightarrow> fs" where
  "fs_run t ops fs = fold (fs_apply t) ops fs"

section \<open>The store\<close>

record DiskStorage =
  ds_fs :: fs
  ds_lru :: lru
  ds_seq :: nat

definition reapMinAge :: int where
  "reapMinAge = 60 * Second"

definition minKeyLen :: nat where
  "minKeyLen = 2"

text \<open>Opening a directory with the files it has; the scan follows.\<close>

definition NewDisk :: "fs \<Rightarrow> int \<Rightarrow> DiskStorage" where
  "NewDisk fs maxSize = \<lparr>ds_fs = fs, ds_lru = newLRU maxSize, ds_seq = 0\<rparr>"

definition tempPath :: "string \<Rightarrow> DiskStorage \<Rightarrow> path \<times> DiskStorage" where
  "tempPath prefix s =
     (let n = ds_seq s + 1 in (TmpP (prefix @ ''.'' @ FormatInt (int n)), s\<lparr>ds_seq := n\<rparr>))"

text \<open>The two reads of \<^verbatim>\<open>Get\<close> and the check of the length.\<close>

definition disk_read :: "fs \<Rightarrow> string \<Rightarrow> entry option" where
  "disk_read fs k =
     (if length k < minKeyLen then None
      else case fs (MetaP k) of
             Some (Json m, _) \<Rightarrow>
               (case fs (BodyP k) of
                  Some (Bytes body, _) \<Rightarrow> if int (length body) \<noteq> me_Size m then None else Some (m, body)
                | _ \<Rightarrow> None)
           | _ \<Rightarrow> None)"

definition disk_Get :: "DiskStorage \<Rightarrow> string \<Rightarrow> DiskStorage \<times> entry option" where
  "disk_Get s k =
     (case disk_read (ds_fs s) k of
        None \<Rightarrow> (s, None)
      | Some e \<Rightarrow> (s\<lparr>ds_lru := lru_touch (ds_lru s) k\<rparr>, Some e))"

definition removeFiles :: "string \<Rightarrow> fs_op list" where
  "removeFiles k = (if length k < minKeyLen then [] else [RemoveF (MetaP k), RemoveF (BodyP k)])"

definition disk_Delete :: "DiskStorage \<Rightarrow> string \<Rightarrow> DiskStorage" where
  "disk_Delete s k =
     (if length k < minKeyLen then s
      else s\<lparr>ds_fs := fs_run 0 (removeFiles k) (ds_fs s), ds_lru := lru_remove (ds_lru s) k\<rparr>)"

section \<open>Writers\<close>

record diskWriter =
  dw_key :: string
  dw_tmp :: path
  dw_done :: bool

definition disk_Writer :: "bool \<Rightarrow> int \<Rightarrow> string \<Rightarrow> DiskStorage \<Rightarrow> DiskStorage \<times> diskWriter option" where
  "disk_Writer created t k s =
     (if length k < minKeyLen then (s, None)
      else case tempPath k s of
             (tmp, s1) \<Rightarrow>
               if \<not> created then (s1, None)
               else (s1\<lparr>ds_fs := (ds_fs s1)(tmp \<mapsto> (Bytes '''', t))\<rparr>,
                     Some \<lparr>dw_key = k, dw_tmp = tmp, dw_done = False\<rparr>))"

definition dw_Write :: "int \<Rightarrow> diskWriter \<Rightarrow> string \<Rightarrow> DiskStorage \<Rightarrow> DiskStorage" where
  "dw_Write t w p s =
     (case ds_fs s (dw_tmp w) of
        Some (Bytes b, _) \<Rightarrow> s\<lparr>ds_fs := (ds_fs s)(dw_tmp w \<mapsto> (Bytes (b @ p), t))\<rparr>
      | _ \<Rightarrow> s)"

text \<open>Which system calls of a commit succeed, in order.\<close>

record commit_io =
  io_sync :: bool
  io_close :: bool
  io_mkdir :: bool
  io_rename :: bool
  io_create :: bool
  io_write :: bool
  io_msync :: bool
  io_mclose :: bool
  io_mrename :: bool
  io_dirsync :: bool

definition io_fine :: commit_io where
  "io_fine = \<lparr>io_sync = True, io_close = True, io_mkdir = True, io_rename = True, io_create = True,
     io_write = True, io_msync = True, io_mclose = True, io_mrename = True, io_dirsync = True\<rparr>"

definition atomicWriteRename :: "commit_io \<Rightarrow> path \<Rightarrow> content \<Rightarrow> path \<Rightarrow> fs_op list \<times> bool" where
  "atomicWriteRename io p data tmp =
     (if \<not> io_create io then ([], False)
      else if \<not> io_write io \<or> \<not> io_msync io \<or> \<not> io_mclose io \<or> \<not> io_mrename io
      then ([CreateF tmp data, RemoveF tmp], False)
      else ([CreateF tmp data, RenameF tmp p], True))"

text \<open>The file operations of \<^verbatim>\<open>Commit\<close> up to the admission, and whether it gets there.\<close>

definition commit_ops ::
  "commit_io \<Rightarrow> (Meta \<Rightarrow> Meta option) \<Rightarrow> string \<Rightarrow> path \<Rightarrow> path \<Rightarrow> Meta \<Rightarrow> fs_op list \<times> bool"
where
  "commit_ops io js k tmp mtmp meta =
     (if \<not> io_sync io \<or> \<not> io_close io \<or> \<not> io_mkdir io \<or> \<not> io_rename io then ([RemoveF tmp], False)
      else case js meta of
             None \<Rightarrow> ([RenameF tmp (BodyP k), RemoveF (BodyP k)], False)
           | Some mb \<Rightarrow>
               (case atomicWriteRename io (MetaP k) (Json mb) mtmp of
                  (ops, ok) \<Rightarrow>
                    if \<not> ok then (RenameF tmp (BodyP k) # ops @ [RemoveF (BodyP k)], False)
                    else if \<not> io_dirsync io then (RenameF tmp (BodyP k) # ops @ removeFiles k, False)
                    else (RenameF tmp (BodyP k) # ops, True)))"

definition dw_Commit ::
  "commit_io \<Rightarrow> (Meta \<Rightarrow> Meta option) \<Rightarrow> int \<Rightarrow> diskWriter \<Rightarrow> Meta \<Rightarrow> DiskStorage \<Rightarrow> DiskStorage \<times> diskWriter \<times> bool"
where
  "dw_Commit io js t w meta s =
     (if dw_done w then (s, w, True)
      else case tempPath (dw_key w @ ''.meta'') s of
             (mtmp, s1) \<Rightarrow>
               (case commit_ops io js (dw_key w) (dw_tmp w) mtmp meta of
                  (ops, ok) \<Rightarrow>
                    let s2 = s1\<lparr>ds_fs := fs_run t ops (ds_fs s1)\<rparr>
                    in if \<not> ok then (s2, w\<lparr>dw_done := True\<rparr>, False)
                       else case lru_admit (ds_lru s2) (dw_key w) (me_Size meta) of
                              (l, victims) \<Rightarrow>
                                (s2\<lparr>ds_lru := l, ds_fs := fs_run t (concat (map removeFiles victims)) (ds_fs s2)\<rparr>,
                                 w\<lparr>dw_done := True\<rparr>, True)))"

definition dw_Abort :: "diskWriter \<Rightarrow> DiskStorage \<Rightarrow> DiskStorage \<times> diskWriter" where
  "dw_Abort w s =
     (if dw_done w then (s, w)
      else (s\<lparr>ds_fs := (ds_fs s)(dw_tmp w := None)\<rparr>, w\<lparr>dw_done := True\<rparr>))"

section \<open>Walking the directories\<close>

text \<open>\<open>metas\<close> are the keys of the sidecars in the order of the directory snapshots.\<close>

fun disk_Range ::
  "(string \<Rightarrow> Meta \<Rightarrow> DiskStorage \<Rightarrow> DiskStorage \<times> bool) \<Rightarrow> string list \<Rightarrow> DiskStorage \<Rightarrow> DiskStorage"
where
  "disk_Range fn [] s = s"
| "disk_Range fn (k # metas) s =
     (case ds_fs s (MetaP k) of
        Some (Json m, _) \<Rightarrow> (case fn k m s of (s', go) \<Rightarrow> if go then disk_Range fn metas s' else s')
      | _ \<Rightarrow> disk_Range fn metas s)"

definition reapIfStale :: "int \<Rightarrow> path \<Rightarrow> fs \<Rightarrow> fs" where
  "reapIfStale now p fs =
     (case fs p of
        None \<Rightarrow> fs
      | Some (_, mt) \<Rightarrow> if reapMinAge \<le> time_Sub now mt then fs(p := None) else fs)"

definition reap_path :: "int \<Rightarrow> path \<Rightarrow> DiskStorage \<Rightarrow> DiskStorage" where
  "reap_path now p s = s\<lparr>ds_fs := reapIfStale now p (ds_fs s)\<rparr>"

text \<open>One sidecar of a shard whose listing has the bodies \<open>bodies\<close>.\<close>

definition scan_meta :: "int \<Rightarrow> string list \<Rightarrow> string \<Rightarrow> DiskStorage \<Rightarrow> DiskStorage" where
  "scan_meta now bodies k s =
     (let mp = MetaP k; bp = BodyP k
      in case ds_fs s mp of
           None \<Rightarrow> s
         | Some (Bytes _, _) \<Rightarrow> reap_path now bp (reap_path now mp s)
         | Some (Json m, _) \<Rightarrow>
             if k \<notin> set bodies then reap_path now mp s
             else if serveableUntil m < now then reap_path now bp (reap_path now mp s)
             else (case ds_fs s bp of
                     Some (Bytes body, _) \<Rightarrow>
                       if int (length body) \<noteq> me_Size m then reap_path now bp (reap_path now mp s)
                       else (case lru_admit (ds_lru s) k (me_Size m) of
                               (l, victims) \<Rightarrow>
                                 s\<lparr>ds_lru := l, ds_fs := fs_run now (concat (map removeFiles victims)) (ds_fs s)\<rparr>)
                   | _ \<Rightarrow> reap_path now bp (reap_path now mp s)))"

definition scan_shard :: "int \<Rightarrow> string list \<times> string list \<Rightarrow> DiskStorage \<Rightarrow> DiskStorage" where
  "scan_shard now shard s =
     (case shard of (bodies, metas) \<Rightarrow>
        fold (\<lambda>k. reap_path now (BodyP k)) (filter (\<lambda>k. k \<notin> set metas) bodies)
          (fold (scan_meta now bodies) metas s))"

definition disk_scan :: "int \<Rightarrow> string list \<Rightarrow> (string list \<times> string list) list \<Rightarrow> DiskStorage \<Rightarrow> DiskStorage" where
  "disk_scan now tmps shards s =
     fold (scan_shard now) shards (fold (\<lambda>n. reap_path now (TmpP n)) tmps s)"

text \<open>A whole entry through a writer, when no call fails and the metadata survives its encoding.\<close>

definition disk_commit :: "int \<Rightarrow> DiskStorage \<Rightarrow> string \<Rightarrow> entry \<Rightarrow> DiskStorage" where
  "disk_commit t s k e =
     (case disk_Writer True t k s of
        (s1, None) \<Rightarrow> s1
      | (s1, Some w) \<Rightarrow> fst (dw_Commit io_fine Some t w (fst e) (dw_Write t w (snd e) s1)))"

section \<open>The storage contract\<close>

definition disk_ok :: "DiskStorage \<Rightarrow> bool" where
  "disk_ok s \<longleftrightarrow> lru_ok (ds_lru s)"

lemma disk_get_view [simp]: "snd (disk_Get s k) = disk_read (ds_fs s) k"
  by (simp add: disk_Get_def split: option.split)

lemma disk_get_fs [simp]: "ds_fs (fst (disk_Get s k)) = ds_fs s"
  by (simp add: disk_Get_def split: option.split)

lemma disk_read_cong:
  assumes "fs (MetaP k) = fs' (MetaP k)" "fs (BodyP k) = fs' (BodyP k)"
  shows "disk_read fs k = disk_read fs' k"
  unfolding disk_read_def assms by (rule refl)

lemma disk_read_tmp [simp]: "disk_read (fs(TmpP n := x)) k = disk_read fs k"
  by (rule disk_read_cong) simp_all

lemma disk_read_removed [simp]:
  "disk_read (fs(MetaP v := None)) k = (if k = v then None else disk_read fs k)"
  "disk_read (fs(BodyP v := None)) k = (if k = v then None else disk_read fs k)"
  by (simp_all add: disk_read_def split: option.split prod.split content.split)

lemma disk_read_short: "length k < minKeyLen \<Longrightarrow> disk_read fs k = None"
  by (simp add: disk_read_def)

lemma removeFiles_read:
  "disk_read (fs_run t (removeFiles v) fs) k = (if k = v then None else disk_read fs k)"
  by (cases "length v < minKeyLen") (auto simp: removeFiles_def fs_run_def disk_read_short)

lemma fs_run_append [simp]: "fs_run t (xs @ ys) fs = fs_run t ys (fs_run t xs fs)"
  by (simp add: fs_run_def)

lemma victims_read:
  "disk_read (fs_run t (concat (map removeFiles vs)) fs) k = (if k \<in> set vs then None else disk_read fs k)"
proof (induction vs arbitrary: fs)
  case (Cons v vs)
  then show ?case by (simp add: removeFiles_read)
qed (simp add: fs_run_def)

lemma disk_commit_eq:
  assumes "minKeyLen \<le> length k" "lru_admit (ds_lru s) k (me_Size (fst e)) = (l, vs)"
  shows "ds_lru (disk_commit t s k e) = l"
    "disk_read (ds_fs (disk_commit t s k e)) k' =
       (if k' \<in> set vs then None
        else if k' = k then (if int (length (snd e)) = me_Size (fst e) then Some e else None)
        else disk_read (ds_fs s) k')"
proof -
  let ?tmp = "TmpP (k @ ''.'' @ FormatInt (int (ds_seq s + 1)))"
  let ?mtmp = "TmpP ((k @ ''.meta'') @ ''.'' @ FormatInt (int (ds_seq s + 2)))"
  let ?fs = "(ds_fs s)(?tmp \<mapsto> (Bytes (snd e), t))"
  let ?ops = "[RenameF ?tmp (BodyP k), CreateF ?mtmp (Json (fst e)), RenameF ?mtmp (MetaP k)]"
  have c: "disk_commit t s k e = (s\<lparr>ds_seq := ds_seq s + 2, ds_lru := l,
      ds_fs := fs_run t (concat (map removeFiles vs)) (fs_run t ?ops ?fs)\<rparr>)"
    using assms by (simp add: disk_commit_def disk_Writer_def tempPath_def dw_Write_def dw_Commit_def Let_def
        commit_ops_def io_fine_def atomicWriteRename_def)
  show "ds_lru (disk_commit t s k e) = l" by (simp add: c)
  have "fs_run t ?ops ?fs (BodyP k) = Some (Bytes (snd e), t)" "fs_run t ?ops ?fs (MetaP k) = Some (Json (fst e), t)"
    by (simp_all add: fs_run_def)
  then have new: "disk_read (fs_run t ?ops ?fs) k = (if int (length (snd e)) = me_Size (fst e) then Some e else None)"
    using assms(1) by (simp add: disk_read_def)
  have old: "disk_read (fs_run t ?ops ?fs) k' = disk_read (ds_fs s) k'" if "k' \<noteq> k"
    using that by (intro disk_read_cong) (simp_all add: fs_run_def)
  show "disk_read (ds_fs (disk_commit t s k e)) k' =
       (if k' \<in> set vs then None
        else if k' = k then (if int (length (snd e)) = me_Size (fst e) then Some e else None)
        else disk_read (ds_fs s) k')"
    using new old by (simp add: c victims_read)
qed

lemma disk_commit_short: "length k < minKeyLen \<Longrightarrow> disk_commit t s k e = s"
  by (simp add: disk_commit_def disk_Writer_def)

interpretation dsk: entry_store disk_Get "disk_commit t" disk_Delete disk_ok sized for t
proof
  fix s :: DiskStorage and k k' :: string and e :: entry
  assume ok: "disk_ok s" and e: "sized e"
  obtain l vs where adm: "lru_admit (ds_lru s) k (me_Size (fst e)) = (l, vs)" by (meson surj_pair)
  show "disk_ok (disk_commit t s k e)"
    using ok e disk_commit_eq(1) [OF _ adm] disk_commit_short lru_admit_ok(1) [OF _ _ adm]
    by (cases "length k < minKeyLen") (auto simp: disk_ok_def sized_def)
  show "snd (disk_Get (disk_commit t s k e) k') = None \<or>
      snd (disk_Get (disk_commit t s k e) k') = (if k' = k then Some e else snd (disk_Get s k'))"
    using e disk_commit_eq(2) [OF _ adm] disk_commit_short disk_read_short
    by (cases "length k < minKeyLen") (auto simp: sized_def)
next
  fix s :: DiskStorage and k k' :: string
  assume ok: "disk_ok s"
  show "disk_ok (fst (disk_Get s k))"
    using ok by (simp add: disk_Get_def disk_ok_def lru_touch_ok split: option.split)
  show "disk_ok (disk_Delete s k)" using ok by (simp add: disk_Delete_def disk_ok_def lru_remove_ok)
  show "snd (disk_Get (disk_Delete s k) k') = (if k' = k then None else snd (disk_Get s k'))"
    by (simp add: disk_Delete_def removeFiles_read disk_read_short)
qed simp

lemma NewDisk_ok: "0 \<le> mx \<Longrightarrow> disk_ok (NewDisk fs mx)"
  by (simp add: disk_ok_def NewDisk_def newLRU_ok)

section \<open>Crashes\<close>

text \<open>A predicate at every point of a sequence of file operations, where a crash may fall.\<close>

fun all_points :: "(fs \<Rightarrow> bool) \<Rightarrow> int \<Rightarrow> fs_op list \<Rightarrow> fs \<Rightarrow> bool" where
  "all_points Q t [] fs \<longleftrightarrow> Q fs"
| "all_points Q t (op # ops) fs \<longleftrightarrow> Q fs \<and> all_points Q t ops (fs_apply t op fs)"

lemma all_points_take: "all_points Q t ops fs \<Longrightarrow> Q (fs_run t (take n ops) fs)"
proof (induction ops arbitrary: n fs)
  case (Cons op ops)
  then show ?case by (cases n) (simp_all add: fs_run_def)
qed (simp add: fs_run_def)

lemma all_points_append:
  "all_points Q t xs fs \<Longrightarrow> all_points Q t ys (fs_run t xs fs) \<Longrightarrow> all_points Q t (xs @ ys) fs"
proof (induction xs arbitrary: fs)
  case (Cons x xs)
  then show ?case by (simp add: fs_run_def)
qed (simp add: fs_run_def)

text \<open>
  What a reader may see of key \<open>k'\<close> around a commit of \<open>e\<close> under \<open>k\<close> that started from \<open>fs0\<close>: nothing,
  what was there, the new entry, or, for a body of the same length, the old metadata with the new
  body.
\<close>

definition torn :: "fs \<Rightarrow> string \<Rightarrow> entry \<Rightarrow> entry \<Rightarrow> bool" where
  "torn fs0 k e x \<longleftrightarrow> (\<exists>m t. fs0 (MetaP k) = Some (Json m, t) \<and> x = (m, snd e) \<and> me_Size m = int (length (snd e)))"

definition crash_view :: "fs \<Rightarrow> string \<Rightarrow> entry \<Rightarrow> fs \<Rightarrow> bool" where
  "crash_view fs0 k e fs \<longleftrightarrow>
     (\<forall>k' x. disk_read fs k' = Some x \<longrightarrow> disk_read fs0 k' = Some x \<or> (k' = k \<and> (x = e \<or> torn fs0 k e x)))"

lemma crash_view_refl: "crash_view fs0 k e fs0"
  by (simp add: crash_view_def)

lemma crash_view_read:
  assumes "crash_view fs0 k e fs" "\<And>k'. disk_read fs' k' = disk_read fs k' \<or> disk_read fs' k' = None"
  shows "crash_view fs0 k e fs'"
  using assms unfolding crash_view_def by (metis option.distinct(1))

lemma crash_view_remove: "crash_view fs0 k e fs \<Longrightarrow> crash_view fs0 k e (fs(p := None))"
  by (rule crash_view_read, assumption) (cases p, simp_all)

lemma crash_view_tmp: "crash_view fs0 k e fs \<Longrightarrow> crash_view fs0 k e (fs(TmpP n := x))"
  by (rule crash_view_read, assumption) simp

lemma remove_points:
  "list_all (\<lambda>op. \<exists>p. op = RemoveF p) ops \<Longrightarrow> crash_view fs0 k e fs \<Longrightarrow> all_points (crash_view fs0 k e) t ops fs"
  by (induction ops arbitrary: fs) (auto simp: crash_view_remove)

lemma removeFiles_removes: "list_all (\<lambda>op. \<exists>p. op = RemoveF p) (concat (map removeFiles vs))"
  by (induction vs) (auto simp: removeFiles_def)

lemma body_renamed:
  assumes "disk_read fs k = Some x" "fs (BodyP k) = Some (Bytes (snd e), t)" "fs (MetaP k) = fs0 (MetaP k)"
  shows "torn fs0 k e x"
  using assms by (auto simp: disk_read_def torn_def split: if_splits option.splits content.splits)

lemma both_renamed:
  assumes "disk_read fs k = Some x" "fs (BodyP k) = Some (Bytes (snd e), t)" "fs (MetaP k) = Some (Json (fst e), t')"
  shows "x = e"
  using assms by (cases e) (auto simp: disk_read_def split: if_splits)

lemma commit_points:
  assumes tmp: "fs0 (TmpP n) = Some (Bytes (snd e), t0)" and ops: "commit_ops io Some k (TmpP n) (TmpP n') (fst e) = (ops, ok)"
  shows "all_points (crash_view fs0 k e) t ops fs0"
proof -
  let ?fs1 = "fs0(BodyP k \<mapsto> (Bytes (snd e), t0), TmpP n := None)"
  let ?fs2 = "?fs1(TmpP n' \<mapsto> (Json (fst e), t))"
  let ?fs3 = "?fs2(MetaP k \<mapsto> (Json (fst e), t), TmpP n' := None)"
  have 1: "crash_view fs0 k e ?fs1"
    unfolding crash_view_def
  proof (intro allI impI)
    fix k' x
    assume r: "disk_read ?fs1 k' = Some x"
    show "disk_read fs0 k' = Some x \<or> (k' = k \<and> (x = e \<or> torn fs0 k e x))"
    proof (cases "k' = k")
      case True
      then show ?thesis using body_renamed [of ?fs1 k x e t0 fs0] r by simp
    next
      case False
      then have "disk_read ?fs1 k' = disk_read fs0 k'" by (intro disk_read_cong) simp_all
      then show ?thesis using r by simp
    qed
  qed
  note 2 = crash_view_tmp [OF 1, of n' "Some (Json (fst e), t)"]
  have 3: "crash_view fs0 k e ?fs3"
    unfolding crash_view_def
  proof (intro allI impI)
    fix k' x
    assume r: "disk_read ?fs3 k' = Some x"
    show "disk_read fs0 k' = Some x \<or> (k' = k \<and> (x = e \<or> torn fs0 k e x))"
    proof (cases "k' = k")
      case True
      then show ?thesis using both_renamed [of ?fs3 k x e t0 t] r by simp
    next
      case False
      then have "disk_read ?fs3 k' = disk_read fs0 k'" by (intro disk_read_cong) simp_all
      then show ?thesis using r by simp
    qed
  qed
  have 4: "all_points (crash_view fs0 k e) t (removeFiles k) ?fs3"
    using remove_points [OF _ 3, of "removeFiles k"] by (simp add: removeFiles_def)
  show ?thesis
    using ops tmp crash_view_refl [of fs0 k e] 1 2 3 4
    by (auto simp: commit_ops_def atomicWriteRename_def crash_view_remove split: if_splits)
qed

section \<open>The scan\<close>

lemma reap_read:
  "disk_read (ds_fs (reap_path now p s)) k = disk_read (ds_fs s) k \<or> disk_read (ds_fs (reap_path now p s)) k = None"
  by (cases p) (simp_all add: reap_path_def reapIfStale_def split: option.split prod.split)

lemma reap_other:
  "p \<noteq> MetaP k \<Longrightarrow> p \<noteq> BodyP k \<Longrightarrow> disk_read (ds_fs (reap_path now p s)) k = disk_read (ds_fs s) k"
  by (cases p) (simp_all add: reap_path_def reapIfStale_def split: option.split prod.split)

lemma reap_lru [simp]: "ds_lru (reap_path now p s) = ds_lru s"
  by (simp add: reap_path_def)

text \<open>A sidecar is admitted exactly when its entry is complete and still serveable; otherwise its files may go.\<close>

lemma scan_meta_cases:
  obtains (admit) m body l vs where "ds_fs s (MetaP k) \<noteq> None" "k \<in> set bodies" "now \<le> serveableUntil m"
      "me_Size m = int (length body)" "minKeyLen \<le> length k \<longrightarrow> disk_read (ds_fs s) k = Some (m, body)"
      "lru_admit (ds_lru s) k (me_Size m) = (l, vs)"
      "scan_meta now bodies k s = s\<lparr>ds_lru := l, ds_fs := fs_run now (concat (map removeFiles vs)) (ds_fs s)\<rparr>"
  | (skip) "scan_meta now bodies k s = s"
  | (reap_meta) "scan_meta now bodies k s = reap_path now (MetaP k) s"
  | (reap_both) "scan_meta now bodies k s = reap_path now (BodyP k) (reap_path now (MetaP k) s)"
proof (cases "ds_fs s (MetaP k)")
  case None
  then have "scan_meta now bodies k s = s" by (simp add: scan_meta_def)
  then show ?thesis by (rule skip)
next
  case (Some f)
  obtain c mt where f: "f = (c, mt)" by fastforce
  show ?thesis
  proof (cases c)
    case (Bytes b)
    then have "scan_meta now bodies k s = reap_path now (BodyP k) (reap_path now (MetaP k) s)"
      by (simp add: scan_meta_def Some f Let_def)
    then show ?thesis by (rule reap_both)
  next
    case (Json m)
    consider "k \<notin> set bodies" | "k \<in> set bodies" "serveableUntil m < now"
      | body t where "k \<in> set bodies" "now \<le> serveableUntil m" "ds_fs s (BodyP k) = Some (Bytes body, t)"
          "int (length body) = me_Size m"
      | "k \<in> set bodies" "now \<le> serveableUntil m"
          "\<And>body t. ds_fs s (BodyP k) = Some (Bytes body, t) \<Longrightarrow> int (length body) \<noteq> me_Size m"
      by force
    then show ?thesis
    proof cases
      case 1
      then show ?thesis using reap_meta by (simp add: scan_meta_def Some f Json Let_def)
    next
      case 2
      then show ?thesis using reap_both by (simp add: scan_meta_def Some f Json Let_def)
    next
      case 3
      obtain l vs where adm: "lru_admit (ds_lru s) k (me_Size m) = (l, vs)" by (meson surj_pair)
      show ?thesis
        by (rule admit [of m body l vs])
          (use 3 adm in \<open>simp_all add: scan_meta_def Some f Json Let_def disk_read_def\<close>)
    next
      case 4
      then have "scan_meta now bodies k s = reap_path now (BodyP k) (reap_path now (MetaP k) s)"
        by (auto simp: scan_meta_def Some f Json Let_def split: option.split content.split)
      then show ?thesis by (rule reap_both)
    qed
  qed
qed

definition shrinks :: "DiskStorage \<Rightarrow> DiskStorage \<Rightarrow> bool" where
  "shrinks s s' \<longleftrightarrow> (\<forall>k. disk_read (ds_fs s') k = disk_read (ds_fs s) k \<or> disk_read (ds_fs s') k = None) \<and>
     (disk_ok s \<longrightarrow> disk_ok s' \<and> l_max (ds_lru s') = l_max (ds_lru s))"

lemma shrinks_refl: "shrinks s s"
  by (simp add: shrinks_def)

lemma shrinks_trans: "shrinks s s' \<Longrightarrow> shrinks s' s'' \<Longrightarrow> shrinks s s''"
  unfolding shrinks_def by metis

lemma shrinks_reap: "shrinks s (reap_path now p s)"
  using reap_read by (simp add: shrinks_def disk_ok_def)

lemma shrinks_fold: "(\<And>x s. shrinks s (f x s)) \<Longrightarrow> shrinks s (fold f xs s)"
  by (induction xs arbitrary: s) (auto simp: shrinks_refl intro: shrinks_trans)

lemma shrinks_scan_meta: "shrinks s (scan_meta now bodies k s)"
proof (cases rule: scan_meta_cases [of s k bodies now])
  case (admit m body l vs)
  have "disk_ok s \<Longrightarrow> lru_ok l \<and> l_max l = l_max (ds_lru s)"
    using lru_admit_ok [OF _ _ admit(6)] admit(4) by (simp add: disk_ok_def)
  then show ?thesis unfolding admit(7) shrinks_def by (simp add: victims_read disk_ok_def)
next
  case skip
  then show ?thesis by (simp add: shrinks_refl)
next
  case reap_meta
  then show ?thesis by (simp add: shrinks_reap)
next
  case reap_both
  then show ?thesis using shrinks_reap shrinks_trans by metis
qed

lemma shrinks_scan: "shrinks s (disk_scan now tmps shards s)"
proof -
  have "shrinks s (scan_shard now sh s)" for sh s
  proof (cases sh)
    case (Pair bodies metas)
    show ?thesis
      unfolding scan_shard_def Pair prod.case
      by (rule shrinks_trans [OF shrinks_fold shrinks_fold]) (rule shrinks_scan_meta, rule shrinks_reap)
  qed
  then show ?thesis
    unfolding disk_scan_def by (rule shrinks_trans [OF shrinks_fold shrinks_fold, rotated]) (rule shrinks_reap)
qed

lemma op_commits_append: "op_commits (xs @ ys) k cur = op_commits ys k (op_commits xs k cur)"
  by (induction xs k cur rule: op_commits.induct) simp_all

text \<open>With room for every listed entry, nothing is evicted and a complete serveable entry stays.\<close>

definition listed_size :: "fs \<Rightarrow> string \<Rightarrow> int" where
  "listed_size fs k = (case disk_read fs k of Some e \<Rightarrow> int (length (snd e)) | None \<Rightarrow> 0)"

definition room :: "DiskStorage \<Rightarrow> string list \<Rightarrow> bool" where
  "room s ks \<longleftrightarrow> disk_ok s \<and> distinct ks \<and> set ks \<inter> set (keys (ds_lru s)) = {} \<and>
     l_cur (ds_lru s) + sum_list (map (listed_size (ds_fs s)) ks) \<le> l_max (ds_lru s)"

lemma listed_size_nonneg: "0 \<le> listed_size fs k"
  by (simp add: listed_size_def split: option.split)

lemma admit_room:
  assumes "lru_ok l" "k \<notin> set (keys l)" "l_cur l + sz \<le> l_max l" "0 \<le> sz"
  shows "lru_admit l k sz = (lru_push l k sz, [])" "l_cur (lru_push l k sz) = l_cur l + sz"
proof -
  have "0 \<le> l_cur l" using assms(1) unfolding lru_ok_def lru_inv_def lru_sum_def by (auto simp: list_all_iff intro!: sum_list_nonneg)
  moreover have f: "lru_find l k = None" using assms(2) find_none by blast
  then show cur: "l_cur (lru_push l k sz) = l_cur l + sz" by (simp add: lru_push_def)
  ultimately show "lru_admit l k sz = (lru_push l k sz, [])"
    using assms(3) lru_evict_stop [of "lru_push l k sz"] by (simp add: lru_admit_def)
qed

lemma scan_meta_room:
  assumes "room s (k # ks)" "minKeyLen \<le> length k"
  shows "room (scan_meta now bodies k s) ks"
    "k' \<noteq> k \<Longrightarrow> disk_read (ds_fs (scan_meta now bodies k s)) k' = disk_read (ds_fs s) k'"
proof -
  let ?s' = "scan_meta now bodies k s"
  have lsz: "0 \<le> sum_list (map (listed_size (ds_fs s)) ks)" by (rule sum_list_nonneg) (auto simp: listed_size_nonneg)
  have reads: "disk_read (ds_fs ?s') k' = disk_read (ds_fs s) k'" if "k' \<noteq> k" for k'
  proof (cases rule: scan_meta_cases [of s k bodies now])
    case (admit m body l vs)
    then have "listed_size (ds_fs s) k = me_Size m" using assms(2) by (simp add: listed_size_def)
    then have "lru_admit (ds_lru s) k (me_Size m) = (lru_push (ds_lru s) k (me_Size m), [])"
      using assms(1) lsz admit(4) by (intro admit_room(1)) (simp_all add: room_def disk_ok_def)
    then show ?thesis using admit(6,7) by (simp add: fs_run_def)
  qed (use that in \<open>auto simp: reap_other\<close>)
  then show "k' \<noteq> k \<Longrightarrow> disk_read (ds_fs ?s') k' = disk_read (ds_fs s) k'" .
  have "listed_size (ds_fs ?s') x = listed_size (ds_fs s) x" if "x \<in> set ks" for x
  proof -
    have "x \<noteq> k" using that assms(1) by (auto simp: room_def)
    then show ?thesis using reads by (simp add: listed_size_def)
  qed
  then have sizes: "map (listed_size (ds_fs ?s')) ks = map (listed_size (ds_fs s)) ks" by simp
  have ok: "disk_ok ?s'" "l_max (ds_lru ?s') = l_max (ds_lru s)"
    using shrinks_scan_meta [of s now bodies k] assms(1) by (simp_all add: shrinks_def room_def)
  have "set (keys (ds_lru ?s')) \<subseteq> insert k (set (keys (ds_lru s))) \<and>
      l_cur (ds_lru ?s') \<le> l_cur (ds_lru s) + listed_size (ds_fs s) k"
  proof (cases rule: scan_meta_cases [of s k bodies now])
    case (admit m body l vs)
    then have sz: "listed_size (ds_fs s) k = me_Size m" using assms(2) by (simp add: listed_size_def)
    have a: "lru_admit (ds_lru s) k (me_Size m) = (lru_push (ds_lru s) k (me_Size m), [])"
      "l_cur (lru_push (ds_lru s) k (me_Size m)) = l_cur (ds_lru s) + me_Size m"
      using assms(1) lsz admit(4) sz admit_room [of "ds_lru s" k "me_Size m"] by (simp_all add: room_def disk_ok_def)
    then show ?thesis using admit(6,7) sz lru_push_keys [of "ds_lru s" k "me_Size m"] by simp
  qed (auto simp: listed_size_nonneg)
  then have "set ks \<inter> set (keys (ds_lru ?s')) = {}"
    "l_cur (ds_lru ?s') + sum_list (map (listed_size (ds_fs s)) ks) \<le> l_max (ds_lru s)"
    using assms(1) by (auto simp: room_def)
  then show "room ?s' ks"
    using assms(1) ok unfolding room_def sizes by simp
qed

lemma scan_keeps:
  assumes "minKeyLen \<le> length k" "disk_read (ds_fs s) k = Some (m, b)" "now \<le> serveableUntil m" "k \<in> set bodies"
    and "room s (k # ks)"
  shows "disk_read (ds_fs (scan_meta now bodies k s)) k = Some (m, b)"
proof -
  have f: "\<exists>t. ds_fs s (MetaP k) = Some (Json m, t)" "\<exists>t. ds_fs s (BodyP k) = Some (Bytes b, t)" "me_Size m = int (length b)"
    using assms(2) by (auto simp: disk_read_def split: if_splits option.splits content.splits)
  have "0 \<le> sum_list (map (listed_size (ds_fs s)) ks)" by (rule sum_list_nonneg) (auto simp: listed_size_nonneg)
  then have "lru_admit (ds_lru s) k (me_Size m) = (lru_push (ds_lru s) k (me_Size m), [])"
    using assms(2,5) f(3) by (intro admit_room(1)) (simp_all add: room_def disk_ok_def listed_size_def)
  then show ?thesis using f assms by (auto simp: scan_meta_def Let_def fs_run_def)
qed

lemma scan_metas_keep:
  assumes "minKeyLen \<le> length k" "now \<le> serveableUntil m"
  shows "room s (metas @ ks) \<Longrightarrow> disk_read (ds_fs s) k = Some (m, b) \<Longrightarrow> (k \<in> set metas \<Longrightarrow> k \<in> set bodies) \<Longrightarrow>
    list_all (\<lambda>x. minKeyLen \<le> length x) metas \<Longrightarrow>
    room (fold (scan_meta now bodies) metas s) ks \<and> disk_read (ds_fs (fold (scan_meta now bodies) metas s)) k = Some (m, b)"
proof (induction metas arbitrary: s)
  case (Cons x metas)
  have x: "room s (x # (metas @ ks))" "minKeyLen \<le> length x" using Cons.prems by simp_all
  have "disk_read (ds_fs (scan_meta now bodies x s)) k = Some (m, b)"
    using scan_meta_room(2) [OF x] scan_keeps [OF assms(1) Cons.prems(2) assms(2)] Cons.prems x(1) by (cases "k = x") auto
  then show ?case using Cons.IH [OF scan_meta_room(1) [OF x]] Cons.prems by simp
qed simp

lemma room_reap: "room s ks \<Longrightarrow> room (reap_path now p s) ks"
proof -
  assume r: "room s ks"
  have "listed_size (ds_fs (reap_path now p s)) x \<le> listed_size (ds_fs s) x" for x
    using reap_read [of now p s x] listed_size_nonneg [of "ds_fs s" x] by (auto simp: listed_size_def)
  then have "sum_list (map (listed_size (ds_fs (reap_path now p s))) ks) \<le> sum_list (map (listed_size (ds_fs s)) ks)"
    by (rule sum_list_mono)
  then show ?thesis using r by (simp add: room_def disk_ok_def)
qed

lemma reaps_keep:
  "room s ks \<Longrightarrow> disk_read (ds_fs s) k = x \<Longrightarrow> MetaP k \<notin> set ps \<Longrightarrow> BodyP k \<notin> set ps \<Longrightarrow>
     room (fold (reap_path now) ps s) ks \<and> disk_read (ds_fs (fold (reap_path now) ps s)) k = x"
proof (induction ps arbitrary: s)
  case (Cons p ps)
  then show ?case using room_reap reap_other [of p k now s] by auto
qed simp

lemma fold_reap_map: "fold (\<lambda>x. reap_path now (f x)) xs s = fold (reap_path now) (map f xs) s"
  by (simp add: fold_map comp_def)

text \<open>A listing agrees with itself on \<open>k\<close>: a shard lists both of its files or neither.\<close>

definition lists_whole :: "string \<Rightarrow> (string list \<times> string list) list \<Rightarrow> bool" where
  "lists_whole k shards \<longleftrightarrow> list_all (\<lambda>(bodies, metas). (k \<in> set bodies) = (k \<in> set metas)) shards"

lemma scan_shards_keep:
  assumes "minKeyLen \<le> length k" "now \<le> serveableUntil m"
  shows "room s (concat (map snd shards)) \<Longrightarrow> disk_read (ds_fs s) k = Some (m, b) \<Longrightarrow> lists_whole k shards \<Longrightarrow>
    list_all (\<lambda>x. minKeyLen \<le> length x) (concat (map snd shards)) \<Longrightarrow>
    disk_read (ds_fs (fold (scan_shard now) shards s)) k = Some (m, b)"
proof (induction shards arbitrary: s)
  case (Cons sh shards)
  obtain bodies metas where sh: "sh = (bodies, metas)" by fastforce
  let ?s1 = "fold (scan_meta now bodies) metas s"
  have w: "(k \<in> set bodies) = (k \<in> set metas)" using Cons.prems(3) sh by (simp add: lists_whole_def)
  have 1: "room ?s1 (concat (map snd shards)) \<and> disk_read (ds_fs ?s1) k = Some (m, b)"
  proof (rule scan_metas_keep [OF assms])
    show "room s (metas @ concat (map snd shards))" using Cons.prems(1) sh by simp
    show "disk_read (ds_fs s) k = Some (m, b)" by (rule Cons.prems(2))
    show "k \<in> set metas \<Longrightarrow> k \<in> set bodies" using w by blast
    show "list_all (\<lambda>x. minKeyLen \<le> length x) metas" using Cons.prems(4) sh by simp
  qed
  let ?orphans = "map BodyP (filter (\<lambda>k. k \<notin> set metas) bodies)"
  have "room (fold (reap_path now) ?orphans ?s1) (concat (map snd shards)) \<and>
      disk_read (ds_fs (fold (reap_path now) ?orphans ?s1)) k = Some (m, b)"
    by (rule reaps_keep [OF conjunct1 [OF 1] conjunct2 [OF 1]]) (use w in auto)
  then have "room (scan_shard now sh s) (concat (map snd shards)) \<and> disk_read (ds_fs (scan_shard now sh s)) k = Some (m, b)"
    unfolding scan_shard_def sh prod.case fold_reap_map [of now BodyP] by blast
  moreover have "lists_whole k shards" "list_all (\<lambda>x. minKeyLen \<le> length x) (concat (map snd shards))"
    using Cons.prems(3,4) by (simp_all add: lists_whole_def)
  ultimately show ?case using Cons.IH [of "scan_shard now sh s"] by simp
qed simp

section \<open>Properties\<close>




text \<open>An entry in place, and a commit of another body of the same length to the same key.\<close>

definition torn_fs :: fs where
  "torn_fs = [MetaP ''aa'' \<mapsto> (Json ((plain_meta 3)\<lparr>me_Status := 404\<rparr>), 0), BodyP ''aa'' \<mapsto> (Bytes ''old'', 0),
     TmpP ''t'' \<mapsto> (Bytes ''new'', 9)]"


text \<open>The pairing of old metadata with a new body does occur: a reader between the two renames, or after a
  crash there, gets the old status with the new bytes.\<close>

theorem disk_torn_same_size:
  "\<exists>ops m. commit_ops io_fine Some ''aa'' (TmpP ''t'') (TmpP ''u'') (plain_meta 3) = (ops, True) \<and>
     disk_read (fs_run 9 (take 1 ops) torn_fs) ''aa'' = Some (m, ''new'') \<and> me_Status m = 404 \<and>
     me_Status (plain_meta 3) = 200"
  by (simp add: commit_ops_def io_fine_def atomicWriteRename_def fs_run_def torn_fs_def disk_read_def minKeyLen_def plain_meta_def)

text \<open>The startup scan never removes what may still be served: with room for the listed entries, a complete
  entry within its freshness or a stale window stays readable, however old its files are.\<close>

theorem disk_scan_spares_serveable:
  assumes "minKeyLen \<le> length k" "disk_read fs k = Some (m, b)" "now \<le> serveableUntil m" "lists_whole k shards"
    and "distinct (concat (map snd shards))" "list_all (\<lambda>x. minKeyLen \<le> length x) (concat (map snd shards))"
    and "sum_list (map (listed_size fs) (concat (map snd shards))) \<le> mx" "0 \<le> mx"
  shows "disk_read (ds_fs (disk_scan now tmps shards (NewDisk fs mx))) k = Some (m, b)"
proof -
  let ?s = "NewDisk fs mx"
  let ?tmps = "map TmpP tmps"
  have "room ?s (concat (map snd shards))"
    using assms(5,7) NewDisk_ok [OF assms(8)] by (simp add: room_def NewDisk_def newLRU_def keys_def)
  moreover have "disk_read (ds_fs ?s) k = Some (m, b)" using assms(2) by (simp add: NewDisk_def)
  ultimately have "room (fold (reap_path now) ?tmps ?s) (concat (map snd shards)) \<and>
      disk_read (ds_fs (fold (reap_path now) ?tmps ?s)) k = Some (m, b)"
    by (intro reaps_keep) auto
  then show ?thesis
    unfolding disk_scan_def fold_reap_map [of now TmpP] using scan_shards_keep [OF assms(1,3) _ _ assms(4,6)] by blast
qed

theorem disk_scan_spares_serveable_witness:
  "disk_read (ds_fs (disk_scan 0 [''t''] [([''aa''], [''aa''])] (NewDisk torn_fs 3))) ''aa'' =
     Some ((plain_meta 3)\<lparr>me_Status := 404\<rparr>, ''old'')"
proof -
  have r: "disk_read torn_fs ''aa'' = Some ((plain_meta 3)\<lparr>me_Status := 404\<rparr>, ''old'')"
    by (simp add: torn_fs_def disk_read_def minKeyLen_def plain_meta_def)
  show ?thesis
    by (rule disk_scan_spares_serveable [OF _ r])
      (simp_all add: minKeyLen_def serveableUntil_def plain_meta_def lists_whole_def listed_size_def r)
qed

end
