(* ===== verification/Middleware.thy ===== *)
theory Middleware
  imports Go_Http
begin

text \<open>
  Middlewares and how they compose (\<^verbatim>\<open>middleware.go\<close>, \<^verbatim>\<open>handler.go\<close>), the conditional block
  (\<^verbatim>\<open>pkg/block\<close>), the location matchers (\<^verbatim>\<open>pkg/location\<close>), prefix stripping and the redirects. A
  matcher that panics is \<^term>\<open>None\<close>, and its handler panics.
\<close>

type_synonym Middleware = "Handler \<Rightarrow> Handler"

section \<open>Chains\<close>

text \<open>\<^verbatim>\<open>Use\<close> ignores nil.\<close>

definition Use :: "Middleware option \<Rightarrow> Middleware list \<Rightarrow> Middleware list" where
  "Use m ms = (case m of None \<Rightarrow> ms | Some f \<Rightarrow> ms @ [f])"

text \<open>The loop wraps from the last middleware to the first.\<close>

fun Middlewares_loop :: "Middleware list \<Rightarrow> nat \<Rightarrow> Handler \<Rightarrow> Handler" where
  "Middlewares_loop ms 0 h = h"
| "Middlewares_loop ms (Suc i) h = Middlewares_loop ms i ((ms ! i) h)"

definition Middlewares_ServeHandler :: "Middleware list \<Rightarrow> Middleware" where
  "Middlewares_ServeHandler ms h = Middlewares_loop ms (length ms) h"

text \<open>A \<^verbatim>\<open>Handler\<close> ends the chain.\<close>

definition Handler_ServeHandler :: "Handler \<Rightarrow> Middleware" where
  "Handler_ServeHandler f h = f"

record Cond =
  cond_If :: "HttpRequest \<Rightarrow> bool"
  cond_Then :: Middleware
  cond_Else :: "Middleware option"

definition Cond_ServeHandler :: "Cond \<Rightarrow> Middleware" where
  "Cond_ServeHandler m h =
     (let thenh = cond_Then m h;
          elseh = (case cond_Else m of None \<Rightarrow> h | Some e \<Rightarrow> e h)
      in (\<lambda>r. if cond_If m r then thenh r else elseh r))"

lemma Middlewares_loop_take: "i \<le> length ms \<Longrightarrow> Middlewares_loop ms i h = foldr (\<lambda>m. m) (take i ms) h"
  by (induction ms i h rule: Middlewares_loop.induct) (auto simp: take_Suc_conv_app_nth)

lemma Middlewares_foldr: "Middlewares_ServeHandler ms h = foldr (\<lambda>m. m) ms h"
  by (simp add: Middlewares_ServeHandler_def Middlewares_loop_take)

lemma Middlewares_Nil [simp]: "Middlewares_ServeHandler [] h = h"
  by (simp add: Middlewares_foldr)

lemma Middlewares_Cons [simp]: "Middlewares_ServeHandler (m # ms) h = m (Middlewares_ServeHandler ms h)"
  by (simp add: Middlewares_foldr)

lemma Middlewares_append [simp]:
  "Middlewares_ServeHandler (ms @ ns) h = Middlewares_ServeHandler ms (Middlewares_ServeHandler ns h)"
  by (simp add: Middlewares_foldr)

lemma Middlewares_Use [simp]:
  "Middlewares_ServeHandler (Use m ms) h = Middlewares_ServeHandler ms (case m of None \<Rightarrow> h | Some f \<Rightarrow> f h)"
  by (simp add: Use_def split: option.split)

section \<open>Blocks\<close>

definition NotFound :: Handler where
  "NotFound r = http_Error ''404 page not found'' 404"

record Block =
  blk_Match :: "(HttpRequest \<Rightarrow> bool option) option"
  blk_ms :: "Middleware list"

definition block_New :: "(HttpRequest \<Rightarrow> bool option) option \<Rightarrow> Block" where
  "block_New match = \<lparr>blk_Match = match, blk_ms = []\<rparr>"

definition block_Use :: "Middleware option \<Rightarrow> Block \<Rightarrow> Block" where
  "block_Use m b = b\<lparr>blk_ms := Use m (blk_ms b)\<rparr>"

definition block_ServeHandler :: "Block \<Rightarrow> Middleware" where
  "block_ServeHandler b h =
     (let inner = Middlewares_ServeHandler (blk_ms b) NotFound
      in case blk_Match b of
           None \<Rightarrow> inner
         | Some match \<Rightarrow> (\<lambda>r. case match r of None \<Rightarrow> [Panic] | Some True \<Rightarrow> inner r | Some False \<Rightarrow> h r))"

section \<open>Locations\<close>

definition location_Exact :: "string \<Rightarrow> Block" where
  "location_Exact pattern = block_New (Some (\<lambda>r. Some (hr_Path r = pattern)))"

definition prefix_match :: "string \<Rightarrow> string \<Rightarrow> bool" where
  "prefix_match pattern p =
     (if \<not> HasPrefix p pattern then False
      else if length p = length pattern then True
      else if pattern ! (length pattern - 1) = CHR ''/'' then True
      else p ! length pattern = CHR ''/'')"

definition location_Prefix :: "string \<Rightarrow> Block" where
  "location_Prefix pattern =
     (if pattern = '''' then block_New None else block_New (Some (\<lambda>r. Some (prefix_match pattern (hr_Path r)))))"

text \<open>
  \<^verbatim>\<open>regexp.MustCompile\<close> is a parameter: the compiled matcher, or \<^term>\<open>None\<close> when the pattern does not
  compile, which panics at setup.
\<close>

definition location_RegExp :: "(string \<Rightarrow> (string \<Rightarrow> bool) option) \<Rightarrow> string \<Rightarrow> Block option" where
  "location_RegExp compile pattern =
     (if pattern = '''' then Some (block_New None)
      else case compile pattern of
             None \<Rightarrow> None
           | Some re \<Rightarrow> Some (block_New (Some (\<lambda>r. Some (re (hr_Path r))))))"

section \<open>Stripping a prefix\<close>

text \<open>\<^verbatim>\<open>http.StripPrefix\<close>, which the middleware hands its prefix to.\<close>

definition http_StripPrefix :: "string \<Rightarrow> Middleware" where
  "http_StripPrefix prefix h =
     (if prefix = '''' then h
      else (\<lambda>r. let p = TrimPrefix (hr_Path r) prefix; rp = TrimPrefix (hr_RawPath r) prefix
                in if length p < length (hr_Path r) \<and> (hr_RawPath r = '''' \<or> length rp < length (hr_RawPath r))
                   then h (r\<lparr>hr_Path := p, hr_RawPath := rp\<rparr>) else NotFound r))"

definition StripPrefix_ServeHandler :: "string \<Rightarrow> Middleware" where
  "StripPrefix_ServeHandler prefix h = http_StripPrefix prefix h"

section \<open>Redirects\<close>

text \<open>
  \<^verbatim>\<open>http.Redirect\<close> to a target that has a scheme: the target is the location as it stands, and a GET or
  HEAD whose handler has set no content type gets a body for people to read, which is left out here.
\<close>

definition http_Redirect :: "string \<Rightarrow> int \<Rightarrow> wop list" where
  "http_Redirect url code = [HSet ''Location'' url, WriteHeader code]"

definition redirect_status :: "int \<Rightarrow> int" where
  "redirect_status code = (if code \<le> 0 then 301 else code)"

definition header_Get_raw :: "Header \<Rightarrow> string \<Rightarrow> string" where
  "header_Get_raw h key = (case h key of Some (v # _) \<Rightarrow> v | _ \<Rightarrow> '''')"

definition HTTPS_ServeHandler :: "int \<Rightarrow> Middleware" where
  "HTTPS_ServeHandler code h r =
     (if header_Get_raw (hr_Header r) ''X-Forwarded-Proto'' = ''http''
      then http_Redirect (''https://'' @ hr_Host r @ hr_URI r) (redirect_status code) else h r)"

definition NonWWW_ServeHandler :: "int \<Rightarrow> Middleware" where
  "NonWWW_ServeHandler code h r =
     (let host = TrimPrefix (hr_Host r) ''www.''
      in if length host < length (hr_Host r)
         then http_Redirect (header_Get_raw (hr_Header r) ''X-Forwarded-Proto'' @ ''://'' @ host @ hr_URI r)
                (redirect_status code)
         else h r)"

definition WWW_ServeHandler :: "int \<Rightarrow> Middleware" where
  "WWW_ServeHandler code h r =
     (if \<not> HasPrefix (hr_Host r) ''www.''
      then http_Redirect (header_Get_raw (hr_Header r) ''X-Forwarded-Proto'' @ ''://www.'' @ hr_Host r @ hr_URI r)
             (redirect_status code)
      else h r)"

definition To_ServeHandler :: "string \<Rightarrow> int \<Rightarrow> Middleware" where
  "To_ServeHandler target code h r = http_Redirect target (redirect_status code)"

section \<open>Matching on segment boundaries\<close>

lemma split_on_HasPrefix:
  "c \<notin> set x \<Longrightarrow> HasPrefix (split_on c (x @ y)) (split_on c x) \<longleftrightarrow> y = [] \<or> (\<exists>t. y = c # t)"
proof (induction x)
  case Nil
  then show ?case
    by (cases y) (auto split: list.split)
next
  case (Cons a x)
  then show ?case
    by (auto simp: split_on_id split: list.splits)
qed

lemma split_on_append_HasPrefix:
  "HasPrefix (split_on c (x @ y)) (split_on c x) \<longleftrightarrow> y = [] \<or> (\<exists>t. y = c # t)"
proof (induction "length x" arbitrary: x rule: less_induct)
  case less
  show ?case
  proof (cases "c \<in> set x")
    case True
    then obtain a b where x: "x = a @ c # b" "c \<notin> set a"
      by (meson split_list_first)
    then have "length b < length x" by simp
    from less [OF this] show ?thesis
      using x by (simp add: split_on_app)
  qed (rule split_on_HasPrefix)
qed

lemma join_with_append:
  "ss \<noteq> [] \<Longrightarrow> join_with c (ss @ a # s) = join_with c ss @ c # join_with c (a # s)"
proof (induction ss)
  case (Cons x ss)
  then show ?case by (cases "ss = []") (simp_all add: join_with_Cons)
qed simp

lemma split_on_HasPrefix_append:
  assumes "HasPrefix (split_on c p) (split_on c x)"
  shows "\<exists>y. p = x @ y"
proof -
  from assms obtain t where t: "split_on c p = split_on c x @ t"
    by (auto simp: HasPrefix_iff)
  have "p = join_with c (split_on c x @ t)"
    using join_split [of c p] t by simp
  then show ?thesis
    using join_split [of c x] split_on_not_Nil [of c x]
  proof (cases t)
    case (Cons a s)
    then show ?thesis
      using join_with_append [of _ c a s] \<open>p = join_with c (split_on c x @ t)\<close> Cons join_split [of c x] split_on_not_Nil [of c x] by metis
  qed simp
qed

lemma prefix_match_iff:
  assumes "pattern \<noteq> ''''" and "last pattern \<noteq> CHR ''/''"
  shows "prefix_match pattern p \<longleftrightarrow> p = pattern \<or> (\<exists>t. p = pattern @ CHR ''/'' # t)"
proof -
  have "pattern ! (length pattern - 1) \<noteq> CHR ''/''"
    using assms by (simp add: last_conv_nth)
  then show ?thesis
    by (auto simp: prefix_match_def HasPrefix_iff nth_append neq_Nil_conv split: if_splits)
qed

lemma segments_prefix_iff:
  "HasPrefix (split_on c p) (split_on c pattern) \<longleftrightarrow> p = pattern \<or> (\<exists>t. p = pattern @ c # t)"
  using split_on_HasPrefix_append [of c p pattern] split_on_append_HasPrefix [of c pattern]
  by (metis append_Nil2)

text \<open>
  A location prefix that does not end in a slash matches exactly the paths whose segments start with
  its segments; any other request passes the block untouched.
\<close>

theorem location_prefix_segments:
  assumes "pattern \<noteq> ''''" and "last pattern \<noteq> CHR ''/''"
  shows "block_ServeHandler ((location_Prefix pattern)\<lparr>blk_ms := ms\<rparr>) h r =
     (if HasPrefix (split_on CHR ''/'' (hr_Path r)) (split_on CHR ''/'' pattern)
      then Middlewares_ServeHandler ms NotFound r else h r)"
  using assms
  by (simp add: location_Prefix_def block_ServeHandler_def block_New_def prefix_match_iff segments_prefix_iff)


text \<open>
  On its own, the prefix stripper answers 404 to a path without the prefix, where its example says that
  such requests pass unchanged.
\<close>

lemma strip_prefix_refuses_others:
  "pattern \<noteq> '''' \<Longrightarrow> \<not> HasPrefix (hr_Path r) pattern \<Longrightarrow> StripPrefix_ServeHandler pattern h r = NotFound r"
  by (simp add: StripPrefix_ServeHandler_def http_StripPrefix_def TrimPrefix_def)

text \<open>A GET from a client.\<close>

definition get_from :: "string \<Rightarrow> string \<Rightarrow> HttpRequest" where
  "get_from addr path = \<lparr>hr_Method = ''GET'', hr_Host = ''example.com'', hr_Path = path, hr_RawPath = '''',
     hr_RawQuery = '''', hr_URI = path, hr_Header = Map.empty, hr_TLS = False, hr_RemoteAddr = addr\<rparr>"


section \<open>Redirects settle\<close>

text \<open>
  Following the redirect to the other host form is answered by the wrapped handler: once for adding
  \<^verbatim>\<open>www.\<close>, and after as many rounds as there are \<^verbatim>\<open>www.\<close> for removing it.
\<close>

lemma www_redirect_settles:
  "\<not> HasPrefix (hr_Host r) ''www.'' \<Longrightarrow>
     WWW_ServeHandler code h (r\<lparr>hr_Host := ''www.'' @ hr_Host r\<rparr>) = h (r\<lparr>hr_Host := ''www.'' @ hr_Host r\<rparr>)"
  by (simp add: WWW_ServeHandler_def)

lemma non_www_redirect_settles:
  "\<not> HasPrefix host ''www.'' \<Longrightarrow> NonWWW_ServeHandler code h (r\<lparr>hr_Host := host\<rparr>) = h (r\<lparr>hr_Host := host\<rparr>)"
  by (simp add: NonWWW_ServeHandler_def TrimPrefix_def)

end
