(* ===== verification/Host_Match.thy ===== *)
theory Host_Match
  imports Middleware
begin

text \<open>
  Virtual hosts (\<^verbatim>\<open>pkg/host\<close>): normalising the host of a request with its fast path, the matcher with
  wildcards, the CIDR matcher, and the two normalising middlewares. Lower-casing text that is not ASCII
  is a parameter \<^verbatim>\<open>u\<close>; an operation that panics gives \<^term>\<open>None\<close>.
\<close>

section \<open>Normalising\<close>

definition strings_ToLower :: "(string \<Rightarrow> string) \<Rightarrow> string \<Rightarrow> string" where
  "strings_ToLower u s = (if list_all (\<lambda>c. byte c < 128) s then ToLower s else u s)"

definition unwrap_host :: "string \<Rightarrow> string" where
  "unwrap_host h =
     (case SplitHostPort h of
        Some (host, _) \<Rightarrow> host
      | None \<Rightarrow> if hd h = CHR ''['' \<and> last h = CHR '']'' then take (length h - 2) (tl h) else h)"

text \<open>Cutting the last byte of an empty host panics.\<close>

definition normalizeHostSlow ::
  "(string \<Rightarrow> string) \<Rightarrow> string \<Rightarrow> bool \<Rightarrow> bool \<Rightarrow> bool \<Rightarrow> string option" where
  "normalizeHostSlow u h hasColon trailingDot needsLower =
     (let h1 = (if hasColon then unwrap_host h else h);
          dot = (if hasColon \<and> h1 \<noteq> '''' then last h1 = CHR ''.'' else trailingDot)
      in if dot \<and> h1 = '''' then None
         else let h2 = (if dot then butlast h1 else h1)
              in Some (if needsLower then strings_ToLower u h2 else h2))"

definition host_normalizeHost :: "(string \<Rightarrow> string) \<Rightarrow> string \<Rightarrow> string option" where
  "host_normalizeHost u h =
     (if h = '''' then Some h
      else let needsLower = list_ex (\<lambda>c. is_upper c \<or> 128 \<le> byte c) h;
               hasColon = list_ex (\<lambda>c. c = CHR '':'') h;
               trailingDot = (last h = CHR ''.'')
           in if \<not> needsLower \<and> \<not> hasColon \<and> \<not> trailingDot then Some h
              else normalizeHostSlow u h hasColon trailingDot needsLower)"

section \<open>Matching\<close>

function wildcard_loop :: "(string \<Rightarrow> bool) \<Rightarrow> string \<Rightarrow> bool" where
  "wildcard_loop hostMap h =
     (if h = '''' then False
      else let i = IndexByte h CHR ''.''
           in if i \<le> 0 then False
              else if hostMap (''*'' @ drop (nat i) h) then True
              else wildcard_loop hostMap (drop (nat i + 1) h))"
  by pat_completeness auto
termination
  by (relation "measure (\<lambda>(m, h). length h)") auto

declare wildcard_loop.simps [simp del]

definition host_match :: "(string \<Rightarrow> string) \<Rightarrow> string list \<Rightarrow> HttpRequest \<Rightarrow> bool option" where
  "host_match u hs r =
     (case host_normalizeHost u (hr_Host r) of
        None \<Rightarrow> None
      | Some h \<Rightarrow> Some (if h \<in> set hs then True else wildcard_loop (\<lambda>x. x \<in> set hs) h))"

definition host_New :: "(string \<Rightarrow> string) \<Rightarrow> string list \<Rightarrow> Block option" where
  "host_New u hosts =
     (case those (map (host_normalizeHost u) hosts) of
        None \<Rightarrow> None
      | Some hs \<Rightarrow> Some (
          if hosts = [] then block_New (Some (\<lambda>r. Some False))
          else if ''*'' \<in> set hs then block_New None
          else block_New (Some (host_match u hs))))"

text \<open>
  The CIDR matcher, over \<^verbatim>\<open>net.ParseCIDR\<close>, \<^verbatim>\<open>net.ParseIP\<close> and \<^verbatim>\<open>Contains\<close>; a network that does not
  parse panics at setup.
\<close>

definition cidr_match ::
  "(string \<Rightarrow> 'ip option) \<Rightarrow> ('n \<Rightarrow> 'ip \<Rightarrow> bool) \<Rightarrow> 'n list \<Rightarrow> HttpRequest \<Rightarrow> bool" where
  "cidr_match parseIP contains nets r =
     (let split = (case SplitHostPort (hr_Host r) of Some (h, _) \<Rightarrow> h | None \<Rightarrow> '''');
          requestHost = (if split = '''' then hr_Host r else split)
      in case parseIP requestHost of None \<Rightarrow> False | Some ip \<Rightarrow> list_ex (\<lambda>n. contains n ip) nets)"

definition NewCIDR ::
  "(string \<Rightarrow> 'n option) \<Rightarrow> (string \<Rightarrow> 'ip option) \<Rightarrow> ('n \<Rightarrow> 'ip \<Rightarrow> bool) \<Rightarrow> string list \<Rightarrow> Block option" where
  "NewCIDR parseCIDR parseIP contains pattern =
     (if pattern = [] then Some (block_New (Some (\<lambda>r. Some False)))
      else case those (map parseCIDR pattern) of
             None \<Rightarrow> None
           | Some nets \<Rightarrow> Some (block_New (Some (\<lambda>r. Some (cidr_match parseIP contains nets r)))))"

definition stripHostPort :: "string \<Rightarrow> string" where
  "stripHostPort h =
     (if CHR '':'' \<notin> set h then h
      else case SplitHostPort h of None \<Rightarrow> h | Some (host, _) \<Rightarrow> host)"

definition StripPort :: Middleware where
  "StripPort h r = h (r\<lparr>hr_Host := stripHostPort (hr_Host r)\<rparr>)"

definition host_ToLower :: "(string \<Rightarrow> string) \<Rightarrow> Middleware" where
  "host_ToLower u h r = h (r\<lparr>hr_Host := strings_ToLower u (hr_Host r)\<rparr>)"

section \<open>The fast path, and the panic\<close>

lemma SplitHostPort_colon: "SplitHostPort h = Some x \<Longrightarrow> CHR '':'' \<in> set h"
  by (auto simp: SplitHostPort_def last_index_def split: if_splits option.splits)

lemma ToLower_no_upper: "\<not> list_ex is_upper s \<Longrightarrow> ToLower s = s"
  by (induction s) (auto simp: ToLower_def lower_id)

lemma strings_ToLower_id:
  assumes "\<not> list_ex (\<lambda>c. is_upper c \<or> 128 \<le> byte c) s"
  shows "strings_ToLower u s = s"
  using assms by (auto simp: strings_ToLower_def list_ex_iff list_all_iff not_le ToLower_no_upper)

lemma SplitHostPort_subset: "SplitHostPort h = Some (host, port) \<Longrightarrow> set host \<subseteq> set h"
  by (auto simp: SplitHostPort_def Let_def split: option.splits if_splits
      dest!: in_set_takeD dest: list.set_sel(2) [rotated])

lemma unwrap_host_subset: "h \<noteq> '''' \<Longrightarrow> set (unwrap_host h) \<subseteq> set h"
  by (auto simp: unwrap_host_def dest: SplitHostPort_subset in_set_takeD list.set_sel(2) [rotated]
      split: option.splits if_splits)

lemma no_lower_subset:
  "\<not> list_ex P h \<Longrightarrow> set s \<subseteq> set h \<Longrightarrow> \<not> list_ex P s"
  by (auto simp: list_ex_iff)

lemma set_butlast_subset: "set (butlast s) \<subseteq> set s"
  by (auto dest: in_set_butlastD)

text \<open>
  The scan and its fast path change nothing: the result is that of splitting, cutting and lower-casing
  unconditionally.
\<close>

lemma normalize_fast_path:
  assumes "h \<noteq> ''''"
  shows "host_normalizeHost u h = normalizeHostSlow u h (CHR '':'' \<in> set h) (last h = CHR ''.'') True"
proof -
  let ?low = "\<lambda>c. is_upper c \<or> 128 \<le> byte c"
  have colon: "list_ex (\<lambda>c. c = CHR '':'') h \<longleftrightarrow> CHR '':'' \<in> set h"
    by (auto simp: list_ex_iff)
  have id: "strings_ToLower u s = s" if "\<not> list_ex ?low h" "set s \<subseteq> set h" for s
    using strings_ToLower_id no_lower_subset that by blast
  have "normalizeHostSlow u h c d True = normalizeHostSlow u h c d False" if "\<not> list_ex ?low h" for c d
    using id [OF that, of "''''"] id [OF that, of "unwrap_host h"] id [OF that, of "butlast (unwrap_host h)"] id [OF that, of h]
      id [OF that, of "butlast h"] unwrap_host_subset [OF assms] set_butlast_subset [of h]
      set_butlast_subset [of "unwrap_host h"]
    by (simp add: normalizeHostSlow_def Let_def subset_trans)
  moreover have "normalizeHostSlow u h False False False = Some h"
    using assms by (simp add: normalizeHostSlow_def)
  ultimately show ?thesis
    using assms by (cases "list_ex ?low h") (auto simp: host_normalizeHost_def colon Let_def)
qed

lemma unwrap_host_empty:
  assumes "CHR '':'' \<in> set h"
  shows "unwrap_host h = '''' \<longleftrightarrow> (\<exists>port. SplitHostPort h = Some ('''', port))"
proof (cases "SplitHostPort h")
  case None
  have "take (length h - 2) (tl h) \<noteq> ''''" if "hd h = CHR ''[''" "last h = CHR '']''"
  proof
    assume "take (length h - 2) (tl h) = ''''"
    then have "length h \<le> 2" by (cases h) auto
    then have "set h \<subseteq> {hd h, last h}"
      by (cases h; cases "tl h") auto
    with assms that show False by auto
  qed
  then show ?thesis
    using None assms by (auto simp: unwrap_host_def)
qed (auto simp: unwrap_host_def)

text \<open>
  The host of a request makes the matcher panic exactly when it ends in a dot and has an empty name
  before its port.
\<close>

theorem normalize_host_panics:
  "host_normalizeHost u h = None \<longleftrightarrow>
     h \<noteq> '''' \<and> last h = CHR ''.'' \<and> (\<exists>port. SplitHostPort h = Some ('''', port))"
proof (cases "h = ''''")
  case False
  then show ?thesis
    using unwrap_host_empty [of h] SplitHostPort_colon [of h]
    by (auto simp: normalize_fast_path normalizeHostSlow_def Let_def split: if_splits)
qed (simp add: host_normalizeHost_def)

lemma host_dot_port_panics:
  "host_New u [''example.com''] = Some b \<Longrightarrow>
     block_ServeHandler b h (r\<lparr>hr_Host := '':.''\<rparr>) = [Panic]"
proof -
  have "host_normalizeHost u '':.'' = None"
    by (simp add: normalize_host_panics SplitHostPort_def last_index_def)
  moreover have "host_normalizeHost u ''example.com'' = Some ''example.com''"
    by (simp add: host_normalizeHost_def is_upper_def byte_def)
  ultimately show "host_New u [''example.com''] = Some b \<Longrightarrow> ?thesis"
    by (auto simp: host_New_def block_New_def block_ServeHandler_def host_match_def)
qed

section \<open>Wildcards\<close>

lemma dot_split:
  assumes "CHR ''.'' \<in> set h"
  shows "\<exists>l t. h = l @ CHR ''.'' # t \<and> CHR ''.'' \<notin> set l \<and> IndexByte h CHR ''.'' = int (length l)"
proof -
  obtain l t where h: "h = l @ CHR ''.'' # t" "CHR ''.'' \<notin> set l"
    using assms by (meson split_list_first)
  have "takeWhile (\<lambda>x. x \<noteq> CHR ''.'') h = l"
    unfolding h(1) using h(2) by (subst takeWhile_append2) auto
  then show ?thesis
    using assms h by (metis IndexByte_def)
qed

lemma first_dot_cases:
  assumes "CHR ''.'' \<notin> set l" and "l @ CHR ''.'' # t = a @ CHR ''.'' # s"
  shows "a = l \<and> s = t \<or> (\<exists>b. a = l @ CHR ''.'' # b \<and> t = b @ CHR ''.'' # s)"
proof -
  obtain us where "(l = a @ us \<and> us @ CHR ''.'' # t = CHR ''.'' # s) \<or>
      (l @ us = a \<and> CHR ''.'' # t = us @ CHR ''.'' # s)"
    using assms(2) by (auto simp: append_eq_append_conv2)
  then show ?thesis
    using assms(1) by (cases us) auto
qed

text \<open>
  The loop finds a wildcard exactly when some way of cutting the host at a dot, with no empty label
  before it, has the rest among the wildcards.
\<close>

definition wildcard_spec :: "(string \<Rightarrow> bool) \<Rightarrow> string \<Rightarrow> bool" where
  "wildcard_spec M h \<longleftrightarrow> (\<exists>a s. h = a @ CHR ''.'' # s \<and> '''' \<notin> set (split_on CHR ''.'' a) \<and> M (''*.'' @ s))"

lemma wildcard_spec_step:
  assumes "CHR ''.'' \<notin> set l" and "l \<noteq> ''''"
  shows "wildcard_spec M (l @ CHR ''.'' # t) \<longleftrightarrow> M (''*.'' @ t) \<or> wildcard_spec M t"
proof
  assume "wildcard_spec M (l @ CHR ''.'' # t)"
  then obtain a s where a: "l @ CHR ''.'' # t = a @ CHR ''.'' # s" "'''' \<notin> set (split_on CHR ''.'' a)" "M (''*.'' @ s)"
    by (auto simp: wildcard_spec_def)
  from first_dot_cases [OF assms(1) a(1)] show "M (''*.'' @ t) \<or> wildcard_spec M t"
  proof
    assume "a = l \<and> s = t"
    with a(3) show ?thesis by simp
  next
    assume "\<exists>b. a = l @ CHR ''.'' # b \<and> t = b @ CHR ''.'' # s"
    then show ?thesis
      using a(2,3) assms(1) unfolding wildcard_spec_def by (metis list.set_intros(2) split_on_app)
  qed
next
  assume "M (''*.'' @ t) \<or> wildcard_spec M t"
  then show "wildcard_spec M (l @ CHR ''.'' # t)"
  proof
    assume "M (''*.'' @ t)"
    then show ?thesis
      using assms unfolding wildcard_spec_def
      by (intro exI [of _ l] exI [of _ t]) (simp add: split_on_id)
  next
    assume "wildcard_spec M t"
    then obtain a s where "t = a @ CHR ''.'' # s" "'''' \<notin> set (split_on CHR ''.'' a)" "M (''*.'' @ s)"
      by (auto simp: wildcard_spec_def)
    then show ?thesis
      using assms unfolding wildcard_spec_def
      by (intro exI [of _ "l @ CHR ''.'' # a"] exI [of _ s]) (simp add: split_on_app)
  qed
qed

lemma wildcard_spec_none:
  "CHR ''.'' \<notin> set h \<or> hd h = CHR ''.'' \<Longrightarrow> \<not> wildcard_spec M h"
proof
  assume h: "CHR ''.'' \<notin> set h \<or> hd h = CHR ''.''" and "wildcard_spec M h"
  then obtain a s where "h = a @ CHR ''.'' # s" "'''' \<notin> set (split_on CHR ''.'' a)"
    by (auto simp: wildcard_spec_def)
  with h show False by (cases a) (auto split: list.splits)
qed

lemma wildcard_loop_spec: "wildcard_loop M h = wildcard_spec M h"
proof (induction "length h" arbitrary: h rule: less_induct)
  case less
  show ?case
  proof (cases "CHR ''.'' \<in> set h")
    case True
    then obtain l t where h: "h = l @ CHR ''.'' # t" "CHR ''.'' \<notin> set l" "IndexByte h CHR ''.'' = int (length l)"
      using dot_split by blast
    have "length t < length h" using h(1) by simp
    note IH = less [OF this]
    show ?thesis
    proof (cases "l = ''''")
      case True
      then show ?thesis
        using h wildcard_spec_none [of h M] by (subst wildcard_loop.simps) (simp add: Let_def)
    next
      case False
      then show ?thesis
        using h wildcard_spec_step [OF h(2) False, of M t] IH
        by (subst wildcard_loop.simps) (simp add: Let_def)
    qed
  next
    case False
    then show ?thesis
      using wildcard_spec_none [of h M] by (subst wildcard_loop.simps) (simp add: Let_def IndexByte_def)
  qed
qed

text \<open>
  C26. Which requests a host block takes: those whose normalised host is one of its names, or has one of its
  wildcards after a dot that no empty label precedes. A lone star takes every request.
\<close>

theorem host_routes:
  assumes "those (map (host_normalizeHost u) hosts) = Some hs" and "hosts \<noteq> []"
    and "host_normalizeHost u (hr_Host r) = Some h"
  shows "\<exists>b. host_New u hosts = Some b \<and>
    block_ServeHandler (b\<lparr>blk_ms := ms\<rparr>) other r =
      (if ''*'' \<in> set hs \<or> h \<in> set hs \<or>
          (\<exists>a s. h = a @ CHR ''.'' # s \<and> '''' \<notin> set (split_on CHR ''.'' a) \<and> ''*.'' @ s \<in> set hs)
       then Middlewares_ServeHandler ms NotFound r else other r)"
  using assms wildcard_loop_spec [of "\<lambda>x. x \<in> set hs" h]
  by (cases "wildcard_loop (\<lambda>x. x \<in> set hs) h")
    (auto simp: host_New_def block_New_def block_ServeHandler_def host_match_def wildcard_spec_def)

theorem host_routes_witness:
  "\<exists>b. host_New id [''*.Example.com:443''] = Some b \<and>
     block_ServeHandler (b\<lparr>blk_ms := [\<lambda>_ _. [Flush]]\<rparr>) NotFound ((get_from '''' ''/'')\<lparr>hr_Host := ''A.b.example.com.''\<rparr>) = [Flush]"
proof -
  have n: "those (map (host_normalizeHost id) [''*.Example.com:443'']) = Some [''*.example.com'']"
    "host_normalizeHost id (hr_Host ((get_from '''' ''/'')\<lparr>hr_Host := ''A.b.example.com.''\<rparr>)) = Some ''a.b.example.com''"
    by code_simp+
  have "''a.b.example.com'' = ''a.b'' @ CHR ''.'' # ''example.com'' \<and> '''' \<notin> set (split_on CHR ''.'' ''a.b'') \<and>
      ''*.'' @ ''example.com'' \<in> set [''*.example.com'']"
    by simp
  then have "\<exists>a s. ''a.b.example.com'' = a @ CHR ''.'' # s \<and> '''' \<notin> set (split_on CHR ''.'' a) \<and>
      ''*.'' @ s \<in> set [''*.example.com'']"
    by blast
  then show ?thesis
    using host_routes [OF n(1) _ n(2), of "[\<lambda>_ _. [Flush]]" NotFound]
    by (simp only: simp_thms if_True Middlewares_Cons Middlewares_Nil not_Cons_self list.distinct)
qed

end
