(* ===== verification/Edge_Proxy.thy ===== *)
theory Edge_Proxy
  imports Host_Match
begin

text \<open>
  What the server's edge does to the headers of a request (\<^verbatim>\<open>proxy.go\<close>): trusting or replacing the
  forwarding headers, and what reads them afterwards, the client key of the rate limiter, the client
  address of the firewall and the load balancer header. The helpers of \<^verbatim>\<open>pkg/header\<close> take keys in
  canonical form. \<^verbatim>\<open>net.ParseIP\<close>, \<^verbatim>\<open>net.ParseCIDR\<close> and \<^verbatim>\<open>Contains\<close> are parameters.
\<close>

section \<open>The header helpers\<close>

definition header_vals :: "Header \<Rightarrow> string \<Rightarrow> string list" where
  "header_vals h key = (case h key of None \<Rightarrow> [] | Some vs \<Rightarrow> vs)"

definition AddIfNotExists :: "Header \<Rightarrow> string \<Rightarrow> string \<Rightarrow> Header" where
  "AddIfNotExists h key v = (if v \<in> set (header_vals h key) then h else h(key \<mapsto> header_vals h key @ [v]))"

definition header_Exists :: "Header \<Rightarrow> string \<Rightarrow> bool" where
  "header_Exists h key = (case header_vals h key of [] \<Rightarrow> False | v # _ \<Rightarrow> v \<noteq> '''')"

definition header_Set_raw :: "Header \<Rightarrow> string \<Rightarrow> string \<Rightarrow> Header" where
  "header_Set_raw h key v = h(key \<mapsto> [v])"

definition header_Add_raw :: "Header \<Rightarrow> string \<Rightarrow> string \<Rightarrow> Header" where
  "header_Add_raw h key v = h(key \<mapsto> header_vals h key @ [v])"

definition header_Del_raw :: "Header \<Rightarrow> string \<Rightarrow> Header" where
  "header_Del_raw h key = h(key := None)"

section \<open>Trust\<close>

definition parseHost :: "string \<Rightarrow> string" where
  "parseHost s = (case SplitHostPort s of None \<Rightarrow> '''' | Some (host, _) \<Rightarrow> host)"

definition headerFirst :: "Header \<Rightarrow> string \<Rightarrow> string" where
  "headerFirst h key = (case header_vals h key of [] \<Rightarrow> '''' | v # _ \<Rightarrow> v)"

definition firstHost :: "string \<Rightarrow> string" where
  "firstHost s = TrimSpace (let i = IndexByte s CHR '','' in if 0 \<le> i then take (nat i) s else s)"

definition parseCIDRs :: "(string \<Rightarrow> 'n option) \<Rightarrow> string list \<Rightarrow> 'n list option" where
  "parseCIDRs parseCIDR xs = those (map parseCIDR xs)"

definition TrustCIDRs ::
  "(string \<Rightarrow> 'n option) \<Rightarrow> (string \<Rightarrow> 'ip option) \<Rightarrow> ('n \<Rightarrow> 'ip \<Rightarrow> bool) \<Rightarrow> string list
     \<Rightarrow> (HttpRequest \<Rightarrow> bool) option" where
  "TrustCIDRs parseCIDR parseIP contains s =
     (case parseCIDRs parseCIDR s of
        None \<Rightarrow> None
      | Some trust \<Rightarrow> Some (
          if trust = [] then (\<lambda>r. False)
          else (\<lambda>r. case parseIP (parseHost (hr_RemoteAddr r)) of
                      None \<Rightarrow> False
                    | Some ip \<Rightarrow> list_ex (\<lambda>n. contains n ip) trust)))"

definition Trusted :: "HttpRequest \<Rightarrow> bool" where
  "Trusted r = True"

record proxy =
  px_Trust :: "(HttpRequest \<Rightarrow> bool) option"
  px_ComputeFullForwardedFor :: bool
  px_shareProtoSlice :: bool

definition protoValue :: "proxy \<Rightarrow> bool \<Rightarrow> string list" where
  "protoValue m isTLS =
     (if px_shareProtoSlice m then (if isTLS then [''https''] else [''http''])
      else if isTLS then [''https''] else [''http''])"

definition XFF :: string where "XFF = ''X-Forwarded-For''"

definition XFP :: string where "XFP = ''X-Forwarded-Proto''"

definition XRI :: string where "XRI = ''X-Real-Ip''"

definition trust_headers :: "proxy \<Rightarrow> HttpRequest \<Rightarrow> Header" where
  "trust_headers m r =
     (let h0 = hr_Header r;
          remoteIP = parseHost (hr_RemoteAddr r);
          h1 = (if px_ComputeFullForwardedFor m
                then (let p = headerFirst h0 XFF
                      in if p = '''' then h0(XFF \<mapsto> [remoteIP]) else h0(XFF \<mapsto> [p @ '', '' @ remoteIP]))
                else h0);
          h2 = (if headerFirst h1 XRI = '''' then h1(XRI \<mapsto> [firstHost (headerFirst h1 XFF)]) else h1)
      in if headerFirst h2 XFP = '''' then h2(XFP \<mapsto> protoValue m (hr_TLS r)) else h2)"

definition distrust_headers :: "proxy \<Rightarrow> HttpRequest \<Rightarrow> Header" where
  "distrust_headers m r =
     (let remoteIP = parseHost (hr_RemoteAddr r)
      in (hr_Header r)(XFF \<mapsto> [remoteIP], XRI \<mapsto> [remoteIP], XFP \<mapsto> protoValue m (hr_TLS r)))"

definition proxy_ServeHTTP :: "proxy \<Rightarrow> Middleware" where
  "proxy_ServeHTTP m h r =
     (case px_Trust m of
        None \<Rightarrow> h (r\<lparr>hr_Header := distrust_headers m r\<rparr>)
      | Some t \<Rightarrow> if t r then h (r\<lparr>hr_Header := trust_headers m r\<rparr>)
                  else h (r\<lparr>hr_Header := distrust_headers m r\<rparr>))"

section \<open>Who the client is\<close>

text \<open>
  The rate limiter's key (\<^verbatim>\<open>ratelimit.ClientIP\<close>): the bytes of the address, or the header as it stands
  when it is no address; and the firewall's client address (\<^verbatim>\<open>waf.clientIP\<close>).
\<close>

definition ratelimit_ClientIP :: "(string \<Rightarrow> string option) \<Rightarrow> HttpRequest \<Rightarrow> string" where
  "ratelimit_ClientIP ipBytes r =
     (let ipStr = headerFirst (hr_Header r) XRI
      in case ipBytes ipStr of None \<Rightarrow> ipStr | Some ip \<Rightarrow> ip)"

definition waf_clientIP :: "HttpRequest \<Rightarrow> string" where
  "waf_clientIP r =
     (let v = headerFirst (hr_Header r) XRI; f = headerFirst (hr_Header r) XFF
      in if v \<noteq> '''' then v
         else if f \<noteq> '''' then
           (let i = IndexByte f CHR '','' in if 0 < i then TrimSpace (take (nat i) f) else f)
         else case SplitHostPort (hr_RemoteAddr r) of None \<Rightarrow> hr_RemoteAddr r | Some (host, _) \<Rightarrow> host)"

text \<open>The entry of the forwarding chain a load balancer in front of the proxies added.\<close>

definition HLBImmediateIP :: "int \<Rightarrow> Header \<Rightarrow> Header" where
  "HLBImmediateIP proxy h =
     (let p = nat proxy; xff = header_Get h ''X-Forwarded-For''; xs = split_on CHR '','' xff
      in if xff = '''' then h
         else if length xs < 2 + p then h
         else header_Set h ''X-Real-Ip'' (TrimSpace (xs ! (length xs - 2 - p))))"

section \<open>Untrusted clients\<close>

lemmas edge_keys = XFF_def XFP_def XRI_def

lemma header_vals_upd [simp]: "header_vals (h(k \<mapsto> vs)) k' = (if k' = k then vs else header_vals h k')"
  by (simp add: header_vals_def)

lemma headerFirst_upd [simp]: "headerFirst (h(k \<mapsto> [v])) k' = (if k' = k then v else headerFirst h k')"
  by (simp add: headerFirst_def)

lemma distrust_headers_canonical:
  assumes "\<And>k. k \<notin> {XFF, XRI, XFP} \<Longrightarrow> h' k = hr_Header r k"
  shows "distrust_headers m (r\<lparr>hr_Header := h'\<rparr>) = distrust_headers m r"
  using assms by (auto simp: distrust_headers_def Let_def)

lemma TrustCIDRs_remote_only:
  "TrustCIDRs parseCIDR parseIP contains cidrs = Some t \<Longrightarrow> t (r\<lparr>hr_Header := h'\<rparr>) = t r"
  by (auto simp: TrustCIDRs_def split: option.splits if_splits)

text \<open>
  C5. Behind a server that trusts some networks, a client outside them cannot choose who it is: whatever
  forwarding headers it sends, the chain sees one and the same request, and both the rate limiter and
  the firewall take the address of its connection.
\<close>

theorem untrusted_client_pinned:
  assumes "TrustCIDRs parseCIDR parseIP contains cidrs = Some t" and "\<not> t r"
    and "px_Trust m = Some t" and "parseHost (hr_RemoteAddr r) = ip" and "ip \<noteq> ''''"
  shows "\<exists>r'. (\<forall>h'. (\<forall>k. k \<notin> {XFF, XRI, XFP} \<longrightarrow> h' k = hr_Header r k) \<longrightarrow>
        (\<forall>h. proxy_ServeHTTP m h (r\<lparr>hr_Header := h'\<rparr>) = h r')) \<and>
      ratelimit_ClientIP ipBytes r' = (case ipBytes ip of None \<Rightarrow> ip | Some b \<Rightarrow> b) \<and>
      waf_clientIP r' = ip"
proof (rule exI [of _ "r\<lparr>hr_Header := distrust_headers m r\<rparr>"], intro conjI allI impI)
  let ?r = "r\<lparr>hr_Header := distrust_headers m r\<rparr>"
  have "headerFirst (distrust_headers m r) XRI = ip"
    using assms(4) by (simp add: distrust_headers_def edge_keys headerFirst_def)
  then show "ratelimit_ClientIP ipBytes ?r = (case ipBytes ip of None \<Rightarrow> ip | Some b \<Rightarrow> b)" "waf_clientIP ?r = ip"
    using assms(5) by (simp_all add: ratelimit_ClientIP_def waf_clientIP_def)
  fix h' h
  assume h': "\<forall>k. k \<notin> {XFF, XRI, XFP} \<longrightarrow> h' k = hr_Header r k"
  then have "distrust_headers m (r\<lparr>hr_Header := h'\<rparr>) = distrust_headers m r"
    by (intro distrust_headers_canonical) blast
  then show "proxy_ServeHTTP m h (r\<lparr>hr_Header := h'\<rparr>) = h ?r"
    using TrustCIDRs_remote_only [OF assms(1), where r = r and h' = h'] assms(2,3) by (simp add: proxy_ServeHTTP_def)
qed

text \<open>A server behind one that is trusted keeps the client address the first one found.\<close>

lemma trust_keeps_real_ip:
  assumes "headerFirst (hr_Header r) XRI = ip" and "ip \<noteq> ''''"
  shows "headerFirst (trust_headers m r) XRI = ip"
  using assms by (auto simp: trust_headers_def Let_def edge_keys headerFirst_def)

theorem untrusted_client_pinned_witness:
  "\<exists>r'. (\<forall>h. proxy_ServeHTTP \<lparr>px_Trust = TrustCIDRs Some Some (\<lambda>n ip. n = ip) [''10.0.0.1''],
           px_ComputeFullForwardedFor = False, px_shareProtoSlice = True\<rparr> h
         ((get_from ''203.0.113.9:4711'' ''/'')\<lparr>hr_Header := [''X-Real-Ip'' \<mapsto> [''10.0.0.1'']]\<rparr>) = h r') \<and>
      waf_clientIP r' = ''203.0.113.9''"
proof -
  let ?t = "\<lambda>r. list_ex (\<lambda>n. n = parseHost (hr_RemoteAddr r)) [''10.0.0.1'']"
  let ?r = "get_from ''203.0.113.9:4711'' ''/''"
  have t: "TrustCIDRs Some Some (\<lambda>n ip. n = ip) [''10.0.0.1''] = Some ?t"
    by (simp add: TrustCIDRs_def parseCIDRs_def)
  have a: "parseHost (hr_RemoteAddr ?r) = ''203.0.113.9''"
    by code_simp
  have "hr_Header ?r = Map.empty"
    by (simp add: get_from_def)
  then show ?thesis
    using untrusted_client_pinned [OF t _ _ a, of
        "\<lparr>px_Trust = Some ?t, px_ComputeFullForwardedFor = False, px_shareProtoSlice = True\<rparr>" Some] a
    unfolding t by (fastforce simp: edge_keys)
qed

end
