(* ===== verification/Edge_Filters.thy ===== *)
theory Edge_Filters
  imports Edge_Proxy
begin

text \<open>
  Small middlewares at the edge: the request id (\<^verbatim>\<open>pkg/requestid\<close>), HSTS (\<^verbatim>\<open>pkg/hsts\<close>), CORS
  (\<^verbatim>\<open>pkg/cors\<close>), the health endpoint (\<^verbatim>\<open>pkg/healthz\<close>) and the request header interceptors
  (\<^verbatim>\<open>pkg/headers\<close>). A middleware that refuses its configuration panics, which is \<^term>\<open>None\<close>.
\<close>

section \<open>Request ids\<close>

record RequestID =
  rid_TrustProxy :: bool
  rid_Header :: string

definition requestid_New :: RequestID where
  "requestid_New = \<lparr>rid_TrustProxy = True, rid_Header = ''''\<rparr>"

definition maxClientRequestIDLen :: nat where
  "maxClientRequestIDLen = 128"

definition request_id_char :: "char \<Rightarrow> bool" where
  "request_id_char c \<longleftrightarrow> is_digit c \<or> is_lower c \<or> is_upper c \<or> c \<in> set ''-_.:+=/''"

definition isValidRequestID :: "string \<Rightarrow> bool" where
  "isValidRequestID s = (if s = '''' \<or> maxClientRequestIDLen < length s then False else list_all request_id_char s)"

text \<open>The generated id is a parameter.\<close>

definition requestid_key :: "RequestID \<Rightarrow> string" where
  "requestid_key m = CanonicalHeaderKey (if rid_Header m = '''' then ''X-Request-Id'' else rid_Header m)"

definition requestid_ServeHandler :: "RequestID \<Rightarrow> string \<Rightarrow> Middleware" where
  "requestid_ServeHandler m uuid h r =
     (let key = requestid_key m; id = headerFirst (hr_Header r) key
      in if id = '''' \<or> \<not> rid_TrustProxy m \<or> \<not> isValidRequestID id
         then HMerge [key \<mapsto> [uuid]] # h (r\<lparr>hr_Header := header_Set_raw (hr_Header r) key uuid\<rparr>)
         else HMerge [key \<mapsto> [id]] # h r)"

lemma request_id_char_range: "request_id_char c \<Longrightarrow> 43 \<le> byte c \<and> byte c \<le> 122"
  by (auto simp: request_id_char_def is_digit_def is_lower_def is_upper_def byte_def)

text \<open>
  The chain and the client see the same request id. It is the generated one, or the client's own when
  the proxy is trusted and it is at most 128 bytes of visible ASCII without a separator.
\<close>

theorem request_id_safe:
  "\<exists>id r'. requestid_ServeHandler m uuid h r = HMerge [requestid_key m \<mapsto> [id]] # h r' \<and>
     headerFirst (hr_Header r') (requestid_key m) = id \<and>
     (id = uuid \<or> rid_TrustProxy m \<and> id = headerFirst (hr_Header r) (requestid_key m) \<and>
        length id \<le> 128 \<and> (list_all (\<lambda>c. 43 \<le> byte c \<and> byte c \<le> 122 \<and> c \<noteq> CHR '','' \<and> c \<noteq> CHR '';'') id))"
proof (cases "headerFirst (hr_Header r) (requestid_key m) = '''' \<or> \<not> rid_TrustProxy m \<or>
    \<not> isValidRequestID (headerFirst (hr_Header r) (requestid_key m))")
  case True
  then show ?thesis
    by (intro exI [of _ uuid] exI [of _ "r\<lparr>hr_Header := header_Set_raw (hr_Header r) (requestid_key m) uuid\<rparr>"])
      (simp add: requestid_ServeHandler_def Let_def header_Set_raw_def)
next
  case False
  have "request_id_char c \<Longrightarrow> c \<noteq> CHR '','' \<and> c \<noteq> CHR '';''" for c
    by (auto simp: request_id_char_def is_digit_def is_lower_def is_upper_def byte_def)
  with False show ?thesis
    by (intro exI [of _ "headerFirst (hr_Header r) (requestid_key m)"] exI [of _ r])
      (auto simp: requestid_ServeHandler_def Let_def isValidRequestID_def maxClientRequestIDLen_def list_all_iff
        dest: request_id_char_range split: if_splits)
qed

section \<open>HSTS\<close>

record HSTS =
  hsts_MaxAge :: int
  hsts_IncludeSubDomains :: bool
  hsts_Preload :: bool
  hsts_ShareValueSlice :: bool

definition hsts_Default :: HSTS where
  "hsts_Default = \<lparr>hsts_MaxAge = 31536000 * 10 ^ 9, hsts_IncludeSubDomains = False, hsts_Preload = False,
     hsts_ShareValueSlice = False\<rparr>"

definition hsts_Preloaded :: HSTS where
  "hsts_Preloaded = \<lparr>hsts_MaxAge = 63072000 * 10 ^ 9, hsts_IncludeSubDomains = True, hsts_Preload = True,
     hsts_ShareValueSlice = False\<rparr>"

definition hsts_value :: "HSTS \<Rightarrow> string" where
  "hsts_value m =
     (let hs0 = ''max-age='' @ FormatInt (hsts_MaxAge m sdiv 10 ^ 9);
          hs1 = (if hsts_IncludeSubDomains m then hs0 @ ''; includeSubDomains'' else hs0)
      in if hsts_Preload m then hs1 @ ''; preload'' else hs1)"

definition hsts_ServeHandler :: "HSTS \<Rightarrow> Middleware" where
  "hsts_ServeHandler m h r =
     (if hsts_ShareValueSlice m then HMerge [''Strict-Transport-Security'' \<mapsto> [hsts_value m]] # h r
      else HMerge [''Strict-Transport-Security'' \<mapsto> [hsts_value m]] # h r)"

section \<open>CORS\<close>

record CORS =
  cors_AllowOrigins :: "(string \<Rightarrow> bool) option"
  cors_AllowMethods :: "string list"
  cors_AllowHeaders :: "string list"
  cors_ExposeHeaders :: "string list"
  cors_MaxAge :: int
  cors_AllowAllOrigins :: bool
  cors_AllowCredentials :: bool

definition cors_New :: CORS where
  "cors_New = \<lparr>cors_AllowOrigins = None, cors_AllowMethods = [''GET'', ''POST'', ''PUT'', ''PATCH'', ''DELETE''],
     cors_AllowHeaders = [''Authorization'', ''Content-Type''], cors_ExposeHeaders = [], cors_MaxAge = 3600 * 10 ^ 9,
     cors_AllowAllOrigins = True, cors_AllowCredentials = False\<rparr>"

definition AllowOrigins :: "string list \<Rightarrow> string \<Rightarrow> bool" where
  "AllowOrigins origins origin \<longleftrightarrow> origin \<in> set origins"

definition cors_preflightHeaders :: "CORS \<Rightarrow> Header" where
  "cors_preflightHeaders m =
     (let set_if = (\<lambda>b k v h. if b then header_Set_raw h k v else h);
          h0 = set_if (cors_AllowCredentials m) ''Access-Control-Allow-Credentials'' ''true'' Map.empty;
          h1 = set_if (cors_AllowMethods m \<noteq> []) ''Access-Control-Allow-Methods''
                 (join_with CHR '','' (cors_AllowMethods m)) h0;
          h2 = set_if (cors_AllowHeaders m \<noteq> []) ''Access-Control-Allow-Headers''
                 (join_with CHR '','' (cors_AllowHeaders m)) h1;
          h3 = set_if (0 < cors_MaxAge m) ''Access-Control-Max-Age'' (FormatInt (cors_MaxAge m sdiv 10 ^ 9)) h2
      in if cors_AllowAllOrigins m then header_Set_raw h3 ''Access-Control-Allow-Origin'' ''*''
         else header_Add_raw (header_Add_raw (header_Add_raw h3 ''Vary'' ''Origin'')
                ''Vary'' ''Access-Control-Request-Method'') ''Vary'' ''Access-Control-Request-Headers'')"

definition cors_headers :: "CORS \<Rightarrow> Header" where
  "cors_headers m =
     (let h0 = (if cors_AllowCredentials m then header_Set_raw Map.empty ''Access-Control-Allow-Credentials'' ''true''
                else Map.empty);
          h1 = (if cors_ExposeHeaders m \<noteq> [] then header_Set_raw h0 ''Access-Control-Expose-Headers''
                  (join_with CHR '','' (cors_ExposeHeaders m)) else h0)
      in if cors_AllowAllOrigins m then header_Set_raw h1 ''Access-Control-Allow-Origin'' ''*''
         else header_Set_raw h1 ''Vary'' ''Origin'')"

definition cors_handler :: "CORS \<Rightarrow> (string \<Rightarrow> bool) \<Rightarrow> Middleware" where
  "cors_handler m allow h r =
     (let origin = headerFirst (hr_Header r) ''Origin'';
          echo = (if cors_AllowAllOrigins m then [] else [HMerge [''Access-Control-Allow-Origin'' \<mapsto> [origin]]])
      in if origin = '''' then h r
         else if \<not> cors_AllowAllOrigins m \<and> \<not> allow origin then [WriteHeader 403]
         else if hr_Method r = ''OPTIONS'' then echo @ [HMerge (cors_preflightHeaders m), WriteHeader 200]
         else echo @ [HMerge (cors_headers m)] @ h r)"

definition cors_ServeHandler :: "CORS \<Rightarrow> Handler \<Rightarrow> Handler option" where
  "cors_ServeHandler m h =
     (if \<not> cors_AllowAllOrigins m \<and> cors_AllowOrigins m = None then None
      else if cors_AllowAllOrigins m \<and> cors_AllowCredentials m then None
      else Some (cors_handler m (case cors_AllowOrigins m of None \<Rightarrow> (\<lambda>_. False) | Some f \<Rightarrow> f) h))"

lemma preflight_credentials:
  "cors_preflightHeaders m ''Access-Control-Allow-Credentials'' =
     (if cors_AllowCredentials m then Some [''true''] else None)"
  by (simp add: cors_preflightHeaders_def header_Set_raw_def header_Add_raw_def Let_def)

lemma preflight_origin:
  "cors_preflightHeaders m ''Access-Control-Allow-Origin'' = (if cors_AllowAllOrigins m then Some [''*''] else None)"
  by (simp add: cors_preflightHeaders_def header_Set_raw_def header_Add_raw_def Let_def)

text \<open>
  C39. A request from an origin that is not allowed is refused before the handler and gets no CORS header. A
  preflight is answered without the handler, with the wildcard or with exactly the origin that asked,
  and never with the wildcard and credentials together.
\<close>

theorem cors_policy:
  assumes "cors_ServeHandler m h = Some s" and "origin = headerFirst (hr_Header r) ''Origin''" and "origin \<noteq> ''''"
  shows "(\<not> cors_AllowAllOrigins m \<and> \<not> (\<exists>f. cors_AllowOrigins m = Some f \<and> f origin) \<longrightarrow>
            s r = [WriteHeader 403]) \<and>
    (cors_AllowAllOrigins m \<or> (\<exists>f. cors_AllowOrigins m = Some f \<and> f origin) \<longrightarrow> hr_Method r = ''OPTIONS'' \<longrightarrow>
      (let w = http_serve s r in rw_status w = Some 200 \<and> rw_body w = '''' \<and>
         rw_sent w ''Access-Control-Allow-Origin'' = Some [if cors_AllowAllOrigins m then ''*'' else origin] \<and>
         (rw_sent w ''Access-Control-Allow-Credentials'' \<noteq> None \<longrightarrow>
            rw_sent w ''Access-Control-Allow-Origin'' \<noteq> Some [''*''] \<or> origin = ''*'')))"
proof -
  let ?allow = "case cors_AllowOrigins m of None \<Rightarrow> (\<lambda>_. False) | Some f \<Rightarrow> f"
  have s: "s = cors_handler m ?allow h" and cfg: "\<not> (cors_AllowAllOrigins m \<and> cors_AllowCredentials m)"
    using assms(1) by (auto simp: cors_ServeHandler_def split: if_splits)
  have allow: "?allow origin \<longleftrightarrow> (\<exists>f. cors_AllowOrigins m = Some f \<and> f origin)"
    by (auto split: option.split)
  have "s r = [WriteHeader 403]" if "\<not> cors_AllowAllOrigins m" "\<not> ?allow origin"
    using that assms(2,3) by (simp add: s cors_handler_def Let_def)
  moreover have "s r = (if cors_AllowAllOrigins m then [] else [HMerge [''Access-Control-Allow-Origin'' \<mapsto> [origin]]]) @
      [HMerge (cors_preflightHeaders m), WriteHeader 200]"
    if "cors_AllowAllOrigins m \<or> ?allow origin" "hr_Method r = ''OPTIONS''"
    using that assms(2,3) by (auto simp: s cors_handler_def Let_def)
  ultimately show ?thesis
    using cfg unfolding allow
    by (auto simp: http_serve_def new_rw_def rw_WriteHeader_def Let_def preflight_origin preflight_credentials
        map_add_def)
qed

theorem cors_policy_witness:
  "\<exists>s. cors_ServeHandler (cors_New\<lparr>cors_AllowAllOrigins := False, cors_AllowOrigins := Some (AllowOrigins [''https://a''])\<rparr>)
       NotFound = Some s \<and>
     s ((get_from '''' ''/'')\<lparr>hr_Header := [''Origin'' \<mapsto> [''https://b'']]\<rparr>) = [WriteHeader 403]"
proof -
  let ?m = "cors_New\<lparr>cors_AllowAllOrigins := False, cors_AllowOrigins := Some (AllowOrigins [''https://a''])\<rparr>"
  let ?r = "(get_from '''' ''/'')\<lparr>hr_Header := [''Origin'' \<mapsto> [''https://b'']]\<rparr>"
  have s: "cors_ServeHandler ?m NotFound = Some (cors_handler ?m (AllowOrigins [''https://a'']) NotFound)"
    by (simp add: cors_ServeHandler_def)
  have o: "''https://b'' = headerFirst (hr_Header ?r) ''Origin''"
    by (simp add: headerFirst_def header_vals_def)
  show ?thesis
    using cors_policy [OF s o] s by (simp add: AllowOrigins_def)
qed

section \<open>Health endpoint\<close>

record Healthz =
  hz_Path :: string
  hz_Host :: bool
  hz_ready :: int
  hz_healthy :: int
  hz_shutdown :: int
  hz_once :: bool
  hz_registered :: bool

definition healthz_New :: Healthz where
  "healthz_New = \<lparr>hz_Path = ''/healthz'', hz_Host = False, hz_ready = 1, hz_healthy = 1, hz_shutdown = 0,
     hz_once = False, hz_registered = False\<rparr>"

definition SetReady :: "bool \<Rightarrow> Healthz \<Rightarrow> Healthz" where
  "SetReady ready m = m\<lparr>hz_ready := if ready then 1 else 0\<rparr>"

definition healthz_Set :: "bool \<Rightarrow> Healthz \<Rightarrow> Healthz" where
  "healthz_Set healthy m = m\<lparr>hz_healthy := if healthy then 1 else 0\<rparr>"

text \<open>The first request registers the shutdown callback with the server it runs on, if there is one.\<close>

definition healthz_register :: "bool \<Rightarrow> Healthz \<Rightarrow> Healthz" where
  "healthz_register server m =
     (if hz_once m then m else m\<lparr>hz_once := True, hz_registered := server\<rparr>)"

definition healthz_on_shutdown :: "Healthz \<Rightarrow> Healthz" where
  "healthz_on_shutdown m = (if hz_registered m then m\<lparr>hz_shutdown := 1\<rparr> else m)"

definition healthz_ok :: "Healthz \<Rightarrow> bool \<Rightarrow> bool" where
  "healthz_ok m readiness =
     (if readiness then hz_shutdown m = 0 \<and> 0 < hz_ready m else 0 < hz_healthy m)"

text \<open>One request; \<^verbatim>\<open>query\<close> looks up a parameter of the query.\<close>

definition healthz_serve ::
  "(string \<Rightarrow> 'ip option) \<Rightarrow> (string \<Rightarrow> string \<Rightarrow> string) \<Rightarrow> Healthz \<Rightarrow> Middleware" where
  "healthz_serve parseIP query m h r =
     (let split = parseHost (hr_Host r);
          requestHost = (if split = '''' then hr_Host r else split)
      in if \<not> hz_Host m \<and> parseIP requestHost = None then h r
         else if hr_Path r \<noteq> hz_Path m then h r
         else if \<not> healthz_ok m (query (hr_RawQuery r) ''ready'' \<noteq> '''')
              then [WriteHeader 503, Write ''Service Unavailable'']
              else [WriteHeader 200, Write ''OK''])"

datatype hz_event = HzReady bool | HzLive bool | HzRequest bool | HzShutdown

fun hz_apply :: "hz_event \<Rightarrow> Healthz \<Rightarrow> Healthz" where
  "hz_apply (HzReady b) m = SetReady b m"
| "hz_apply (HzLive b) m = healthz_Set b m"
| "hz_apply (HzRequest server) m = healthz_register server m"
| "hz_apply HzShutdown m = healthz_on_shutdown m"

lemma hz_shutdown_stays: "hz_shutdown m = 1 \<Longrightarrow> hz_shutdown (fold hz_apply evs m) = 1"
proof (induction evs arbitrary: m)
  case (Cons e evs)
  then show ?case
    by (cases e) (simp_all add: SetReady_def healthz_Set_def healthz_register_def healthz_on_shutdown_def)
qed simp

lemma hz_registered_stays:
  "hz_once m \<and> hz_registered m \<Longrightarrow> hz_once (fold hz_apply evs m) \<and> hz_registered (fold hz_apply evs m)"
proof (induction evs arbitrary: m)
  case (Cons e evs)
  then show ?case
    by (cases e) (simp_all add: SetReady_def healthz_Set_def healthz_register_def healthz_on_shutdown_def)
qed simp

text \<open>
  Once the server has begun to shut down, a readiness probe that the endpoint answers is refused
  whatever is set afterwards, while the liveness probe still follows what was last set.
\<close>

theorem healthz_drains:
  assumes "\<not> hz_once m" and "hr_Path r = hz_Path m'" and "parseIP (if parseHost (hr_Host r) = '''' then hr_Host r else parseHost (hr_Host r)) = Some ip"
    and "m' = fold hz_apply (HzRequest True # evs @ HzShutdown # evs') m"
  shows "healthz_serve parseIP query m' h r =
    (if query (hr_RawQuery r) ''ready'' \<noteq> '''' \<or> \<not> 0 < hz_healthy m'
     then [WriteHeader 503, Write ''Service Unavailable''] else [WriteHeader 200, Write ''OK''])"
proof -
  have "hz_registered (fold hz_apply evs (healthz_register True m))"
    using hz_registered_stays [of "healthz_register True m" evs] assms(1) by (simp add: healthz_register_def)
  then have "hz_shutdown m' = 1"
    using assms(4) by (simp add: hz_shutdown_stays healthz_on_shutdown_def)
  then show ?thesis
    using assms(2,3) by (auto simp: healthz_serve_def healthz_ok_def Let_def)
qed

theorem healthz_drains_witness:
  "healthz_serve Some (\<lambda>q k. if q = k then ''1'' else '''') (fold hz_apply [HzRequest True, HzShutdown, HzReady True] healthz_New) NotFound
     ((get_from '''' ''/healthz'')\<lparr>hr_RawQuery := ''ready''\<rparr>) = [WriteHeader 503, Write ''Service Unavailable'']"
  using healthz_drains [of healthz_New "(get_from '''' ''/healthz'')\<lparr>hr_RawQuery := ''ready''\<rparr>"
      "fold hz_apply [HzRequest True, HzShutdown, HzReady True] healthz_New" Some _ "[]" "[HzReady True]"
      "\<lambda>q k. if q = k then ''1'' else ''''" NotFound]
  by (simp add: healthz_New_def healthz_register_def healthz_on_shutdown_def SetReady_def get_from_def)

section \<open>Request header interceptors\<close>

text \<open>The pairs of the argument list; a last one without a value is dropped.\<close>

fun buildHeaders :: "string list \<Rightarrow> (string \<times> string) list" where
  "buildHeaders (k # v # ps) = (k, v) # buildHeaders ps"
| "buildHeaders _ = []"

definition buildCanonicalHeaders :: "string list \<Rightarrow> (string \<times> string) list" where
  "buildCanonicalHeaders pairs = map (\<lambda>(k, v). (CanonicalHeaderKey k, v)) (buildHeaders pairs)"

definition canonKeys :: "string list \<Rightarrow> string list" where
  "canonKeys keys = map CanonicalHeaderKey keys"

definition AddRequest :: "string list \<Rightarrow> Header \<Rightarrow> Header" where
  "AddRequest pairs h = fold (\<lambda>(k, v) h. header_Add_raw h k v) (buildCanonicalHeaders pairs) h"

definition SetRequest :: "string list \<Rightarrow> Header \<Rightarrow> Header" where
  "SetRequest pairs h = fold (\<lambda>(k, v) h. header_Set_raw h k v) (buildCanonicalHeaders pairs) h"

definition DeleteRequest :: "string list \<Rightarrow> Header \<Rightarrow> Header" where
  "DeleteRequest keys h = fold (\<lambda>k h. header_Del_raw h k) (canonKeys keys) h"

definition MapRequest :: "string \<Rightarrow> (string \<Rightarrow> string) \<Rightarrow> Header \<Rightarrow> Header" where
  "MapRequest key f h = (case h (CanonicalHeaderKey key) of None \<Rightarrow> h | Some vs \<Rightarrow> h(CanonicalHeaderKey key \<mapsto> map f vs))"

definition RequestInterceptor_ServeHandler :: "(Header \<Rightarrow> Header) option \<Rightarrow> Middleware" where
  "RequestInterceptor_ServeHandler f h =
     (case f of None \<Rightarrow> h | Some g \<Rightarrow> (\<lambda>r. h (r\<lparr>hr_Header := g (hr_Header r)\<rparr>)))"

text \<open>Writing the map directly under canonical keys is what the methods of \<^verbatim>\<open>http.Header\<close> do.\<close>

lemma request_interceptors_direct:
  "AddRequest pairs h = fold (\<lambda>(k, v) h. header_Add h k v) (buildHeaders pairs) h"
  "SetRequest pairs h = fold (\<lambda>(k, v) h. header_Set h k v) (buildHeaders pairs) h"
  "DeleteRequest keys h = fold (\<lambda>k h. header_Del h k) keys h"
proof -
  show "AddRequest pairs h = fold (\<lambda>(k, v) h. header_Add h k v) (buildHeaders pairs) h"
    by (induction pairs arbitrary: h rule: buildHeaders.induct)
      (simp_all add: AddRequest_def buildCanonicalHeaders_def header_Add_raw_def header_Add_def header_vals_def
        header_Values_def)
  show "SetRequest pairs h = fold (\<lambda>(k, v) h. header_Set h k v) (buildHeaders pairs) h"
    by (induction pairs arbitrary: h rule: buildHeaders.induct)
      (simp_all add: SetRequest_def buildCanonicalHeaders_def header_Set_raw_def header_Set_def)
  show "DeleteRequest keys h = fold (\<lambda>k h. header_Del h k) keys h"
    by (induction keys arbitrary: h) (simp_all add: DeleteRequest_def canonKeys_def header_Del_raw_def header_Del_def)
qed

end
