(* ===== verification/Response_Layers.thy ===== *)
theory Response_Layers
  imports Edge_Filters
begin

text \<open>
  Response writers wrapped around the server's: the interceptor of \<^verbatim>\<open>pkg/headers\<close>, and the interface
  that it, the compressing writer and the timeout's writer share. Each delays what it does with a
  response until the header is written, so a layer is compared with the plain writer by two relations,
  one before and one after that point.
\<close>

section \<open>Layers\<close>

text \<open>A status that ends the header, and the scripts that write the header before they flush.\<close>

definition final_status :: "int \<Rightarrow> bool" where
  "final_status code \<longleftrightarrow> \<not> (100 \<le> code \<and> code \<le> 199 \<and> code \<noteq> 101)"

fun final_codes :: "wop list \<Rightarrow> bool" where
  "final_codes [] \<longleftrightarrow> True"
| "final_codes (WriteHeader code # ops) \<longleftrightarrow> final_status code \<and> final_codes ops"
| "final_codes (op # ops) \<longleftrightarrow> final_codes ops"

fun flush_after :: "wop list \<Rightarrow> bool" where
  "flush_after [] \<longleftrightarrow> True"
| "flush_after (Flush # ops) \<longleftrightarrow> False"
| "flush_after (WriteHeader code # ops) \<longleftrightarrow> True"
| "flush_after (Write p # ops) \<longleftrightarrow> True"
| "flush_after (Panic # ops) \<longleftrightarrow> True"
| "flush_after (op # ops) \<longleftrightarrow> flush_after ops"

fun header_only :: "wop \<Rightarrow> bool" where
  "header_only (WriteHeader code) \<longleftrightarrow> False"
| "header_only (Write p) \<longleftrightarrow> False"
| "header_only Flush \<longleftrightarrow> False"
| "header_only Panic \<longleftrightarrow> False"
| "header_only op \<longleftrightarrow> True"

lemma header_only_step: "header_only op \<Longrightarrow> rw_step op w = w\<lparr>rw_Header := header_op op (rw_Header w)\<rparr>"
  by (cases op) simp_all

lemma rw_step_committed: "rw_status w = Some c \<Longrightarrow> rw_status (rw_step op w) = Some c \<and> rw_sent (rw_step op w) = rw_sent w"
  by (cases op) (simp_all add: rw_WriteHeader_def rw_Write_def rw_Flush_def Let_def)

text \<open>
  What a layer promises: it follows the plain writer through header operations, takes its decision at the
  first final status or write, and keeps to it.
\<close>

locale commit_layer =
  fixes lstep :: "wop \<Rightarrow> 'l \<Rightarrow> 'l"
    and before :: "ResponseWriter \<Rightarrow> 'l \<Rightarrow> bool"
    and after :: "ResponseWriter \<Rightarrow> 'l \<Rightarrow> bool"
  assumes before_open: "before w l \<Longrightarrow> rw_status w = None"
    and after_closed: "after w l \<Longrightarrow> rw_status w \<noteq> None"
    and header_step: "before w l \<Longrightarrow> header_only op \<Longrightarrow> before (rw_step op w) (lstep op l)"
    and status_step: "before w l \<Longrightarrow> final_status code \<Longrightarrow>
      after (rw_step (WriteHeader code) w) (lstep (WriteHeader code) l)"
    and write_step: "before w l \<Longrightarrow> after (rw_step (Write p) w) (lstep (Write p) l)"
    and after_step: "after w l \<Longrightarrow> \<not> is_Panic op \<Longrightarrow> after (rw_step op w) (lstep op l)"
begin

definition follows :: "ResponseWriter \<Rightarrow> 'l \<Rightarrow> bool" where
  "follows w l \<longleftrightarrow> (if rw_status w = None then before w l else after w l)"

lemma after_run:
  "after w l \<Longrightarrow> after (fst (run_ops rw_step ops w)) (fst (run_ops lstep ops l)) \<and>
     snd (run_ops rw_step ops w) = snd (run_ops lstep ops l)"
  by (induction ops arbitrary: w l) (auto simp: after_step)

lemma before_run:
  "before w l \<Longrightarrow> flush_after ops \<Longrightarrow> final_codes ops \<Longrightarrow>
     follows (fst (run_ops rw_step ops w)) (fst (run_ops lstep ops l)) \<and>
     snd (run_ops rw_step ops w) = snd (run_ops lstep ops l)"
proof (induction ops arbitrary: w l)
  case Nil
  then show ?case by (simp add: follows_def before_open)
next
  case (Cons op ops)
  have committed: ?case if "after (rw_step op w) (lstep op l)" "\<not> is_Panic op"
    using after_run [OF that(1), of ops] that(2) by (auto simp: follows_def dest: after_closed)
  show ?case
  proof (cases op)
    case (WriteHeader code)
    then show ?thesis using committed status_step Cons.prems by simp
  next
    case (Write p)
    then show ?thesis using committed write_step Cons.prems by simp
  next
    case Panic
    then show ?thesis using Cons.prems by (simp add: follows_def before_open)
  qed (use Cons header_step [OF Cons.prems(1), of op] in auto)
qed

end

text \<open>The server's end of a request: a handler that returned without a final status is answered 200.\<close>

definition finish :: "ResponseWriter \<times> bool \<Rightarrow> ResponseWriter" where
  "finish = (\<lambda>(w, panicked). if panicked then w else rw_WriteHeader 200 w)"

lemma http_serve_finish: "http_serve h r = finish (run_ops rw_step (h r) new_rw)"
  by (auto simp: http_serve_def finish_def split: prod.split bool.split)

section \<open>The response interceptor\<close>

text \<open>
  An intercept function sees the status and the headers and gives the headers it leaves, and the status
  if it writes one itself.
\<close>

type_synonym ResponseInterceptFunc = "int \<Rightarrow> Header \<Rightarrow> Header \<times> int option"

record 'w interceptRW =
  ic_base :: 'w
  ic_status :: int
  ic_wroteHeader :: bool
  ic_intercepted :: bool

definition new_intercept :: "'w \<Rightarrow> 'w interceptRW" where
  "new_intercept w = \<lparr>ic_base = w, ic_status = 200, ic_wroteHeader = False, ic_intercepted = False\<rparr>"

definition ic_forward :: "'w writer \<Rightarrow> int \<Rightarrow> 'w interceptRW \<Rightarrow> 'w interceptRW" where
  "ic_forward W code w =
     (if ic_wroteHeader w then w
      else w\<lparr>ic_wroteHeader := True, ic_base := wr_step W (WriteHeader code) (ic_base w)\<rparr>)"

definition ic_intercept :: "'w writer \<Rightarrow> ResponseInterceptFunc \<Rightarrow> 'w interceptRW \<Rightarrow> 'w interceptRW" where
  "ic_intercept W f w =
     (if ic_intercepted w then w
      else case f (ic_status w) (wr_Header W (ic_base w)) of (h, wrote) \<Rightarrow>
        let w1 = w\<lparr>ic_intercepted := True,
                   ic_base := wr_step W (HMerge h) (wr_step W HClear (ic_base w))\<rparr>
        in case wrote of None \<Rightarrow> w1 | Some code \<Rightarrow> ic_forward W code w1)"

definition ic_WriteHeader :: "'w writer \<Rightarrow> ResponseInterceptFunc \<Rightarrow> int \<Rightarrow> 'w interceptRW \<Rightarrow> 'w interceptRW" where
  "ic_WriteHeader W f code w =
     (let w1 = (if \<not> ic_intercepted w then ic_intercept W f (w\<lparr>ic_status := code\<rparr>) else w)
      in ic_forward W code w1)"

definition ic_Write :: "'w writer \<Rightarrow> ResponseInterceptFunc \<Rightarrow> string \<Rightarrow> 'w interceptRW \<Rightarrow> 'w interceptRW" where
  "ic_Write W f p w =
     (let w1 = (if \<not> ic_wroteHeader w then ic_WriteHeader W f 200 w else w)
      in w1\<lparr>ic_base := wr_step W (Write p) (ic_base w1)\<rparr>)"

fun ic_step :: "'w writer \<Rightarrow> ResponseInterceptFunc \<Rightarrow> wop \<Rightarrow> 'w interceptRW \<Rightarrow> 'w interceptRW" where
  "ic_step W f (WriteHeader code) w = ic_WriteHeader W f code w"
| "ic_step W f (Write p) w = ic_Write W f p w"
| "ic_step W f op w = w\<lparr>ic_base := wr_step W op (ic_base w)\<rparr>"

text \<open>Serving through the interceptor; the deferred call intercepts a response that was never written.\<close>

definition ResponseInterceptor_serve ::
  "'w writer \<Rightarrow> ResponseInterceptFunc option \<Rightarrow> Handler \<Rightarrow> HttpRequest \<Rightarrow> 'w \<Rightarrow> 'w \<times> bool" where
  "ResponseInterceptor_serve W f h r w =
     (case f of
        None \<Rightarrow> run_ops (wr_step W) (h r) w
      | Some g \<Rightarrow>
          (case run_ops (ic_step W g) (h r) (new_intercept w) of
             (i, panicked) \<Rightarrow> (ic_base (ic_intercept W g i), panicked)))"

definition AddResponse :: "string list \<Rightarrow> ResponseInterceptFunc" where
  "AddResponse pairs status h = (fold (\<lambda>(k, v) h. header_Add_raw h k v) (buildCanonicalHeaders pairs) h, None)"

definition SetResponse :: "string list \<Rightarrow> ResponseInterceptFunc" where
  "SetResponse pairs status h = (fold (\<lambda>(k, v) h. header_Set_raw h k v) (buildCanonicalHeaders pairs) h, None)"

definition DeleteResponse :: "string list \<Rightarrow> ResponseInterceptFunc" where
  "DeleteResponse keys status h = (fold (\<lambda>k h. header_Del_raw h k) (canonKeys keys) h, None)"

text \<open>Mapping drops the values whose image is empty.\<close>

definition MapResponse :: "string \<Rightarrow> (string \<Rightarrow> string) \<Rightarrow> ResponseInterceptFunc" where
  "MapResponse name f status h =
     (let key = CanonicalHeaderKey name; hh = header_vals h key
      in if hh = [] then (h, None)
         else (fold (\<lambda>v h. let x = f v in if x \<noteq> '''' then header_Add_raw h key x else h) hh (header_Del_raw h key), None))"

subsection \<open>What the client sees\<close>

lemma ic_intercept_server:
  assumes "f (ic_status i) (rw_Header (ic_base i)) = (h, None)" and "\<not> ic_intercepted i"
  shows "ic_intercept server_writer f i = i\<lparr>ic_intercepted := True, ic_base := (ic_base i)\<lparr>rw_Header := h\<rparr>\<rparr>"
  using assms by (simp add: ic_intercept_def server_writer_def)

definition ic_before :: "ResponseWriter \<Rightarrow> ResponseWriter interceptRW \<Rightarrow> bool" where
  "ic_before w i \<longleftrightarrow> rw_status w = None \<and> i = new_intercept w"

definition ic_after :: "(int \<Rightarrow> Header \<Rightarrow> Header) \<Rightarrow> ResponseWriter \<Rightarrow> ResponseWriter interceptRW \<Rightarrow> bool" where
  "ic_after g w i \<longleftrightarrow> ic_wroteHeader i \<and> ic_intercepted i \<and>
     (\<exists>c. rw_status w = Some c \<and> rw_status (ic_base i) = Some c \<and> rw_sent (ic_base i) = g c (rw_sent w)) \<and>
     rw_body (ic_base i) = rw_body w \<and> rw_info (ic_base i) = rw_info w \<and> rw_flushes (ic_base i) = rw_flushes w"

lemma ic_before_open: "ic_before w i \<Longrightarrow> rw_status w = None"
  by (simp add: ic_before_def)

lemma ic_after_closed: "ic_after g w i \<Longrightarrow> \<exists>c. rw_status w = Some c"
  by (auto simp: ic_after_def)

lemma ic_commit:
  assumes "ic_before w i" and "final_status code"
  shows "ic_after g (rw_WriteHeader code w) (ic_WriteHeader server_writer (\<lambda>s h. (g s h, None)) code i)"
  using assms
  by (auto simp: ic_before_def ic_after_def ic_WriteHeader_def ic_forward_def new_intercept_def ic_intercept_def
      server_writer_def rw_WriteHeader_def final_status_def Let_def)

lemma ic_after_step:
  assumes "ic_after g w i" and "\<not> is_Panic op"
  shows "ic_after g (rw_step op w) (ic_step server_writer f op i)"
  using assms
  by (cases op)
    (auto simp: ic_after_def ic_WriteHeader_def ic_Write_def ic_forward_def server_writer_def rw_WriteHeader_def
      rw_Write_def rw_Flush_def Let_def)

interpretation ic: commit_layer "ic_step server_writer (\<lambda>s h. (g s h, None))" ic_before "ic_after g" for g
proof unfold_locales
  fix w i p
  assume b: "ic_before w i"
  let ?f = "\<lambda>s h. (g s h, None)"
  have c: "ic_after g (rw_WriteHeader 200 w) (ic_WriteHeader server_writer ?f 200 i)"
    by (rule ic_commit [OF b]) (simp add: final_status_def)
  have "ic_step server_writer ?f (Write p) i = ic_step server_writer ?f (Write p) (ic_WriteHeader server_writer ?f 200 i)"
    using b c by (simp add: ic_before_def new_intercept_def ic_Write_def ic_after_def)
  moreover have "rw_step (Write p) w = rw_step (Write p) (rw_WriteHeader 200 w)"
    by (auto simp: rw_Write_def rw_WriteHeader_def Let_def)
  ultimately show "ic_after g (rw_step (Write p) w) (ic_step server_writer ?f (Write p) i)"
    using ic_after_step [OF c, of "Write p" ?f] by simp
next
  fix w i op
  assume "ic_before w i" "header_only op"
  then show "ic_before (rw_step op w) (ic_step server_writer (\<lambda>s h. (g s h, None)) op i)"
    by (cases op) (auto simp: ic_before_def new_intercept_def server_writer_def)
qed (auto dest: ic_before_open ic_after_closed intro: ic_commit ic_after_step)



text \<open>
  Outside that contract it fails. A handler that flushes first commits the server's header before the
  function has run, and its own status is lost as well; and an informational status is taken for the
  final one, which is then never sent.
\<close>

lemma intercept_flush_first:
  "let i = finish (ResponseInterceptor_serve server_writer (Some (SetResponse [''X-Served-By'', ''edge'']))
       (\<lambda>r. [Flush, Write ''x'']) r new_rw)
   in rw_status i = Some 200 \<and> rw_sent i ''X-Served-By'' = None"
  by (simp add: ResponseInterceptor_serve_def finish_def new_intercept_def ic_Write_def ic_WriteHeader_def
      ic_intercept_def ic_forward_def SetResponse_def server_writer_def new_rw_def rw_WriteHeader_def rw_Write_def
      rw_Flush_def)

lemma intercept_informational_swallows_status:
  "let h = (\<lambda>r. [WriteHeader 103, WriteHeader 404]);
       i = finish (ResponseInterceptor_serve server_writer (Some (SetResponse [])) h r new_rw)
   in rw_status (http_serve h r) = Some 404 \<and> rw_status i = Some 200"
  by (simp add: http_serve_finish ResponseInterceptor_serve_def finish_def new_intercept_def ic_WriteHeader_def
      ic_intercept_def ic_forward_def SetResponse_def server_writer_def new_rw_def rw_WriteHeader_def)

end
