(* ===== verification/Compression.thy ===== *)
theory Compression
  imports Response_Layers
begin

text \<open>
  The compressing middleware (\<^verbatim>\<open>pkg/compress/compress.go\<close>): when it applies, what it does to the header
  at the moment it is written, and the bytes it writes. The encoders are a parameter: their state, the
  bytes each operation writes to the response, and, where a claim needs it, that decoding gives the
  input back. \<^verbatim>\<open>mime.ParseMediaType\<close> is a parameter too.
\<close>

section \<open>The middleware\<close>

record Compress =
  cp_Encoding :: string
  cp_Vary :: bool
  cp_Types :: string
  cp_MinLength :: int

record 'e compressor =
  c_new :: 'e
  c_Write :: "string \<Rightarrow> 'e \<Rightarrow> 'e \<times> string"
  c_Flush :: "'e \<Rightarrow> 'e \<times> string"
  c_Close :: "'e \<Rightarrow> string"

definition compress_types :: "Compress \<Rightarrow> string list" where
  "compress_types m = filter (\<lambda>t. t \<noteq> '''') (map TrimSpace (split_on CHR '' '' (cp_Types m)))"

record ('e, 'w) compressWriter =
  cw_base :: 'w
  cw_encoder :: "'e option"
  cw_wroteHeader :: bool

definition cw_small :: "int \<Rightarrow> Header \<Rightarrow> bool" where
  "cw_small minLength h =
     (let sl = headerFirst h ''Content-Length'';
          l = (case ParseInt sl of None \<Rightarrow> 0 | Some v \<Rightarrow> v)
      in 0 < minLength \<and> sl \<noteq> '''' \<and> 0 < l \<and> l < minLength)"

definition cw_type_ok :: "(string \<Rightarrow> string option) \<Rightarrow> string list \<Rightarrow> Header \<Rightarrow> bool" where
  "cw_type_ok mediatype types h \<longleftrightarrow> ''*'' \<in> set types \<or>
     (case mediatype (headerFirst h ''Content-Type'') of None \<Rightarrow> ''application/octet-stream'' | Some ct \<Rightarrow> ct)
       \<in> set types"

definition cw_init ::
  "'w writer \<Rightarrow> 'e compressor \<Rightarrow> (string \<Rightarrow> string option) \<Rightarrow> Compress
     \<Rightarrow> ('e, 'w) compressWriter \<Rightarrow> ('e, 'w) compressWriter" where
  "cw_init W cmp mediatype m w =
     (let h = wr_Header W (cw_base w)
      in if header_Exists h ''Content-Encoding'' then w
         else if cw_small (cp_MinLength m) h then w
         else if \<not> cw_type_ok mediatype (compress_types m) h then w
         else w\<lparr>cw_encoder := Some (c_new cmp),
                cw_base := wr_step W (HMerge [''Content-Encoding'' \<mapsto> [cp_Encoding m]])
                             (wr_step W (HDel ''Content-Length'') (cw_base w))\<rparr>)"

definition cw_WriteHeader ::
  "'w writer \<Rightarrow> 'e compressor \<Rightarrow> (string \<Rightarrow> string option) \<Rightarrow> Compress \<Rightarrow> int
     \<Rightarrow> ('e, 'w) compressWriter \<Rightarrow> ('e, 'w) compressWriter" where
  "cw_WriteHeader W cmp mediatype m code w =
     (if cw_wroteHeader w then w
      else let w1 = cw_init W cmp mediatype m (w\<lparr>cw_wroteHeader := True\<rparr>)
           in w1\<lparr>cw_base := wr_step W (WriteHeader code) (cw_base w1)\<rparr>)"

text \<open>What an encoder hands to the response writer; it does not write when it has nothing to say.\<close>

definition emit :: "'w writer \<Rightarrow> string \<Rightarrow> 'w \<Rightarrow> 'w" where
  "emit W out b = (if out = '''' then b else wr_step W (Write out) b)"

definition cw_Write ::
  "'w writer \<Rightarrow> 'e compressor \<Rightarrow> (string \<Rightarrow> string option) \<Rightarrow> Compress \<Rightarrow> string
     \<Rightarrow> ('e, 'w) compressWriter \<Rightarrow> ('e, 'w) compressWriter" where
  "cw_Write W cmp mediatype m p w =
     (let w1 = (if \<not> cw_wroteHeader w then cw_WriteHeader W cmp mediatype m 200 w else w)
      in case cw_encoder w1 of
           None \<Rightarrow> w1\<lparr>cw_base := wr_step W (Write p) (cw_base w1)\<rparr>
         | Some e \<Rightarrow> (case c_Write cmp p e of (e', out) \<Rightarrow>
             w1\<lparr>cw_encoder := Some e', cw_base := emit W out (cw_base w1)\<rparr>))"

definition cw_Flush ::
  "'w writer \<Rightarrow> 'e compressor \<Rightarrow> ('e, 'w) compressWriter \<Rightarrow> ('e, 'w) compressWriter" where
  "cw_Flush W cmp w =
     (case cw_encoder w of
        None \<Rightarrow> w\<lparr>cw_base := wr_step W Flush (cw_base w)\<rparr>
      | Some e \<Rightarrow> (case c_Flush cmp e of (e', out) \<Rightarrow>
          w\<lparr>cw_encoder := Some e', cw_base := wr_step W Flush (emit W out (cw_base w))\<rparr>))"

fun cw_step ::
  "'w writer \<Rightarrow> 'e compressor \<Rightarrow> (string \<Rightarrow> string option) \<Rightarrow> Compress \<Rightarrow> wop
     \<Rightarrow> ('e, 'w) compressWriter \<Rightarrow> ('e, 'w) compressWriter" where
  "cw_step W cmp mediatype m (WriteHeader code) w = cw_WriteHeader W cmp mediatype m code w"
| "cw_step W cmp mediatype m (Write p) w = cw_Write W cmp mediatype m p w"
| "cw_step W cmp mediatype m Flush w = cw_Flush W cmp w"
| "cw_step W cmp mediatype m op w = w\<lparr>cw_base := wr_step W op (cw_base w)\<rparr>"

definition cw_Close :: "'w writer \<Rightarrow> 'e compressor \<Rightarrow> ('e, 'w) compressWriter \<Rightarrow> 'w" where
  "cw_Close W cmp w = (case cw_encoder w of None \<Rightarrow> cw_base w | Some e \<Rightarrow> emit W (c_Close cmp e) (cw_base w))"

text \<open>The conditions on the request, and serving one.\<close>

definition compress_applies :: "Compress \<Rightarrow> HttpRequest \<Rightarrow> bool" where
  "compress_applies m r \<longleftrightarrow> Contains (headerFirst (hr_Header r) ''Accept-Encoding'') (cp_Encoding m) \<and>
     \<not> header_Exists (hr_Header r) ''Sec-Websocket-Key''"

definition compress_vary :: "Compress \<Rightarrow> Header \<Rightarrow> wop list" where
  "compress_vary m hh =
     (if cp_Vary m \<and> ''Accept-Encoding'' \<notin> set (header_vals hh ''Vary'')
      then [HMerge [''Vary'' \<mapsto> header_vals hh ''Vary'' @ [''Accept-Encoding'']]] else [])"

definition Compress_serve ::
  "'w writer \<Rightarrow> 'e compressor \<Rightarrow> (string \<Rightarrow> string option) \<Rightarrow> Compress \<Rightarrow> Handler \<Rightarrow> HttpRequest \<Rightarrow> 'w
     \<Rightarrow> 'w \<times> bool" where
  "Compress_serve W cmp mediatype m h r w =
     (if \<not> compress_applies m r then run_ops (wr_step W) (h r) w
      else if header_Exists (wr_Header W w) ''Content-Encoding'' then run_ops (wr_step W) (h r) w
      else let w1 = fst (run_ops (wr_step W) (compress_vary m (wr_Header W w)) w)
           in case run_ops (cw_step W cmp mediatype m) (h r)
                     \<lparr>cw_base = w1, cw_encoder = None, cw_wroteHeader = False\<rparr> of
                (c, panicked) \<Rightarrow> (cw_Close W cmp c, panicked))"

section \<open>Nothing is lost\<close>

text \<open>The bytes an encoder has written after some writes and flushes, and when it is lossless.\<close>

fun enc_run :: "'e compressor \<Rightarrow> string option list \<Rightarrow> 'e \<Rightarrow> 'e \<times> string" where
  "enc_run cmp [] e = (e, '''')"
| "enc_run cmp (c # cs) e =
     (case (case c of None \<Rightarrow> c_Flush cmp e | Some p \<Rightarrow> c_Write cmp p e) of
        (e1, out) \<Rightarrow> (case enc_run cmp cs e1 of (e2, outs) \<Rightarrow> (e2, out @ outs)))"

fun enc_input :: "string option list \<Rightarrow> string" where
  "enc_input [] = ''''"
| "enc_input (None # cs) = enc_input cs"
| "enc_input (Some p # cs) = p @ enc_input cs"

definition lossless :: "'e compressor \<Rightarrow> (string \<Rightarrow> string option) \<Rightarrow> bool" where
  "lossless cmp dec \<longleftrightarrow>
     (\<forall>cs. case enc_run cmp cs (c_new cmp) of (e, out) \<Rightarrow> dec (out @ c_Close cmp e) = Some (enc_input cs))"

lemma enc_run_snoc:
  "enc_run cmp (cs @ [c]) e =
     (case enc_run cmp cs e of (e1, out) \<Rightarrow>
        (case (case c of None \<Rightarrow> c_Flush cmp e1 | Some p \<Rightarrow> c_Write cmp p e1) of (e2, out') \<Rightarrow> (e2, out @ out')))"
  by (induction cs arbitrary: e) (auto split: prod.splits option.splits)

lemma enc_input_append: "enc_input (cs @ ds) = enc_input cs @ enc_input ds"
  by (induction cs rule: enc_input.induct) auto

definition cw_before :: "ResponseWriter \<Rightarrow> ('e, ResponseWriter) compressWriter \<Rightarrow> bool" where
  "cw_before w c \<longleftrightarrow> rw_status w = None \<and> rw_body w = '''' \<and>
     c = \<lparr>cw_base = w, cw_encoder = None, cw_wroteHeader = False\<rparr>"

text \<open>The header of a compressed response, from the one of the handler.\<close>

definition encoded_header :: "Compress \<Rightarrow> Header \<Rightarrow> Header" where
  "encoded_header m h = h(''Content-Length'' := None, ''Content-Encoding'' \<mapsto> [cp_Encoding m])"

definition cw_coded :: "'e compressor \<Rightarrow> Compress \<Rightarrow> ResponseWriter \<Rightarrow> ('e, ResponseWriter) compressWriter \<Rightarrow> bool" where
  "cw_coded cmp m w c \<longleftrightarrow>
     (\<exists>cs e. cw_encoder c = Some e \<and> enc_run cmp cs (c_new cmp) = (e, rw_body (cw_base c)) \<and>
        rw_body w = enc_input cs \<and> rw_sent (cw_base c) = encoded_header m (rw_sent w))"

definition cw_after :: "'e compressor \<Rightarrow> Compress \<Rightarrow> ResponseWriter \<Rightarrow> ('e, ResponseWriter) compressWriter \<Rightarrow> bool" where
  "cw_after cmp m w c \<longleftrightarrow> cw_wroteHeader c \<and>
     (\<exists>code. rw_status w = Some code \<and> rw_status (cw_base c) = Some code) \<and>
     (cw_encoder c = None \<and> cw_base c = w \<or> cw_coded cmp m w c)"

lemma canonical_length: "CanonicalHeaderKey ''Content-Length'' = ''Content-Length''"
  by code_simp

lemma cw_before_open: "cw_before w c \<Longrightarrow> rw_status w = None"
  by (simp add: cw_before_def)

lemma cw_after_closed: "cw_after cmp m w c \<Longrightarrow> \<exists>code. rw_status w = Some code"
  by (auto simp: cw_after_def)

lemma server_writer_sel [simp]: "wr_step server_writer = rw_step" "wr_Header server_writer = rw_Header"
  by (simp_all add: server_writer_def)

lemma cw_init_cases:
  "cw_init server_writer cmp mediatype m c = c \<or>
   cw_init server_writer cmp mediatype m c =
     c\<lparr>cw_encoder := Some (c_new cmp),
       cw_base := (cw_base c)\<lparr>rw_Header := encoded_header m (rw_Header (cw_base c))\<rparr>\<rparr>"
proof -
  have "(header_Del h ''Content-Length'') ++ [''Content-Encoding'' \<mapsto> [v]] =
      h(''Content-Length'' := None, ''Content-Encoding'' \<mapsto> [v])" for h v
    by (simp add: header_Del_def canonical_length)
  then show ?thesis
    by (simp add: cw_init_def encoded_header_def Let_def)
qed

lemma cw_commit:
  assumes "cw_before w c" and "final_status code"
  shows "cw_after cmp m (rw_WriteHeader code w) (cw_WriteHeader server_writer cmp mediatype m code c)"
proof -
  let ?c = "c\<lparr>cw_wroteHeader := True\<rparr>"
  consider "cw_init server_writer cmp mediatype m ?c = ?c"
    | "cw_init server_writer cmp mediatype m ?c = ?c\<lparr>cw_encoder := Some (c_new cmp),
         cw_base := w\<lparr>rw_Header := encoded_header m (rw_Header w)\<rparr>\<rparr>"
    using cw_init_cases [of cmp mediatype m ?c] assms(1) by (auto simp: cw_before_def)
  then show ?thesis
  proof cases
    case 1
    then show ?thesis
      using assms
      by (auto simp: cw_after_def cw_WriteHeader_def cw_before_def rw_WriteHeader_def
          final_status_def Let_def)
  next
    case 2
    have "cw_coded cmp m (rw_WriteHeader code w) (cw_WriteHeader server_writer cmp mediatype m code c)"
      unfolding cw_coded_def using assms 2
      by (intro exI [of _ "[]"] exI [of _ "c_new cmp"])
        (auto simp: cw_WriteHeader_def cw_before_def rw_WriteHeader_def final_status_def Let_def)
    then show ?thesis
      using assms 2
      by (auto simp: cw_after_def cw_WriteHeader_def cw_before_def rw_WriteHeader_def
          final_status_def Let_def)
  qed
qed

lemma emit_committed:
  "rw_status b = Some code \<Longrightarrow> emit server_writer out b = b\<lparr>rw_body := rw_body b @ out\<rparr>"
  by (simp add: emit_def rw_Write_def rw_WriteHeader_def)

lemma cw_coded_step:
  assumes "cw_coded cmp m w c" and "rw_status w = Some code" and "rw_status (cw_base c) = Some code"
    and "cw_wroteHeader c" and "\<not> is_Panic op"
  shows "cw_coded cmp m (rw_step op w) (cw_step server_writer cmp mediatype m op c)"
proof -
  from assms(1) obtain cs e where
    c: "cw_encoder c = Some e" "enc_run cmp cs (c_new cmp) = (e, rw_body (cw_base c))" "rw_body w = enc_input cs"
      "rw_sent (cw_base c) = encoded_header m (rw_sent w)"
    by (auto simp: cw_coded_def)
  show ?thesis
  proof (cases op)
    case (Write p)
    obtain e' out where "c_Write cmp p e = (e', out)" by force
    with c assms(2-4) Write show ?thesis
      unfolding cw_coded_def
      by (intro exI [of _ "cs @ [Some p]"] exI [of _ e'])
        (simp add: cw_Write_def emit_committed enc_run_snoc enc_input_append rw_Write_def rw_WriteHeader_def)
  next
    case Flush
    obtain e' out where "c_Flush cmp e = (e', out)" by force
    with c assms(2-4) Flush show ?thesis
      unfolding cw_coded_def
      by (intro exI [of _ "cs @ [None]"] exI [of _ e'])
        (simp add: cw_Flush_def emit_committed enc_run_snoc enc_input_append rw_Flush_def rw_WriteHeader_def)
  qed (use c assms in \<open>auto simp: cw_coded_def cw_WriteHeader_def rw_WriteHeader_def\<close>)
qed

lemma cw_plain_step:
  assumes "cw_encoder c = None" and "cw_wroteHeader c" and "rw_status (cw_base c) = Some code" and "\<not> is_Panic op"
  shows "cw_step server_writer cmp mediatype m op c = c\<lparr>cw_base := rw_step op (cw_base c)\<rparr>"
  using assms
  by (cases op) (auto simp: cw_WriteHeader_def cw_Write_def cw_Flush_def rw_WriteHeader_def)

lemma cw_kept:
  assumes "cw_wroteHeader c" and "rw_status (cw_base c) = Some code" and "\<not> is_Panic op"
  shows "cw_wroteHeader (cw_step server_writer cmp mediatype m op c) \<and>
    rw_status (cw_base (cw_step server_writer cmp mediatype m op c)) = Some code"
  using assms
  by (cases op)
    (auto simp: cw_WriteHeader_def cw_Write_def cw_Flush_def emit_committed rw_Write_def rw_Flush_def rw_WriteHeader_def
      Let_def split: option.split prod.split)

lemma cw_after_step:
  assumes "cw_after cmp m w c" and "\<not> is_Panic op"
  shows "cw_after cmp m (rw_step op w) (cw_step server_writer cmp mediatype m op c)"
proof -
  from assms(1) obtain code where code: "cw_wroteHeader c" "rw_status w = Some code" "rw_status (cw_base c) = Some code"
    by (auto simp: cw_after_def)
  have "rw_status (rw_step op w) = Some code"
    by (rule rw_status_kept [OF code(2)])
  moreover have "cw_encoder c = None \<and> cw_base c = w \<Longrightarrow>
      cw_encoder (cw_step server_writer cmp mediatype m op c) = None \<and>
      cw_base (cw_step server_writer cmp mediatype m op c) = rw_step op w"
    using cw_plain_step [OF _ code(1,3) assms(2)] by simp
  ultimately show ?thesis
    using assms(1) cw_kept [OF code(1,3) assms(2)] cw_coded_step [OF _ code(2,3,1) assms(2)]
    unfolding cw_after_def by blast
qed

interpretation cw: commit_layer "cw_step server_writer cmp mediatype m" cw_before "cw_after cmp m" for cmp mediatype m
proof unfold_locales
  fix w :: ResponseWriter and c :: "('a, ResponseWriter) compressWriter" and p
  assume b: "cw_before w c"
  let ?c = "cw_WriteHeader server_writer cmp mediatype m 200 c"
  have k: "cw_after cmp m (rw_WriteHeader 200 w) ?c"
    by (rule cw_commit [OF b]) (simp add: final_status_def)
  then have "cw_step server_writer cmp mediatype m (Write p) c = cw_step server_writer cmp mediatype m (Write p) ?c"
    using b by (simp add: cw_before_def cw_Write_def cw_after_def)
  moreover have "rw_step (Write p) w = rw_step (Write p) (rw_WriteHeader 200 w)"
    by (auto simp: rw_Write_def rw_WriteHeader_def Let_def)
  ultimately show "cw_after cmp m (rw_step (Write p) w) (cw_step server_writer cmp mediatype m (Write p) c)"
    using cw_after_step [OF k, of "Write p" mediatype] by simp
next
  fix w :: ResponseWriter and c :: "('a, ResponseWriter) compressWriter" and op
  assume "cw_before w c" "header_only op"
  then show "cw_before (rw_step op w) (cw_step server_writer cmp mediatype m op c)"
    by (cases op) (auto simp: cw_before_def)
qed (auto dest: cw_before_open cw_after_closed intro: cw_commit cw_after_step)


text \<open>An encoder to see it with: every byte behind a mark, and a mark at the end.\<close>

definition framed :: "unit compressor" where
  "framed = \<lparr>c_new = (), c_Write = (\<lambda>p e. (e, concat (map (\<lambda>c. [CHR ''.'', c]) p))), c_Flush = (\<lambda>e. (e, '''')),
     c_Close = (\<lambda>e. ''$'')\<rparr>"

fun unframe :: "string \<Rightarrow> string option" where
  "unframe [] = None"
| "unframe [c] = (if c = CHR ''$'' then Some [] else None)"
| "unframe (m # c # s) = (if m = CHR ''.'' then map_option ((#) c) (unframe s) else None)"

lemma unframe_cons: "unframe s = Some t \<Longrightarrow> unframe (CHR ''.'' # c # s) = Some (c # t)"
  by simp

lemma unframe_write: "unframe s = Some t \<Longrightarrow> unframe (concat (map (\<lambda>c. [CHR ''.'', c]) p) @ s) = Some (p @ t)"
  by (induction p) simp_all

lemma framed_lossless: "lossless framed unframe"
proof -
  have "unframe (snd (enc_run framed cs ()) @ ''$'') = Some (enc_input cs)" for cs
    by (induction cs rule: enc_input.induct) (auto simp: framed_def unframe_write split: prod.splits)
  moreover have "c_new framed = ()" "c_Close framed e = ''$''" for e
    by (simp_all add: framed_def)
  ultimately show ?thesis
    unfolding lossless_def by (simp add: case_prod_beta)
qed

text \<open>Compressing text for a client that asks for it.\<close>

definition gz :: Compress where
  "gz = \<lparr>cp_Encoding = ''gzip'', cp_Vary = True, cp_Types = ''text/html text/css'', cp_MinLength = 0\<rparr>"

definition gz_request :: HttpRequest where
  "gz_request = (get_from '''' ''/'')\<lparr>hr_Header := [''Accept-Encoding'' \<mapsto> [''gzip'']]\<rparr>"


text \<open>
  A handler that flushes before it writes is served a response no client can read: the header is gone
  without the encoding, and the body is encoded all the same.
\<close>

lemma compress_flush_first_garbles:
  "let h = (\<lambda>r. [HSet ''Content-Type'' ''text/html'', Flush, Write ''hi'']);
       c = finish (Compress_serve server_writer framed Some gz h gz_request new_rw)
   in rw_sent c ''Content-Encoding'' = None \<and> rw_body c = ''.h.i$'' \<and> rw_body (http_serve h gz_request) = ''hi''"
  by code_simp

text \<open>
  A CORS middleware inside a compressing one replaces the \<^verbatim>\<open>Vary\<close> the outer one has set, so the
  compressed response no longer says that it depends on the encodings the client accepts.
\<close>

lemma cors_drops_compress_vary:
  "let m = cors_New\<lparr>cors_AllowAllOrigins := False, cors_AllowOrigins := Some (\<lambda>_. True)\<rparr>;
       h = cors_handler m (\<lambda>_. True) (\<lambda>r. [HSet ''Content-Type'' ''text/html'', Write ''hi'']);
       r = gz_request\<lparr>hr_Header := (hr_Header gz_request)(''Origin'' \<mapsto> [''https://a''])\<rparr>;
       c = finish (Compress_serve server_writer framed Some gz h r new_rw)
   in rw_sent c ''Content-Encoding'' = Some [''gzip''] \<and> rw_sent c ''Vary'' = Some [''Origin'']"
  by code_simp

end
