(* ===== verification/Timeout_Layer.thy ===== *)
theory Timeout_Layer
  imports Response_Layers
begin

text \<open>
  The write-header timeout (\<^verbatim>\<open>pkg/timeout/timeout.go\<close>) and its response writer. The handler and the
  goroutine that waits for the timer run concurrently: a schedule interleaves the handler's operations
  with the timer's firing and with the operations of the timeout handler, which holds the writer's lock
  while it runs.
\<close>

section \<open>The writer\<close>

record 'w timeoutRW =
  tr_base :: 'w
  tr_header :: Header
  tr_wroteHeader :: bool
  tr_timeout :: bool

definition new_timeoutRW :: "'w \<Rightarrow> 'w timeoutRW" where
  "new_timeoutRW w = \<lparr>tr_base = w, tr_header = Map.empty, tr_wroteHeader = False, tr_timeout = False\<rparr>"

definition tr_WriteHeader :: "'w writer \<Rightarrow> int \<Rightarrow> 'w timeoutRW \<Rightarrow> 'w timeoutRW" where
  "tr_WriteHeader W code w =
     (if tr_wroteHeader w then w
      else let w1 = w\<lparr>tr_wroteHeader := True\<rparr>
           in if tr_timeout w then w1
              else w1\<lparr>tr_base := wr_step W (WriteHeader code) (wr_step W (HMerge (tr_header w)) (tr_base w))\<rparr>)"

definition tr_Write :: "'w writer \<Rightarrow> string \<Rightarrow> 'w timeoutRW \<Rightarrow> 'w timeoutRW" where
  "tr_Write W p w =
     (let w1 = (if \<not> tr_wroteHeader w then tr_WriteHeader W 200 w else w)
      in if tr_timeout w1 then w1 else w1\<lparr>tr_base := wr_step W (Write p) (tr_base w1)\<rparr>)"

fun tr_step :: "'w writer \<Rightarrow> wop \<Rightarrow> 'w timeoutRW \<Rightarrow> 'w timeoutRW" where
  "tr_step W (WriteHeader code) w = tr_WriteHeader W code w"
| "tr_step W (Write p) w = tr_Write W p w"
| "tr_step W Flush w = w\<lparr>tr_base := wr_step W Flush (tr_base w)\<rparr>"
| "tr_step W op w = w\<lparr>tr_header := header_op op (tr_header w)\<rparr>"

section \<open>The handler and the timer\<close>

definition default_TimeoutHandler :: Handler where
  "default_TimeoutHandler r = http_Error ''Gateway Timeout'' 504"

datatype timer = Waiting | Firing "wop list" | Stopped

record tsys =
  ts_rw :: "ResponseWriter timeoutRW"
  ts_ops :: "wop list"
  ts_timer :: timer
  ts_returned :: bool

text \<open>
  Writing takes the lock, which the goroutine holds while it fires. A handler that has returned ends the
  request: the server answers 200 if no status was sent, and takes nothing after that.
\<close>

fun locking :: "wop \<Rightarrow> bool" where
  "locking (WriteHeader code) \<longleftrightarrow> True"
| "locking (Write p) \<longleftrightarrow> True"
| "locking op \<longleftrightarrow> False"

definition on_base :: "(ResponseWriter \<Rightarrow> ResponseWriter) \<Rightarrow> tsys \<Rightarrow> tsys" where
  "on_base f s = s\<lparr>ts_rw := (ts_rw s)\<lparr>tr_base := f (tr_base (ts_rw s))\<rparr>\<rparr>"

definition handler_step :: "tsys \<Rightarrow> tsys" where
  "handler_step s =
     (if ts_returned s then s
      else case ts_ops s of
             [] \<Rightarrow> (on_base (rw_WriteHeader 200) s)\<lparr>ts_returned := True\<rparr>
           | op # ops \<Rightarrow>
               if is_Panic op then s\<lparr>ts_returned := True\<rparr>
               else if locking op \<and> (\<exists>th. ts_timer s = Firing th) then s
               else s\<lparr>ts_rw := tr_step server_writer op (ts_rw s), ts_ops := ops\<rparr>)"

definition timer_fires :: "wop list \<Rightarrow> tsys \<Rightarrow> tsys" where
  "timer_fires th s =
     (if ts_timer s \<noteq> Waiting then s
      else if tr_wroteHeader (ts_rw s) then s\<lparr>ts_timer := Stopped\<rparr>
      else s\<lparr>ts_rw := (ts_rw s)\<lparr>tr_timeout := True\<rparr>, ts_timer := Firing th\<rparr>)"

definition timer_step :: "tsys \<Rightarrow> tsys" where
  "timer_step s =
     (case ts_timer s of
        Firing [] \<Rightarrow> s\<lparr>ts_timer := Stopped\<rparr>
      | Firing (op # th) \<Rightarrow>
          (if ts_returned s then s\<lparr>ts_timer := Firing th\<rparr>
           else if is_Panic op then s\<lparr>ts_timer := Stopped\<rparr>
           else (on_base (rw_step op) s)\<lparr>ts_timer := Firing th\<rparr>)
      | _ \<Rightarrow> s)"

datatype tevent = HandlerRuns | TimerFires | TimerRuns

fun tsys_step :: "wop list \<Rightarrow> tevent \<Rightarrow> tsys \<Rightarrow> tsys" where
  "tsys_step th HandlerRuns s = handler_step s"
| "tsys_step th TimerFires s = timer_fires th s"
| "tsys_step th TimerRuns s = timer_step s"

text \<open>A request through the middleware, on a schedule; a timeout that is not positive turns it off.\<close>

definition timeout_start :: "Handler \<Rightarrow> HttpRequest \<Rightarrow> tsys" where
  "timeout_start h r = \<lparr>ts_rw = new_timeoutRW new_rw, ts_ops = h r, ts_timer = Waiting, ts_returned = False\<rparr>"

definition Timeout_run :: "Handler \<Rightarrow> Handler \<Rightarrow> HttpRequest \<Rightarrow> tevent list \<Rightarrow> tsys" where
  "Timeout_run th h r evs = fold (tsys_step (th r)) evs (timeout_start h r)"

section \<open>One response\<close>

definition tr_before :: "ResponseWriter \<Rightarrow> ResponseWriter timeoutRW \<Rightarrow> bool" where
  "tr_before w t \<longleftrightarrow> (\<exists>h. w = new_rw\<lparr>rw_Header := h\<rparr> \<and> t = (new_timeoutRW new_rw)\<lparr>tr_header := h\<rparr>)"

definition tr_after :: "ResponseWriter \<Rightarrow> ResponseWriter timeoutRW \<Rightarrow> bool" where
  "tr_after w t \<longleftrightarrow> tr_wroteHeader t \<and> \<not> tr_timeout t \<and> rw_status w \<noteq> None \<and>
     rw_status (tr_base t) = rw_status w \<and> rw_sent (tr_base t) = rw_sent w \<and> rw_body (tr_base t) = rw_body w"

lemma tr_before_open: "tr_before w t \<Longrightarrow> rw_status w = None"
  by (auto simp: tr_before_def new_rw_def)

lemma tr_after_closed: "tr_after w t \<Longrightarrow> \<exists>c. rw_status w = Some c"
  by (auto simp: tr_after_def)

lemma tr_commit:
  assumes "tr_before w t" and "final_status code"
  shows "tr_after (rw_WriteHeader code w) (tr_WriteHeader server_writer code t)"
  using assms
  by (auto simp: tr_before_def tr_after_def tr_WriteHeader_def new_timeoutRW_def new_rw_def server_writer_def
      rw_WriteHeader_def final_status_def)

lemma tr_after_step:
  assumes "tr_after w t" and "\<not> is_Panic op"
  shows "tr_after (rw_step op w) (tr_step server_writer op t)"
  using assms
  by (cases op)
    (auto simp: tr_after_def tr_WriteHeader_def tr_Write_def server_writer_def rw_WriteHeader_def rw_Write_def
      rw_Flush_def Let_def)

interpretation tr: commit_layer "tr_step server_writer" tr_before tr_after
proof unfold_locales
  fix w t p
  assume b: "tr_before w t"
  let ?t = "tr_WriteHeader server_writer 200 t"
  have c: "tr_after (rw_WriteHeader 200 w) ?t"
    by (rule tr_commit [OF b]) (simp add: final_status_def)
  have "tr_step server_writer (Write p) t = tr_step server_writer (Write p) ?t"
    using b c by (auto simp: tr_before_def new_timeoutRW_def tr_Write_def tr_after_def)
  moreover have "rw_step (Write p) w = rw_step (Write p) (rw_WriteHeader 200 w)"
    by (auto simp: rw_Write_def rw_WriteHeader_def Let_def)
  ultimately show "tr_after (rw_step (Write p) w) (tr_step server_writer (Write p) t)"
    using tr_after_step [OF c, of "Write p"] by simp
next
  fix w t op
  assume "tr_before w t" "header_only op"
  then show "tr_before (rw_step op w) (tr_step server_writer op t)"
    by (cases op) (auto simp: tr_before_def new_timeoutRW_def)
qed (auto dest: tr_before_open tr_after_closed intro: tr_commit tr_after_step)

text \<open>An operation the claim below admits: no panic, no flush, and no informational status.\<close>

definition tame :: "wop \<Rightarrow> bool" where
  "tame op \<longleftrightarrow> \<not> is_Panic op \<and> op \<noteq> Flush \<and> (\<forall>code. op = WriteHeader code \<longrightarrow> final_status code)"

lemma tame_cases:
  assumes "tame op"
  shows "header_only op \<and> \<not> locking op \<or> (\<exists>code. op = WriteHeader code \<and> final_status code) \<or> (\<exists>p. op = Write p)"
  using assms by (cases op) (auto simp: tame_def)

definition own_response :: "wop list \<Rightarrow> ResponseWriter \<Rightarrow> bool" where
  "own_response ops b \<longleftrightarrow>
     (let w = rw_WriteHeader 200 (fold rw_step ops new_rw)
      in rw_status b = rw_status w \<and> rw_body b = rw_body w \<and>
         (rw_sent b = rw_sent w \<or> list_all header_only ops \<and> rw_sent b = Map.empty))"

definition late_response :: "wop list \<Rightarrow> wop list \<Rightarrow> ResponseWriter \<Rightarrow> bool" where
  "late_response ops th b \<longleftrightarrow> (\<exists>pre rest. th = pre @ rest \<and> (rest = [] \<or> list_all header_only ops) \<and>
     b = rw_WriteHeader 200 (fold rw_step pre new_rw))"

text \<open>What holds at every moment, after the handler's operations \<^verbatim>\<open>ds\<close>.\<close>

definition on_time :: "wop list \<Rightarrow> tsys \<Rightarrow> bool" where
  "on_time ds s \<longleftrightarrow> \<not> tr_timeout (ts_rw s) \<and> (\<forall>t. ts_timer s \<noteq> Firing t) \<and>
     tr.follows (fold rw_step ds new_rw) (ts_rw s) \<and> (\<not> tr_wroteHeader (ts_rw s) \<longrightarrow> list_all header_only ds)"

definition timed_out :: "wop list \<Rightarrow> wop list \<Rightarrow> tsys \<Rightarrow> bool" where
  "timed_out th ds s \<longleftrightarrow> tr_timeout (ts_rw s) \<and>
     (\<exists>pre rest. th = pre @ rest \<and> tr_base (ts_rw s) = fold rw_step pre new_rw \<and>
        (ts_timer s = Firing rest \<and> list_all header_only ds \<or> ts_timer s = Stopped \<and> rest = []))"

definition tinv :: "wop list \<Rightarrow> wop list \<Rightarrow> tsys \<Rightarrow> bool" where
  "tinv ops th s \<longleftrightarrow>
     (if ts_returned s then own_response ops (tr_base (ts_rw s)) \<or> late_response ops th (tr_base (ts_rw s))
      else \<exists>ds. ops = ds @ ts_ops s \<and> (on_time ds s \<or> timed_out th ds s))"

lemma follows_end:
  assumes "tr.follows (fold rw_step ops new_rw) t" and "\<not> tr_wroteHeader t \<longrightarrow> list_all header_only ops"
  shows "own_response ops (rw_WriteHeader 200 (tr_base t))"
proof (cases "rw_status (fold rw_step ops new_rw)")
  case None
  then have "tr_before (fold rw_step ops new_rw) t"
    using assms(1) by (simp add: tr.follows_def)
  then obtain h where h: "fold rw_step ops new_rw = new_rw\<lparr>rw_Header := h\<rparr>" "t = (new_timeoutRW new_rw)\<lparr>tr_header := h\<rparr>"
    by (auto simp: tr_before_def)
  then have "list_all header_only ops"
    using assms(2) by (simp add: new_timeoutRW_def)
  then show ?thesis
    unfolding own_response_def h by (simp add: rw_WriteHeader_def new_timeoutRW_def new_rw_def)
next
  case (Some c)
  then have "tr_after (fold rw_step ops new_rw) t"
    using assms(1) by (simp add: tr.follows_def)
  then show ?thesis
    using Some by (simp add: own_response_def tr_after_def rw_WriteHeader_def)
qed

lemma follows_step:
  assumes "tr.follows w t" and "tame op"
  shows "tr.follows (rw_step op w) (tr_step server_writer op t)"
proof (cases "rw_status w")
  case None
  then have b: "tr_before w t"
    using assms(1) by (simp add: tr.follows_def)
  from tame_cases [OF assms(2)] show ?thesis
  proof (elim disjE conjE exE)
    assume "header_only op"
    from tr.header_step [OF b this] show ?thesis
      by (simp add: tr.follows_def tr_before_open)
  next
    fix code
    assume "op = WriteHeader code" "final_status code"
    with tr.status_step [OF b, of code] show ?thesis
      by (auto simp: tr.follows_def dest: tr_after_closed)
  next
    fix p
    assume "op = Write p"
    with tr.write_step [OF b, of p] show ?thesis
      by (auto simp: tr.follows_def dest: tr_after_closed)
  qed
next
  case (Some c)
  then have "tr_after w t"
    using assms(1) by (simp add: tr.follows_def)
  from tr_after_step [OF this, of op] show ?thesis
    using assms(2) by (auto simp: tr.follows_def tame_def dest: tr_after_closed)
qed

lemma tr_step_timeout: "tr_timeout (tr_step W op t) = tr_timeout t"
  by (cases op) (simp_all add: tr_WriteHeader_def tr_Write_def Let_def)

lemma tr_step_locking: "locking op \<Longrightarrow> tr_wroteHeader (tr_step W op t)"
  by (cases op) (simp_all add: tr_WriteHeader_def tr_Write_def Let_def)

lemma tr_step_header: "\<not> locking op \<Longrightarrow> tr_wroteHeader (tr_step W op t) = tr_wroteHeader t"
  by (cases op) simp_all

lemma late_step_base: "tr_timeout t \<Longrightarrow> op \<noteq> Flush \<Longrightarrow> tr_base (tr_step W op t) = tr_base t"
  by (cases op) (simp_all add: tr_WriteHeader_def tr_Write_def Let_def)

lemma handler_keeps:
  assumes "tinv ops th s" and "list_all tame ops"
  shows "tinv ops th (handler_step s)"
proof (cases "ts_returned s")
  case True
  then show ?thesis using assms(1) by (simp add: handler_step_def)
next
  case False
  then obtain ds where ds: "ops = ds @ ts_ops s" "on_time ds s \<or> timed_out th ds s"
    using assms(1) by (auto simp: tinv_def)
  show ?thesis
  proof (cases "ts_ops s")
    case Nil
    then have s: "handler_step s = (on_base (rw_WriteHeader 200) s)\<lparr>ts_returned := True\<rparr>"
      using False by (simp add: handler_step_def)
    have "own_response ops (rw_WriteHeader 200 (tr_base (ts_rw s)))" if "on_time ds s"
      using that follows_end [of ds "ts_rw s"] ds(1) Nil by (simp add: on_time_def)
    moreover have "late_response ops th (rw_WriteHeader 200 (tr_base (ts_rw s)))" if "timed_out th ds s"
    proof -
      from that obtain pre rest where p: "th = pre @ rest" "tr_base (ts_rw s) = fold rw_step pre new_rw"
          "ts_timer s = Firing rest \<and> list_all header_only ds \<or> ts_timer s = Stopped \<and> rest = []"
        unfolding timed_out_def by (elim conjE exE)
      have "rest = [] \<or> list_all header_only ops"
        using p(3) ds(1) Nil by auto
      with p(1,2) show ?thesis
        unfolding late_response_def by (intro exI [of _ pre] exI [of _ rest]) simp
    qed
    ultimately show ?thesis
      using ds(2) by (auto simp: tinv_def s on_base_def)
  next
    case (Cons op rest)
    have tame: "tame op"
      using assms(2) ds(1) Cons by simp
    then have np: "\<not> is_Panic op" "op \<noteq> Flush"
      by (simp_all add: tame_def)
    show ?thesis
    proof (cases "locking op \<and> (\<exists>t. ts_timer s = Firing t)")
      case True
      then show ?thesis
        using assms(1) False Cons np(1) by (simp add: handler_step_def)
    next
      case nb: False
      let ?t = "tr_step server_writer op (ts_rw s)"
      have s: "handler_step s = s\<lparr>ts_rw := ?t, ts_ops := rest\<rparr>"
        using nb False Cons np(1) by (auto simp: handler_step_def)
      have ho: "header_only op" if "\<not> locking op"
        using tame_cases [OF tame] that by auto
      have "on_time (ds @ [op]) (handler_step s)" if o: "on_time ds s"
        using o follows_step [OF _ tame, of "fold rw_step ds new_rw" "ts_rw s"] ho
          tr_step_timeout [of server_writer op "ts_rw s"] tr_step_locking [of op server_writer "ts_rw s"]
          tr_step_header [of op server_writer "ts_rw s"]
        by (auto simp: on_time_def s)
      moreover have "timed_out th (ds @ [op]) (handler_step s)" if o: "timed_out th ds s"
      proof -
        have "tr_base ?t = tr_base (ts_rw s)" "tr_timeout ?t"
          using late_step_base [OF _ np(2), of "ts_rw s" server_writer] o
          by (simp_all add: timed_out_def tr_step_timeout)
        then show ?thesis
          using o nb ho by (auto simp: timed_out_def s)
      qed
      moreover have "ops = (ds @ [op]) @ ts_ops (handler_step s)"
        using ds(1) Cons by (simp add: s)
      moreover have "\<not> ts_returned (handler_step s)"
        using False by (simp add: s)
      ultimately show ?thesis
        using ds(2) unfolding tinv_def by metis
    qed
  qed
qed

lemma fires_keeps:
  assumes "tinv ops th s"
  shows "tinv ops th (timer_fires th s)"
proof (cases "ts_returned s \<or> ts_timer s \<noteq> Waiting")
  case True
  then show ?thesis using assms by (auto simp: tinv_def timer_fires_def)
next
  case False
  then obtain ds where ds: "ops = ds @ ts_ops s" "on_time ds s"
    using assms by (auto simp: tinv_def timed_out_def)
  show ?thesis
  proof (cases "tr_wroteHeader (ts_rw s)")
    case True
    then have "on_time ds (timer_fires th s)" "ts_ops (timer_fires th s) = ts_ops s"
      using ds(2) False by (simp_all add: on_time_def timer_fires_def)
    then show ?thesis
      using ds(1) False True by (auto simp: tinv_def timer_fires_def)
  next
    case w: False
    have "tr_base (ts_rw s) = new_rw"
      using ds(2) w by (auto simp: on_time_def tr.follows_def tr_after_def tr_before_def new_timeoutRW_def split: if_splits)
    then have "timed_out th ds (timer_fires th s)"
      using ds(2) False w by (auto simp: timed_out_def on_time_def timer_fires_def)
    then show ?thesis
      using ds(1) False w by (auto simp: tinv_def timer_fires_def)
  qed
qed

lemma timer_keeps:
  assumes "tinv ops th s" and "list_all (\<lambda>op. \<not> is_Panic op) th"
  shows "tinv ops th (timer_step s)"
proof (cases "ts_returned s")
  case True
  then show ?thesis
    using assms(1) by (auto simp: tinv_def timer_step_def split: timer.split list.split)
next
  case False
  then obtain ds where ds: "ops = ds @ ts_ops s" "on_time ds s \<or> timed_out th ds s"
    using assms(1) by (auto simp: tinv_def)
  show ?thesis
  proof (cases "\<exists>t. ts_timer s = Firing t")
    case False
    then have "timer_step s = s"
      by (cases "ts_timer s") (simp_all add: timer_step_def)
    with assms(1) show ?thesis by simp
  next
    case True
    with ds(2) obtain pre rest where p: "th = pre @ rest" "tr_base (ts_rw s) = fold rw_step pre new_rw"
        "ts_timer s = Firing rest" "list_all header_only ds" "tr_timeout (ts_rw s)"
      by (auto simp: on_time_def timed_out_def)
    have "timed_out th ds (timer_step s) \<and> ts_ops (timer_step s) = ts_ops s \<and> \<not> ts_returned (timer_step s)"
    proof (cases rest)
      case Nil
      then show ?thesis
        using p False by (auto simp: timed_out_def timer_step_def)
    next
      case (Cons op t)
      then have "\<not> is_Panic op" using assms(2) p(1) by simp
      then show ?thesis
        using p Cons False unfolding timed_out_def
        by (auto simp: timer_step_def on_base_def intro!: exI [of _ "pre @ [op]"] exI [of _ t])
    qed
    then show ?thesis
      using ds(1) by (auto simp: tinv_def)
  qed
qed

lemma timeout_invariant:
  assumes "list_all tame (h r)" and "list_all (\<lambda>op. \<not> is_Panic op) (th r)"
  shows "tinv (h r) (th r) (Timeout_run th h r evs)"
proof (induction evs rule: rev_induct)
  case Nil
  have "on_time [] (timeout_start h r)"
    by (auto simp: on_time_def timeout_start_def new_timeoutRW_def tr.follows_def tr_before_def new_rw_def
        intro!: exI [of _ Map.empty])
  then show ?case
    by (auto simp: tinv_def Timeout_run_def timeout_start_def)
next
  case (snoc e evs)
  then show ?case
    using handler_keeps [OF snoc assms(1)] fires_keeps [OF snoc] timer_keeps [OF snoc assms(2)]
    by (cases e) (simp_all add: Timeout_run_def)
qed



text \<open>
  Three cases the contract leaves out. A handler that obeys the cancelled context and returns without a
  word may be answered 200 instead of the timeout's status. The headers of a handler that only sets
  headers are lost. And a handler's flush goes past the lock, so that the timeout's text is sent with
  status 200.
\<close>

lemma timeout_lost_to_return:
  "let s = Timeout_run default_TimeoutHandler (\<lambda>r. []) r [TimerFires, HandlerRuns, TimerRuns]
   in ts_returned s \<and> tr_timeout (ts_rw s) \<and> rw_status (tr_base (ts_rw s)) = Some 200 \<and> rw_body (tr_base (ts_rw s)) = ''''"
  by (simp add: Timeout_run_def timeout_start_def new_timeoutRW_def handler_step_def timer_fires_def timer_step_def
      on_base_def new_rw_def rw_WriteHeader_def default_TimeoutHandler_def http_Error_def)

lemma timeout_drops_headers:
  "let h = (\<lambda>r. [HSet ''X-Version'' ''2'']); s = Timeout_run default_TimeoutHandler h r [HandlerRuns, HandlerRuns]
   in ts_returned s \<and> rw_sent (tr_base (ts_rw s)) = Map.empty \<and> rw_sent (http_serve h r) \<noteq> Map.empty"
  by (simp add: Timeout_run_def timeout_start_def new_timeoutRW_def handler_step_def on_base_def new_rw_def
      rw_WriteHeader_def http_serve_finish finish_def header_Set_def)

lemma timeout_flush_mixes:
  "let s = Timeout_run default_TimeoutHandler (\<lambda>r. [Flush]) r ([TimerFires, HandlerRuns] @ replicate 5 TimerRuns)
   in rw_status (tr_base (ts_rw s)) = Some 200 \<and> rw_body (tr_base (ts_rw s)) = ''Gateway Timeout'' @ [CHR 0x0A]"
  by (simp add: Timeout_run_def timeout_start_def new_timeoutRW_def handler_step_def timer_fires_def timer_step_def
      on_base_def new_rw_def rw_WriteHeader_def rw_Flush_def rw_Write_def default_TimeoutHandler_def http_Error_def
      numeral_eq_Suc server_writer_def)

end
