(* ===== verification/Proxy_Protocol.thy ===== *)
theory Proxy_Protocol
  imports Go_Http
begin

text \<open>
  The PROXY protocol (\<^verbatim>\<open>pkg/proxyprotocol\<close>): parsing the headers of version 1 and 2, and the connection
  that parses one on its first use. A connection is the bytes it will deliver; a read beyond them fails,
  by the end of the stream or the deadline. \<^verbatim>\<open>net.ParseIP\<close> is a parameter that gives the bytes of an
  address.
\<close>

section \<open>Parsing\<close>

definition v2Signature :: string where
  "v2Signature = map char_of [0x0D, 0x0A, 0x0D, 0x0A, 0x00, 0x0D, 0x0A, 0x51, 0x55, 0x49, 0x54, 0x0A :: nat]"

definition v1Prefix :: string where
  "v1Prefix = ''PROXY ''"

datatype pp_error = NoHeader | Malformed | IOError

record TCPAddr =
  ta_IP :: string
  ta_Port :: int

definition maxV1Line :: nat where
  "maxV1Line = 108"

text \<open>The size of the reader's buffer, which bounds a line.\<close>

definition bufio_size :: nat where
  "bufio_size = 4096"

definition newline :: char where
  "newline = CHR 0x0A"

definition crlf :: string where
  "crlf = [CHR 0x0D, CHR 0x0A]"

type_synonym pp_result = "pp_error + TCPAddr option"

definition ReadSlice :: "string \<Rightarrow> (pp_error + string) \<times> string" where
  "ReadSlice s =
     (let pre = takeWhile (\<lambda>c. c \<noteq> newline) s
      in if newline \<in> set (take bufio_size s) then (Inr (pre @ [newline]), drop (length pre + 1) s)
         else if bufio_size \<le> length s then (Inl Malformed, drop bufio_size s)
         else (Inl IOError, ''''))"

definition parseV1_line :: "(string \<Rightarrow> string option) \<Rightarrow> string \<Rightarrow> pp_result" where
  "parseV1_line parseIP line =
     (if maxV1Line < length line \<or> \<not> HasSuffix line crlf then Inl Malformed
      else let fields = split_on CHR '' '' (take (length line - 2) line)
           in if length fields < 2 \<or> fields ! 0 \<noteq> ''PROXY'' then Inl Malformed
              else if fields ! 1 = ''TCP4'' \<or> fields ! 1 = ''TCP6'' then
                (if length fields \<noteq> 6 then Inl Malformed
                 else case (parseIP (fields ! 2), ParseInt (fields ! 4)) of
                        (Some ip, Some port) \<Rightarrow>
                          if port < 0 \<or> 65535 < port then Inl Malformed
                          else Inr (Some \<lparr>ta_IP = ip, ta_Port = port\<rparr>)
                      | _ \<Rightarrow> Inl Malformed)
              else if fields ! 1 = ''UNKNOWN'' then Inr None
              else Inl Malformed)"

definition parseV1 :: "(string \<Rightarrow> string option) \<Rightarrow> string \<Rightarrow> pp_result \<times> string" where
  "parseV1 parseIP s =
     (case ReadSlice s of
        (Inl e, rest) \<Rightarrow> (Inl e, rest)
      | (Inr line, rest) \<Rightarrow> (parseV1_line parseIP line, rest))"

text \<open>\<^verbatim>\<open>io.ReadFull\<close> and \<^verbatim>\<open>discard\<close> fail at the end of the stream.\<close>

definition ReadFull :: "nat \<Rightarrow> string \<Rightarrow> (string \<times> string) option" where
  "ReadFull n s = (if length s < n then None else Some (take n s, drop n s))"

definition discard :: "int \<Rightarrow> string \<Rightarrow> string option" where
  "discard n s = (if n \<le> 0 then Some s else if length s < nat n then None else Some (drop (nat n) s))"

definition be16 :: "string \<Rightarrow> nat" where
  "be16 b = 256 * byte (b ! 0) + byte (b ! 1)"

text \<open>The end of the parse: what is left of the block is dropped, and the address stands.\<close>

definition v2_rest :: "TCPAddr option \<Rightarrow> int \<Rightarrow> string \<Rightarrow> pp_result \<times> string" where
  "v2_rest src n s = (case discard n s of None \<Rightarrow> (Inl IOError, '''') | Some rest \<Rightarrow> (Inr src, rest))"

definition v2_address :: "nat \<Rightarrow> nat \<Rightarrow> nat \<Rightarrow> string \<Rightarrow> pp_result \<times> string" where
  "v2_address ipLen addrLen len s =
     (if len < addrLen then (Inl Malformed, s)
      else case ReadFull addrLen s of
             None \<Rightarrow> (Inl IOError, '''')
           | Some (b, rest) \<Rightarrow>
               v2_rest (Some \<lparr>ta_IP = take ipLen b, ta_Port = int (be16 (drop (2 * ipLen) b))\<rparr>)
                 (int len - int addrLen) rest)"

definition parseV2 :: "string \<Rightarrow> pp_result \<times> string" where
  "parseV2 s =
     (case ReadFull 16 s of
        None \<Rightarrow> (Inl IOError, '''')
      | Some (hdr, rest) \<Rightarrow>
          let verCmd = byte (hdr ! 12); cmd = verCmd mod 16; family = byte (hdr ! 13) div 16;
              len = be16 (drop 14 hdr)
          in if verCmd div 16 \<noteq> 2 then (Inl Malformed, rest)
             else if cmd = 0 then v2_rest None (int len) rest
             else if cmd \<noteq> 1 then (Inl Malformed, rest)
             else if family = 1 then v2_address 4 12 len rest
             else if family = 2 then v2_address 16 36 len rest
             else if family = 0 \<or> family = 3 then v2_rest None (int len) rest
             else (Inl Malformed, rest))"

definition parseHeader :: "(string \<Rightarrow> string option) \<Rightarrow> string \<Rightarrow> pp_result \<times> string" where
  "parseHeader parseIP s =
     (let buf = take (length v2Signature) s
      in if buf = v2Signature then parseV2 s
         else if length v1Prefix \<le> length buf \<and> take (length v1Prefix) buf = v1Prefix then parseV1 parseIP s
         else (Inl NoHeader, s))"

section \<open>Connections\<close>

record Modifier =
  pm_trusted :: "(string \<Rightarrow> bool) list"
  pm_Require :: bool
  pm_HeaderTimeout :: int

definition headerTimeout :: "Modifier \<Rightarrow> int" where
  "headerTimeout m = (if pm_HeaderTimeout m = 0 then 10 * 10 ^ 9 else pm_HeaderTimeout m)"

definition pp_New :: "(string \<Rightarrow> (string \<Rightarrow> bool) option) \<Rightarrow> string list \<Rightarrow> Modifier option" where
  "pp_New parseCIDR cidrs =
     map_option (\<lambda>nets. \<lparr>pm_trusted = nets, pm_Require = False, pm_HeaderTimeout = 0\<rparr>) (those (map parseCIDR cidrs))"

text \<open>The peer's address is a TCP address, or one without an IP, which only an open list trusts.\<close>

definition trusts :: "Modifier \<Rightarrow> TCPAddr option \<Rightarrow> bool" where
  "trusts m addr =
     (if pm_trusted m = [] then True
      else case addr of None \<Rightarrow> False | Some a \<Rightarrow> list_ex (\<lambda>n. n (ta_IP a)) (pm_trusted m))"

record conn =
  pc_peer :: "TCPAddr option"
  pc_stream :: string
  pc_wrapped :: bool
  pc_require :: bool
  pc_once :: bool
  pc_remoteAddr :: "TCPAddr option"
  pc_parseErr :: "pp_error option"

definition ModifyConnection :: "Modifier \<Rightarrow> TCPAddr option \<Rightarrow> string \<Rightarrow> conn" where
  "ModifyConnection m peer s =
     \<lparr>pc_peer = peer, pc_stream = s, pc_wrapped = trusts m peer, pc_require = pm_Require m, pc_once = False,
      pc_remoteAddr = None, pc_parseErr = None\<rparr>"

definition conn_parse :: "(string \<Rightarrow> string option) \<Rightarrow> conn \<Rightarrow> conn" where
  "conn_parse parseIP c =
     (if pc_once c \<or> \<not> pc_wrapped c then c
      else case parseHeader parseIP (pc_stream c) of
             (Inl NoHeader, rest) \<Rightarrow>
               c\<lparr>pc_once := True, pc_stream := rest, pc_parseErr := if pc_require c then Some NoHeader else None\<rparr>
           | (Inl e, rest) \<Rightarrow> c\<lparr>pc_once := True, pc_stream := rest, pc_parseErr := Some e\<rparr>
           | (Inr src, rest) \<Rightarrow> c\<lparr>pc_once := True, pc_stream := rest, pc_remoteAddr := src\<rparr>)"

text \<open>A read of at most \<^verbatim>\<open>n\<close> bytes, and the address of the client.\<close>

definition conn_Read :: "(string \<Rightarrow> string option) \<Rightarrow> nat \<Rightarrow> conn \<Rightarrow> (pp_error + string) \<times> conn" where
  "conn_Read parseIP n c =
     (let c1 = conn_parse parseIP c
      in case pc_parseErr c1 of
           Some e \<Rightarrow> (Inl e, c1)
         | None \<Rightarrow> (Inr (take n (pc_stream c1)), c1\<lparr>pc_stream := drop n (pc_stream c1)\<rparr>))"

definition conn_RemoteAddr :: "(string \<Rightarrow> string option) \<Rightarrow> conn \<Rightarrow> TCPAddr option \<times> conn" where
  "conn_RemoteAddr parseIP c =
     (let c1 = conn_parse parseIP c
      in (case pc_remoteAddr c1 of Some a \<Rightarrow> Some a | None \<Rightarrow> pc_peer c1, c1))"

section \<open>Round trips\<close>

text \<open>What a load balancer sends: a version 2 header with some extensions, and a version 1 line.\<close>

definition enc16 :: "nat \<Rightarrow> string" where
  "enc16 n = [char_of (n div 256), char_of (n mod 256)]"

definition encode_v2 :: "nat \<Rightarrow> nat \<Rightarrow> string \<Rightarrow> string" where
  "encode_v2 cmd family body =
     v2Signature @ [char_of (32 + cmd), char_of (16 * family + 1)] @ enc16 (length body) @ body"

definition encode_v1 :: "string \<Rightarrow> string \<Rightarrow> string \<Rightarrow> int \<Rightarrow> int \<Rightarrow> string" where
  "encode_v1 proto src dst sport dport =
     join_with CHR '' '' [''PROXY'', proto, src, dst, FormatInt sport, FormatInt dport] @ crlf"

lemma be16_enc16: "n < 65536 \<Longrightarrow> be16 (enc16 n @ s) = n"
proof -
  assume "n < 65536"
  then have "n div 256 < 256" by (simp add: less_mult_imp_div_less)
  moreover have "byte (char_of n) = n mod 256" by (simp add: byte_def)
  ultimately show ?thesis by (simp add: be16_def enc16_def byte_char_of)
qed

lemma length_v2Signature [simp]: "length v2Signature = 12"
  by (simp add: v2Signature_def)

lemma length_enc16 [simp]: "length (enc16 n) = 2"
  by (simp add: enc16_def)

lemma parseHeader_marks:
  "parseHeader parseIP s =
     (if take 12 s = v2Signature then parseV2 s
      else if take 6 s = v1Prefix then parseV1 parseIP s else (Inl NoHeader, s))"
proof -
  have p: "length v1Prefix = 6" by (simp add: v1Prefix_def)
  have "length v1Prefix \<le> length (take 12 s) \<and> take (length v1Prefix) (take 12 s) = v1Prefix \<longleftrightarrow> take 6 s = v1Prefix"
  proof
    assume "take 6 s = v1Prefix"
    then have "length (take 6 s) = 6" using p by simp
    then have "6 \<le> length s" by (simp add: min_def split: if_splits)
    then show "length v1Prefix \<le> length (take 12 s) \<and> take (length v1Prefix) (take 12 s) = v1Prefix"
      using \<open>take 6 s = v1Prefix\<close> p by (simp add: min_def split: if_splits)
  qed (simp add: p min_def)
  then show ?thesis
    unfolding parseHeader_def Let_def by simp
qed

lemma parse_encode_v2:
  assumes "cmd < 2" and "family < 4" and "length body < 65536"
  shows "parseHeader parseIP (encode_v2 cmd family body @ payload) =
    (if cmd = 0 \<or> family = 0 \<or> family = 3 then v2_rest None (int (length body)) (body @ payload)
     else if family = 1 then v2_address 4 12 (length body) (body @ payload)
     else v2_address 16 36 (length body) (body @ payload))"
proof -
  let ?h = "v2Signature @ [char_of (32 + cmd), char_of (16 * family + 1)] @ enc16 (length body)"
  have h: "length ?h = 16" "?h ! 12 = char_of (32 + cmd)" "?h ! 13 = char_of (16 * family + 1)"
    "drop 14 ?h = enc16 (length body)"
    by (simp_all add: nth_append)
  have b: "byte (char_of (32 + cmd)) = 32 + cmd" "byte (char_of (16 * family + 1)) = 16 * family + 1"
    using assms(1,2) by (auto intro!: byte_char_of)
  have d: "(32 + cmd) div 16 = 2" "(32 + cmd) mod 16 = cmd" "(16 * family + 1) div 16 = family"
    using assms(1,2) by presburger+
  have r: "ReadFull 16 (encode_v2 cmd family body @ payload) = Some (?h, body @ payload)"
    by (simp add: ReadFull_def encode_v2_def)
  have l: "be16 (enc16 (length body)) = length body"
    using be16_enc16 [OF assms(3), of "[]"] by simp
  have "parseHeader parseIP (encode_v2 cmd family body @ payload) = parseV2 (encode_v2 cmd family body @ payload)"
    by (simp add: parseHeader_def encode_v2_def)
  also have "\<dots> = (if cmd = 0 \<or> family = 0 \<or> family = 3 then v2_rest None (int (length body)) (body @ payload)
     else if family = 1 then v2_address 4 12 (length body) (body @ payload)
     else v2_address 16 36 (length body) (body @ payload))"
    using assms(1,2) unfolding parseV2_def r option.case prod.case h b d l Let_def by auto
  finally show ?thesis .
qed

lemma v2_rest_exact: "length t = n \<Longrightarrow> v2_rest src (int n) (t @ payload) = (Inr src, payload)"
  by (auto simp: v2_rest_def discard_def)

lemma v2_address_exact:
  assumes "length src = k" "length dst = k" "sport < 65536" and "n = 2 * k + 4"
  shows "v2_address k n (n + length tlvs) ((src @ dst @ enc16 sport @ enc16 dport @ tlvs) @ payload) =
    (Inr (Some \<lparr>ta_IP = src, ta_Port = int sport\<rparr>), payload)"
proof -
  have t: "ReadFull n ((src @ dst @ enc16 sport @ enc16 dport @ tlvs) @ payload) =
      Some (src @ dst @ enc16 sport @ enc16 dport, tlvs @ payload)"
    using assms(1,2,4) by (simp add: ReadFull_def)
  have "drop (2 * k) (src @ dst @ enc16 sport @ enc16 dport) = enc16 sport @ enc16 dport"
    using assms(1,2) by simp
  then show ?thesis
    using assms(1,3) be16_enc16 [OF assms(3), of "enc16 dport"] v2_rest_exact [of tlvs "length tlvs"]
    unfolding v2_address_def t by simp
qed

text \<open>
  C17. A version 2 header gives the source address and port it carries, whatever its extensions, and leaves
  the rest of the stream as it is; a local one and one without an IP address give none.
\<close>

theorem proxy_v2_roundtrip:
  assumes "(family, k) \<in> {(1, 4), (2, 16)}" and "length src = k" "length dst = k" and "sport < 65536"
    and "body = src @ dst @ enc16 sport @ enc16 dport @ tlvs" and "length body < 65536"
  shows "parseHeader parseIP (encode_v2 1 family body @ payload) = (Inr (Some \<lparr>ta_IP = src, ta_Port = int sport\<rparr>), payload) \<and>
    parseHeader parseIP (encode_v2 0 family body @ payload) = (Inr None, payload)"
proof
  show "parseHeader parseIP (encode_v2 0 family body @ payload) = (Inr None, payload)"
    using assms(1,6) by (auto simp: parse_encode_v2 v2_rest_exact)
  have n: "length body = (2 * k + 4) + length tlvs"
    using assms(2,3,5) by simp
  have "v2_address k (2 * k + 4) (length body) (body @ payload) = (Inr (Some \<lparr>ta_IP = src, ta_Port = int sport\<rparr>), payload)"
    using v2_address_exact [OF assms(2,3,4) refl, of tlvs dport payload] unfolding n unfolding assms(5) by simp
  then show "parseHeader parseIP (encode_v2 1 family body @ payload) = (Inr (Some \<lparr>ta_IP = src, ta_Port = int sport\<rparr>), payload)"
    using assms(1,6) by (auto simp: parse_encode_v2)
qed

text \<open>A local version 2 header, and one with a TCP over IPv4 source, in front of a request.\<close>

theorem proxy_v2_roundtrip_witness:
  "parseHeader Some (encode_v2 1 1 (map char_of [203, 0, 113, 9, 10, 0, 0, 1, 1, 187, 1, 187 :: nat]) @ ''GET /'') =
     (Inr (Some \<lparr>ta_IP = map char_of [203, 0, 113, 9 :: nat], ta_Port = 443\<rparr>), ''GET /'')"
proof -
  have "enc16 443 = map char_of [1, 187 :: nat]"
    by (simp add: enc16_def)
  then show ?thesis
    using proxy_v2_roundtrip [of 1 4 "map char_of [203, 0, 113, 9 :: nat]" "map char_of [10, 0, 0, 1 :: nat]" 443
        "map char_of [203, 0, 113, 9, 10, 0, 0, 1, 1, 187, 1, 187 :: nat]" 443 "[]" Some "''GET /''"]
    by simp
qed

definition v1_word :: "string \<Rightarrow> bool" where
  "v1_word s \<longleftrightarrow> CHR '' '' \<notin> set s \<and> newline \<notin> set s"

lemma digits_v1_word: "list_all is_digit s \<Longrightarrow> v1_word s"
  by (auto simp: v1_word_def list_all_iff is_digit_def byte_def newline_def)

lemma FormatInt_v1_word: "0 \<le> n \<Longrightarrow> v1_word (FormatInt n)"
  by (simp add: FormatInt_def digits_v1_word nat_digits_digit)

lemma ReadSlice_line:
  assumes "newline \<notin> set s" and "length s < bufio_size"
  shows "ReadSlice (s @ newline # payload) = (Inr (s @ [newline]), payload)"
proof -
  have "takeWhile (\<lambda>c. c \<noteq> newline) (s @ newline # payload) = s"
    using assms(1) by (subst takeWhile_append2) auto
  moreover have "newline \<in> set (take bufio_size (s @ newline # payload))"
    using assms(2) by (simp add: take_Cons')
  ultimately show ?thesis
    by (simp add: ReadSlice_def)
qed

text \<open>
  A version 1 line of at most 108 bytes gives its source address and port, and leaves the rest of the
  stream as it is.
\<close>

theorem proxy_v1_roundtrip:
  assumes "proto = ''TCP4'' \<or> proto = ''TCP6''" and "v1_word src" "v1_word dst" and "parseIP src = Some ip"
    and "0 \<le> sport" "sport \<le> 65535" "0 \<le> dport" and "length (encode_v1 proto src dst sport dport) \<le> 108"
  shows "parseHeader parseIP (encode_v1 proto src dst sport dport @ payload) =
    (Inr (Some \<lparr>ta_IP = ip, ta_Port = sport\<rparr>), payload)"
proof -
  let ?ws = "[''PROXY'', proto, src, dst, FormatInt sport, FormatInt dport]"
  let ?j = "join_with CHR '' '' ?ws"
  have w: "\<forall>s \<in> set ?ws. v1_word s"
    using assms(1-3,5,7) FormatInt_v1_word by (auto simp: v1_word_def newline_def)
  then have split: "split_on CHR '' '' ?j = ?ws"
    by (intro split_join) (auto simp: v1_word_def)
  have "newline \<notin> set ?j"
    using w by (auto simp: v1_word_def newline_def)
  then have nl: "newline \<notin> set (?j @ [CHR 0x0D])"
    by (simp add: newline_def)
  have e: "encode_v1 proto src dst sport dport = (?j @ [CHR 0x0D]) @ [newline]"
    by (simp add: encode_v1_def crlf_def newline_def)
  have len: "length (?j @ [CHR 0x0D]) < bufio_size"
    using assms(8) unfolding e by (simp add: bufio_size_def)
  have slice: "ReadSlice (encode_v1 proto src dst sport dport @ payload) = (Inr (encode_v1 proto src dst sport dport), payload)"
    using ReadSlice_line [OF nl len, of payload] unfolding e by simp
  have "parseV1_line parseIP (encode_v1 proto src dst sport dport) = Inr (Some \<lparr>ta_IP = ip, ta_Port = sport\<rparr>)"
  proof -
    have t: "take (length (encode_v1 proto src dst sport dport) - 2) (encode_v1 proto src dst sport dport) = ?j"
      by (simp add: encode_v1_def crlf_def del: join_with.simps)
    have "HasSuffix (encode_v1 proto src dst sport dport) crlf"
      by (simp add: encode_v1_def del: join_with.simps)
    moreover have "ParseInt (FormatInt sport) = Some sport"
      using assms(5,6) by (intro ParseInt_FormatInt) simp_all
    ultimately show ?thesis
      using assms(1,4-6,8) unfolding parseV1_line_def t split Let_def by (auto simp: maxV1Line_def)
  qed
  moreover have "take (length v2Signature) (encode_v1 proto src dst sport dport @ payload) \<noteq> v2Signature"
  proof -
    have "hd (take (length v2Signature) (encode_v1 proto src dst sport dport @ payload)) = CHR ''P''"
      by (simp add: encode_v1_def)
    moreover have "hd v2Signature \<noteq> CHR ''P''"
      by (simp add: v2Signature_def char_of_def)
    ultimately show ?thesis by metis
  qed
  moreover have "take 6 (encode_v1 proto src dst sport dport @ payload) = v1Prefix"
    by (simp add: encode_v1_def v1Prefix_def)
  ultimately show ?thesis
    using slice unfolding parseHeader_marks by (simp add: parseV1_def)
qed

theorem proxy_v1_roundtrip_witness:
  "parseHeader Some (encode_v1 ''TCP4'' ''203.0.113.9'' ''10.0.0.1'' 4711 443 @ ''GET /'') =
     (Inr (Some \<lparr>ta_IP = ''203.0.113.9'', ta_Port = 4711\<rparr>), ''GET /'')"
proof -
  have "FormatInt 4711 = ''4711''" "FormatInt 443 = ''443''"
    by (simp_all add: FormatInt_def nat_digits.simps digit_char_def) code_simp+
  then have "length (encode_v1 ''TCP4'' ''203.0.113.9'' ''10.0.0.1'' 4711 443) \<le> 108"
    by (simp add: encode_v1_def crlf_def)
  then show ?thesis
    by (intro proxy_v1_roundtrip) (simp_all add: v1_word_def newline_def)
qed

section \<open>What a connection shows\<close>

text \<open>
  A stream that starts with neither mark is not consumed; and an error never comes with an address.
\<close>

lemma parseV1_identified: "fst (parseV1 parseIP s) \<noteq> Inl NoHeader"
proof -
  have "parseV1_line parseIP line \<noteq> Inl NoHeader" for line
    unfolding parseV1_line_def Let_def by (simp split: option.split)
  moreover have "fst (ReadSlice s) \<noteq> Inl NoHeader"
    by (simp add: ReadSlice_def Let_def)
  ultimately show ?thesis
    by (auto simp: parseV1_def split: prod.split sum.split)
qed

lemma v2_rest_identified: "fst (v2_rest src n s) \<noteq> Inl NoHeader"
  by (simp add: v2_rest_def split: option.split)

lemma v2_address_identified: "fst (v2_address k n len s) \<noteq> Inl NoHeader"
  by (simp add: v2_address_def v2_rest_identified split: option.split prod.split)

lemma parseV2_identified: "fst (parseV2 s) \<noteq> Inl NoHeader"
  by (simp add: parseV2_def v2_rest_identified v2_address_identified Let_def split: option.split prod.split)

lemma parse_no_header: "fst (parseHeader parseIP s) = Inl NoHeader \<Longrightarrow> snd (parseHeader parseIP s) = s"
  using parseV1_identified [of parseIP s] parseV2_identified [of s] by (simp add: parseHeader_marks split: if_splits)

text \<open>
  The view a connection gives: the bytes still to be read and the client's address, or none when the
  connection is refused.
\<close>

definition conn_view :: "(string \<Rightarrow> string option) \<Rightarrow> Modifier \<Rightarrow> TCPAddr option \<Rightarrow> string
    \<Rightarrow> (string \<times> TCPAddr option) option" where
  "conn_view parseIP m peer s =
     (if \<not> trusts m peer then Some (s, peer)
      else case fst (parseHeader parseIP s) of
             Inr (Some a) \<Rightarrow> Some (snd (parseHeader parseIP s), Some a)
           | Inr None \<Rightarrow> Some (snd (parseHeader parseIP s), peer)
           | Inl NoHeader \<Rightarrow> if pm_Require m then None else Some (s, peer)
           | Inl _ \<Rightarrow> None)"

datatype conn_call = CallRead nat | CallRemoteAddr

datatype conn_reply = ReadReply string | ReadError | AddrReply "TCPAddr option"

fun conn_run :: "(string \<Rightarrow> string option) \<Rightarrow> conn_call list \<Rightarrow> conn \<Rightarrow> conn_reply list" where
  "conn_run parseIP [] c = []"
| "conn_run parseIP (CallRead n # cs) c =
     (case conn_Read parseIP n c of
        (Inl e, c') \<Rightarrow> ReadError # conn_run parseIP cs c'
      | (Inr b, c') \<Rightarrow> ReadReply b # conn_run parseIP cs c')"
| "conn_run parseIP (CallRemoteAddr # cs) c =
     (case conn_RemoteAddr parseIP c of (a, c') \<Rightarrow> AddrReply a # conn_run parseIP cs c')"

text \<open>The abstract connection: a stream that is read in order, with one address.\<close>

fun stream_run :: "conn_call list \<Rightarrow> string \<Rightarrow> TCPAddr option \<Rightarrow> conn_reply list" where
  "stream_run [] s a = []"
| "stream_run (CallRead n # cs) s a = ReadReply (take n s) # stream_run cs (drop n s) a"
| "stream_run (CallRemoteAddr # cs) s a = AddrReply a # stream_run cs s a"

fun refused_run :: "conn_call list \<Rightarrow> TCPAddr option \<Rightarrow> conn_reply list" where
  "refused_run [] a = []"
| "refused_run (CallRead n # cs) a = ReadError # refused_run cs a"
| "refused_run (CallRemoteAddr # cs) a = AddrReply a # refused_run cs a"

lemma conn_parse_idem: "conn_parse parseIP (conn_parse parseIP c) = conn_parse parseIP c"
  by (auto simp: conn_parse_def split: prod.split sum.split pp_error.split)

lemma conn_run_parse: "conn_run parseIP cs (conn_parse parseIP c) = conn_run parseIP cs c"
  by (cases "(parseIP, cs, c)" rule: conn_run.cases)
    (simp_all add: conn_Read_def conn_RemoteAddr_def conn_parse_idem)

lemma conn_run_parsed:
  assumes "pc_once c \<or> \<not> pc_wrapped c"
  shows "conn_run parseIP cs c =
    (let a = (case pc_remoteAddr c of Some a \<Rightarrow> Some a | None \<Rightarrow> pc_peer c)
     in if pc_parseErr c = None then stream_run cs (pc_stream c) a else refused_run cs a)"
  using assms
proof (induction cs arbitrary: c)
  case (Cons x cs)
  have p: "conn_parse parseIP c = c"
    using Cons.prems by (auto simp: conn_parse_def)
  show ?case
  proof (cases x)
    case (CallRead n)
    then show ?thesis
      using Cons.IH [of "c\<lparr>pc_stream := drop n (pc_stream c)\<rparr>"] Cons.IH [of c] Cons.prems p
      by (auto simp: conn_Read_def Let_def split: option.split)
  next
    case CallRemoteAddr
    then show ?thesis
      using Cons.IH [of c] Cons.prems p by (auto simp: conn_RemoteAddr_def Let_def)
  qed
qed (simp add: Let_def)

text \<open>
  C14. However reads and questions for the address are mixed, a wrapped connection behaves like the stream
  behind the header with the client's address throughout; one that is refused only fails; and a peer
  that is not trusted is left with every byte it sent and its own address.
\<close>

theorem proxy_conn_refines_stream:
  "conn_run parseIP cs (ModifyConnection m peer s) =
    (case conn_view parseIP m peer s of
       Some (rest, a) \<Rightarrow> stream_run cs rest a
     | None \<Rightarrow> refused_run cs peer)"
proof (cases "trusts m peer")
  case False
  then show ?thesis
    using conn_run_parsed [of "ModifyConnection m peer s" parseIP cs]
    by (simp add: ModifyConnection_def conn_view_def)
next
  case True
  let ?c = "conn_parse parseIP (ModifyConnection m peer s)"
  have once: "pc_once ?c \<or> \<not> pc_wrapped ?c"
    by (auto simp: conn_parse_def split: prod.split sum.split pp_error.split)
  obtain res rest where ph: "parseHeader parseIP s = (res, rest)" by force
  have "conn_run parseIP cs (ModifyConnection m peer s) = conn_run parseIP cs ?c"
    by (simp add: conn_run_parse)
  also have "\<dots> = (let a = (case pc_remoteAddr ?c of Some a \<Rightarrow> Some a | None \<Rightarrow> pc_peer ?c)
     in if pc_parseErr ?c = None then stream_run cs (pc_stream ?c) a else refused_run cs a)"
    by (rule conn_run_parsed [OF once])
  also have "\<dots> = (case conn_view parseIP m peer s of
       Some (rest, a) \<Rightarrow> stream_run cs rest a
     | None \<Rightarrow> refused_run cs peer)"
    using True ph parse_no_header [of parseIP s]
    by (auto simp: conn_parse_def ModifyConnection_def conn_view_def split: sum.split option.split pp_error.split)
  finally show ?thesis .
qed

end
