(* ===== verification/Waf.thy ===== *)
theory Waf
  imports Edge_Proxy "HOL-Library.Multiset"
begin

text \<open>
  The firewall (\<^verbatim>\<open>pkg/waf\<close>): loading a rule set, the evaluation of a request against it, and the
  functions it adds to the expression language. The expression language itself is third-party code and a
  parameter: compiling an expression, the type of the result, building a program with a cost limit, and
  what the \<^verbatim>\<open>n\<close>-th evaluation of a request gives, which may be an error or a panic.
\<close>

section \<open>Rules\<close>

datatype Action = ActionLog | ActionAllow | ActionBlock

datatype FailMode = FailOpen | FailClosed

datatype Outcome = OutcomePass | OutcomeAllow | OutcomeBlock | OutcomeError

record Rule =
  ru_ID :: string
  ru_Description :: string
  ru_Expression :: string
  ru_Action :: Action
  ru_Status :: int
  ru_Message :: string
  ru_Priority :: int

record 'p compiledRule =
  cr_id :: string
  cr_description :: string
  cr_expression :: string
  cr_action :: Action
  cr_status :: int
  cr_message :: string
  cr_priority :: int
  cr_prg :: 'p

record 'p WAF =
  wf_rules :: "'p compiledRule list option"
  wf_CostLimit :: nat
  wf_DisableMacros :: bool
  wf_FailMode :: FailMode
  wf_InspectBody :: int
  wf_Logger :: bool
  wf_OnMatch :: bool
  wf_Observe :: bool

definition waf_New :: "'p WAF" where
  "waf_New = \<lparr>wf_rules = Some [], wf_CostLimit = 0, wf_DisableMacros = False, wf_FailMode = FailOpen,
     wf_InspectBody = 0, wf_Logger = False, wf_OnMatch = False, wf_Observe = False\<rparr>"

text \<open>The expression language: an environment, with or without macros, may fail to build.\<close>

record ('ast, 'p) cel =
  cel_env :: "bool \<Rightarrow> bool"
  cel_Compile :: "bool \<Rightarrow> string \<Rightarrow> 'ast option"
  cel_is_bool :: "'ast \<Rightarrow> bool"
  cel_Program :: "nat \<Rightarrow> 'ast \<Rightarrow> 'p option"

datatype rule_error =
    EnvError
  | MissingID nat
  | DuplicateID nat string
  | EmptyExpression string
  | CompileError string
  | NotBool string
  | ProgramError string

definition costLimit :: "nat \<Rightarrow> nat" where
  "costLimit n = (if n = 0 then 1000000 else n)"

text \<open>One rule, whose id has not been seen before.\<close>

definition compile_rule :: "('ast, 'p) cel \<Rightarrow> bool \<Rightarrow> nat \<Rightarrow> Rule \<Rightarrow> rule_error + 'p compiledRule" where
  "compile_rule C noMacros cost r =
     (if ru_Expression r = '''' then Inl (EmptyExpression (ru_ID r))
      else case cel_Compile C noMacros (ru_Expression r) of
             None \<Rightarrow> Inl (CompileError (ru_ID r))
           | Some ast \<Rightarrow>
               if \<not> cel_is_bool C ast then Inl (NotBool (ru_ID r))
               else case cel_Program C (costLimit cost) ast of
                      None \<Rightarrow> Inl (ProgramError (ru_ID r))
                    | Some prg \<Rightarrow> Inr \<lparr>cr_id = ru_ID r, cr_description = ru_Description r,
                        cr_expression = ru_Expression r, cr_action = ru_Action r,
                        cr_status = if ru_Status r = 0 then 403 else ru_Status r,
                        cr_message = if ru_Message r = '''' then ''Forbidden'' else ru_Message r,
                        cr_priority = ru_Priority r, cr_prg = prg\<rparr>)"

fun compile_rules ::
  "('ast, 'p) cel \<Rightarrow> bool \<Rightarrow> nat \<Rightarrow> nat \<Rightarrow> string set \<Rightarrow> Rule list \<Rightarrow> rule_error list \<times> 'p compiledRule list" where
  "compile_rules C noMacros cost i seen [] = ([], [])"
| "compile_rules C noMacros cost i seen (r # rs) =
     (if ru_ID r = '''' then
        (case compile_rules C noMacros cost (i + 1) seen rs of (errs, cs) \<Rightarrow> (MissingID i # errs, cs))
      else if ru_ID r \<in> seen then
        (case compile_rules C noMacros cost (i + 1) seen rs of (errs, cs) \<Rightarrow> (DuplicateID i (ru_ID r) # errs, cs))
      else case compile_rules C noMacros cost (i + 1) (insert (ru_ID r) seen) rs of (errs, cs) \<Rightarrow>
             (case compile_rule C noMacros cost r of
                Inl e \<Rightarrow> (e # errs, cs)
              | Inr c \<Rightarrow> (errs, c # cs)))"

definition SetRules :: "('ast, 'p) cel \<Rightarrow> Rule list \<Rightarrow> 'p WAF \<Rightarrow> rule_error list \<times> 'p WAF" where
  "SetRules C rules w =
     (if \<not> cel_env C (wf_DisableMacros w) then ([EnvError], w)
      else case compile_rules C (wf_DisableMacros w) (wf_CostLimit w) 0 {} rules of (errs, cs) \<Rightarrow>
             if errs \<noteq> [] then (errs, w)
             else ([], w\<lparr>wf_rules := Some (sort_key cr_priority cs)\<rparr>))"

definition Rules :: "'p WAF \<Rightarrow> string list" where
  "Rules w = (case wf_rules w of None \<Rightarrow> [] | Some rs \<Rightarrow> map cr_id rs)"

section \<open>Evaluation\<close>

datatype cel_result = CelError | CelPanic | CelNil | CelBool bool | CelOther

text \<open>\<^verbatim>\<open>evalProgram\<close>: an error, a recovered panic or a value that is no truth value is an error.\<close>

fun evalProgram :: "cel_result \<Rightarrow> bool \<times> bool" where
  "evalProgram CelError = (False, True)"
| "evalProgram CelPanic = (False, True)"
| "evalProgram CelNil = (False, False)"
| "evalProgram (CelBool b) = (b, False)"
| "evalProgram CelOther = (False, True)"

datatype waf_event = LogError string | MatchEvent string Action int | LogMatch string | EvalEvent Outcome

datatype verdict = Forward | Reject string int

definition waf_observe :: "'p WAF \<Rightarrow> Outcome \<Rightarrow> waf_event list" where
  "waf_observe w outcome = (if wf_Observe w then [EvalEvent outcome] else [])"

definition match_events :: "'p WAF \<Rightarrow> 'p compiledRule \<Rightarrow> waf_event list" where
  "match_events w c =
     (if wf_OnMatch w then [MatchEvent (cr_id c) (cr_action c) (cr_status c)] else []) @
     (if wf_Logger w then [LogMatch (cr_id c)] else [])"

fun waf_loop :: "'p WAF \<Rightarrow> (nat \<Rightarrow> 'p \<Rightarrow> cel_result) \<Rightarrow> nat \<Rightarrow> 'p compiledRule list \<Rightarrow> waf_event list \<times> verdict" where
  "waf_loop w ev n [] = (waf_observe w OutcomePass, Forward)"
| "waf_loop w ev n (c # cs) =
     (case evalProgram (ev n (cr_prg c)) of (matched, err) \<Rightarrow>
        if err then
          (let log = (if wf_Logger w then [LogError (cr_id c)] else [])
           in if wf_FailMode w = FailClosed then (log @ waf_observe w OutcomeError, Reject ''WAF Error'' 500)
              else case waf_loop w ev (n + 1) cs of (evs, v) \<Rightarrow> (log @ evs, v))
        else if \<not> matched then waf_loop w ev (n + 1) cs
        else case cr_action c of
               ActionAllow \<Rightarrow> (match_events w c @ waf_observe w OutcomeAllow, Forward)
             | ActionBlock \<Rightarrow> (match_events w c @ waf_observe w OutcomeBlock, Reject (cr_message c) (cr_status c))
             | ActionLog \<Rightarrow> (case waf_loop w ev (n + 1) cs of (evs, v) \<Rightarrow> (match_events w c @ evs, v)))"

text \<open>The prefix of the body the rules see, and the body the next handler reads.\<close>

definition inspectBody :: "int \<Rightarrow> string \<Rightarrow> string \<times> string" where
  "inspectBody limit body =
     (if limit \<le> 0 then ('''', body)
      else let buf = take (nat limit) body in (buf, buf @ drop (nat limit) body))"

definition waf_decide :: "'p WAF \<Rightarrow> (string \<Rightarrow> nat \<Rightarrow> 'p \<Rightarrow> cel_result) \<Rightarrow> string \<Rightarrow> (waf_event list \<times> verdict) \<times> string" where
  "waf_decide w ev body =
     (case wf_rules w of
        None \<Rightarrow> (([], Forward), body)
      | Some rs \<Rightarrow>
          if rs = [] then (([], Forward), body)
          else case inspectBody (wf_InspectBody w) body of (buf, body') \<Rightarrow> (waf_loop w (ev buf) 0 rs, body'))"

definition waf_ServeHandler :: "'p WAF \<Rightarrow> (HttpRequest \<Rightarrow> string \<Rightarrow> nat \<Rightarrow> 'p \<Rightarrow> cel_result) \<Rightarrow> (string \<Rightarrow> Handler) \<Rightarrow> string \<Rightarrow> Handler" where
  "waf_ServeHandler w ev h body r =
     (case waf_decide w (ev r) body of ((evs, v), body') \<Rightarrow>
        (case v of Forward \<Rightarrow> h body' r | Reject msg code \<Rightarrow> http_Error msg code))"

section \<open>Loading rules\<close>

lemma compile_rules_ok:
  "compile_rules C noMacros cost i seen rs = ([], cs) \<longleftrightarrow>
     list_all2 (\<lambda>r c. compile_rule C noMacros cost r = Inr c) rs cs \<and> distinct (map ru_ID rs) \<and>
     '''' \<notin> ru_ID ` set rs \<and> ru_ID ` set rs \<inter> seen = {}"
proof (induction rs arbitrary: i seen cs)
  case (Cons r rs)
  show ?case
  proof (cases "ru_ID r = '''' \<or> ru_ID r \<in> seen")
    case True
    then show ?thesis by (auto split: prod.split)
  next
    case False
    obtain errs ds where c: "compile_rules C noMacros cost (i + 1) (insert (ru_ID r) seen) rs = (errs, ds)"
      by force
    show ?thesis
      using Cons.IH [of "i + 1" "insert (ru_ID r) seen" ds] Cons.IH [of "i + 1" "insert (ru_ID r) seen" "tl cs"] False c
      by (cases "compile_rule C noMacros cost r"; cases cs) auto
  qed
qed auto

lemma compile_rule_fields:
  assumes "compile_rule C noMacros cost r = Inr c"
  shows "cr_id c = ru_ID r \<and> cr_expression c = ru_Expression r \<and> ru_Expression r \<noteq> '''' \<and> cr_action c = ru_Action r \<and>
    cr_priority c = ru_Priority r \<and> cr_status c = (if ru_Status r = 0 then 403 else ru_Status r) \<and>
    cr_message c = (if ru_Message r = '''' then ''Forbidden'' else ru_Message r)"
  using assms by (auto simp: compile_rule_def split: if_splits option.splits)

definition compiled :: "('ast, 'p) cel \<Rightarrow> 'p WAF \<Rightarrow> Rule \<Rightarrow> 'p compiledRule" where
  "compiled C w r = projr (compile_rule C (wf_DisableMacros w) (wf_CostLimit w) r)"

lemma list_all2_compiled:
  "list_all2 (\<lambda>r c. compile_rule C (wf_DisableMacros w) (wf_CostLimit w) r = Inr c) rs cs \<longleftrightarrow>
     cs = map (compiled C w) rs \<and> (\<forall>r \<in> set rs. \<exists>c. compile_rule C (wf_DisableMacros w) (wf_CostLimit w) r = Inr c)"
proof (induction rs arbitrary: cs)
  case (Cons r rs)
  then show ?case by (cases cs) (auto simp: compiled_def)
qed auto

lemma compile_rules_cs:
  "fst (compile_rules C noMacros cost i seen rs) = [] \<Longrightarrow>
     compile_rules C noMacros cost i seen rs = ([], snd (compile_rules C noMacros cost i seen rs))"
  by (metis prod.collapse)

text \<open>What a rule set needs to be loaded.\<close>

definition loadable :: "('ast, 'p) cel \<Rightarrow> Rule list \<Rightarrow> 'p WAF \<Rightarrow> bool" where
  "loadable C rules w \<longleftrightarrow> cel_env C (wf_DisableMacros w) \<and> distinct (map ru_ID rules) \<and> '''' \<notin> ru_ID ` set rules \<and>
     (\<forall>r \<in> set rules. \<exists>c. compile_rule C (wf_DisableMacros w) (wf_CostLimit w) r = Inr c)"

lemma SetRules_cases:
  "if loadable C rules w
   then SetRules C rules w = ([], w\<lparr>wf_rules := Some (sort_key cr_priority (map (compiled C w) rules))\<rparr>)
   else fst (SetRules C rules w) \<noteq> [] \<and> snd (SetRules C rules w) = w"
proof -
  let ?run = "compile_rules C (wf_DisableMacros w) (wf_CostLimit w) 0 {} rules"
  have ok: "?run = ([], cs) \<longleftrightarrow> cs = map (compiled C w) rules \<and> distinct (map ru_ID rules) \<and> '''' \<notin> ru_ID ` set rules \<and>
      (\<forall>r \<in> set rules. \<exists>c. compile_rule C (wf_DisableMacros w) (wf_CostLimit w) r = Inr c)" for cs
    unfolding compile_rules_ok list_all2_compiled by auto
  show ?thesis
  proof (cases "loadable C rules w")
    case True
    then have "?run = ([], map (compiled C w) rules)"
      unfolding ok by (simp add: loadable_def)
    with True show ?thesis
      by (simp add: SetRules_def loadable_def)
  next
    case False
    then have "\<not> cel_env C (wf_DisableMacros w) \<or> fst ?run \<noteq> []"
      using ok [of "snd ?run"] compile_rules_cs [of C "wf_DisableMacros w" "wf_CostLimit w" 0 "{}" rules]
      by (auto simp: loadable_def)
    with False show ?thesis
      by (auto simp: SetRules_def split: prod.split)
  qed
qed

text \<open>
  C31. Loading is all or nothing: it succeeds exactly when the environment builds, the ids are there and
  distinct, and every rule compiles to a truth value, and then the rules run in the order of their
  priorities with ties as declared; otherwise the rules in force stay as they are.
\<close>

theorem waf_set_rules_atomic:
  "(fst (SetRules C rules w) = [] \<longleftrightarrow> loadable C rules w) \<and>
   snd (SetRules C rules w) = (if loadable C rules w
     then w\<lparr>wf_rules := Some (sort_key cr_priority (map (compiled C w) rules))\<rparr> else w)"
  using SetRules_cases [of C rules w] by (auto split: if_splits)

text \<open>Well-formed rules.\<close>

definition ruleset_ok :: "'p compiledRule list \<Rightarrow> bool" where
  "ruleset_ok rs \<longleftrightarrow> distinct (map cr_id rs) \<and> sorted (map cr_priority rs) \<and>
     (\<forall>c \<in> set rs. cr_id c \<noteq> '''' \<and> cr_expression c \<noteq> '''' \<and> cr_status c \<noteq> 0 \<and> cr_message c \<noteq> '''')"

definition waf_ok :: "'p WAF \<Rightarrow> bool" where
  "waf_ok w \<longleftrightarrow> (\<exists>rs. wf_rules w = Some rs \<and> ruleset_ok rs)"

lemma compiled_ok:
  assumes "loadable C rules w"
  shows "ruleset_ok (sort_key cr_priority (map (compiled C w) rules))"
proof -
  have c: "compile_rule C (wf_DisableMacros w) (wf_CostLimit w) r = Inr (compiled C w r)" if "r \<in> set rules" for r
    using assms that by (auto simp: loadable_def compiled_def)
  have "map cr_id (map (compiled C w) rules) = map ru_ID rules"
    using compile_rule_fields [OF c] by simp
  then have d: "distinct (map cr_id (map (compiled C w) rules))"
    using assms unfolding loadable_def by metis
  have "distinct (map cr_id (sort_key cr_priority (map (compiled C w) rules)))"
  proof -
    have "mset (map cr_id (sort_key cr_priority (map (compiled C w) rules))) = mset (map cr_id (map (compiled C w) rules))"
      by (simp only: mset_map mset_sort)
    then show ?thesis using d by (metis mset_eq_imp_distinct_iff)
  qed
  moreover have "cr_id (compiled C w r) \<noteq> '''' \<and> cr_expression (compiled C w r) \<noteq> '''' \<and>
      cr_status (compiled C w r) \<noteq> 0 \<and> cr_message (compiled C w r) \<noteq> ''''" if "r \<in> set rules" for r
  proof -
    have "ru_ID r \<noteq> ''''"
      using assms that unfolding loadable_def by force
    then show ?thesis
      using compile_rule_fields [OF c [OF that]] by auto
  qed
  ultimately show ?thesis
    by (auto simp: ruleset_ok_def)
qed

lemma SetRules_ok: "waf_ok w \<Longrightarrow> waf_ok (snd (SetRules C rules w))"
  using SetRules_cases [of C rules w] compiled_ok [of C rules w] by (auto simp: waf_ok_def split: if_splits)

text \<open>
  C12. The rules in force are always well formed, through any sequence of loads that succeed or fail: their
  ids are distinct, their priorities ascend, and each has an id, an expression, a status and a message.
\<close>

theorem waf_rules_well_formed:
  "waf_ok (fold (\<lambda>rules w. snd (SetRules C rules w)) loads (w\<lparr>wf_rules := wf_rules waf_New\<rparr>))"
proof -
  have "waf_ok w' \<Longrightarrow> waf_ok (fold (\<lambda>rules w. snd (SetRules C rules w)) loads w')" for w'
    by (induction loads arbitrary: w') (simp_all add: SetRules_ok)
  then show ?thesis
    by (simp add: waf_ok_def waf_New_def ruleset_ok_def)
qed

section \<open>The verdict\<close>

text \<open>What one rule decides, from the result of its program.\<close>

definition rule_verdict :: "FailMode \<Rightarrow> bool \<times> bool \<Rightarrow> Action \<Rightarrow> string \<Rightarrow> int \<Rightarrow> verdict option" where
  "rule_verdict fm res action msg code =
     (if snd res then (if fm = FailClosed then Some (Reject ''WAF Error'' 500) else None)
      else if \<not> fst res then None
      else case action of ActionAllow \<Rightarrow> Some Forward | ActionBlock \<Rightarrow> Some (Reject msg code) | ActionLog \<Rightarrow> None)"

fun first_verdict :: "verdict option list \<Rightarrow> verdict" where
  "first_verdict [] = Forward"
| "first_verdict (Some v # vs) = v"
| "first_verdict (None # vs) = first_verdict vs"

lemma waf_loop_verdict:
  "snd (waf_loop w (\<lambda>_. ev) n cs) =
     first_verdict (map (\<lambda>c. rule_verdict (wf_FailMode w) (evalProgram (ev (cr_prg c))) (cr_action c) (cr_message c)
       (cr_status c)) cs)"
  by (induction cs arbitrary: n) (simp_all add: rule_verdict_def Let_def case_prod_beta split: Action.split)

lemma insort_key_map: "insort_key f (g x) (map g xs) = map g (insort_key (\<lambda>x. f (g x)) x xs)"
  by (induction xs) auto

lemma sort_key_map: "sort_key f (map g xs) = map g (sort_key (\<lambda>x. f (g x)) xs)"
  by (induction xs) (simp_all add: insort_key_map)

lemma insort_key_cong:
  "(\<And>y. y \<in> insert x (set xs) \<Longrightarrow> f y = g y) \<Longrightarrow> insort_key f x xs = insort_key g x xs"
  by (induction xs) auto

lemma sort_key_cong: "(\<And>y. y \<in> set xs \<Longrightarrow> f y = g y) \<Longrightarrow> sort_key f xs = sort_key g xs"
  by (induction xs) (auto intro!: insort_key_cong)

text \<open>
  C8. The verdict on a request, in terms of the rules as they were given: take them in the order of their
  priorities, ties as declared, and let the first that decides decide. An allowing rule shields from all
  after it; a logging rule and, when failing open, a rule that errs decide nothing; when failing closed
  an error rejects with status 500. If none decides the request goes through.
\<close>

theorem waf_verdict_from_rules:
  assumes "loadable C rules w" and "w' = snd (SetRules C rules w)"
  shows "snd (fst (waf_decide w' (\<lambda>_ _. ev) body)) =
    first_verdict (map (\<lambda>r. rule_verdict (wf_FailMode w) (evalProgram (ev (cr_prg (compiled C w r)))) (ru_Action r)
        (if ru_Message r = '''' then ''Forbidden'' else ru_Message r) (if ru_Status r = 0 then 403 else ru_Status r))
      (sort_key ru_Priority rules))"
proof -
  have f: "cr_action (compiled C w r) = ru_Action r \<and> cr_priority (compiled C w r) = ru_Priority r \<and>
      cr_status (compiled C w r) = (if ru_Status r = 0 then 403 else ru_Status r) \<and>
      cr_message (compiled C w r) = (if ru_Message r = '''' then ''Forbidden'' else ru_Message r)"
    if "r \<in> set rules" for r
  proof -
    have "compile_rule C (wf_DisableMacros w) (wf_CostLimit w) r = Inr (compiled C w r)"
      using assms(1) that by (auto simp: loadable_def compiled_def)
    from compile_rule_fields [OF this] show ?thesis by simp
  qed
  have "sort_key (\<lambda>r. cr_priority (compiled C w r)) rules = sort_key ru_Priority rules"
    using f by (intro sort_key_cong) simp
  then have w': "w' = w\<lparr>wf_rules := Some (map (compiled C w) (sort_key ru_Priority rules))\<rparr>"
    using assms SetRules_cases [of C rules w] by (simp add: sort_key_map)
  have "snd (fst (waf_decide w' (\<lambda>_ _. ev) body)) =
      first_verdict (map (\<lambda>c. rule_verdict (wf_FailMode w) (evalProgram (ev (cr_prg c))) (cr_action c) (cr_message c)
        (cr_status c)) (map (compiled C w) (sort_key ru_Priority rules)))"
    unfolding w' by (simp add: waf_decide_def waf_loop_verdict split: prod.split)
  also have "\<dots> = first_verdict (map (\<lambda>r. rule_verdict (wf_FailMode w) (evalProgram (ev (cr_prg (compiled C w r)))) (ru_Action r)
        (if ru_Message r = '''' then ''Forbidden'' else ru_Message r) (if ru_Status r = 0 then 403 else ru_Status r))
      (sort_key ru_Priority rules))"
    using f by (intro arg_cong [of _ _ first_verdict]) simp
  finally show ?thesis .
qed

text \<open>An allowlist in front of a block, in a language whose expressions are the names of truth values.\<close>

definition toy_cel :: "(string, string) cel" where
  "toy_cel = \<lparr>cel_env = (\<lambda>_. True), cel_Compile = (\<lambda>_. Some), cel_is_bool = (\<lambda>_. True), cel_Program = (\<lambda>_. Some)\<rparr>"

definition toy_rule :: "string \<Rightarrow> Action \<Rightarrow> int \<Rightarrow> Rule" where
  "toy_rule i a p = \<lparr>ru_ID = i, ru_Description = '''', ru_Expression = ''true'', ru_Action = a, ru_Status = 0,
     ru_Message = '''', ru_Priority = p\<rparr>"

theorem waf_verdict_from_rules_witness:
  "snd (fst (waf_decide (snd (SetRules toy_cel [toy_rule ''b'' ActionBlock 2, toy_rule ''a'' ActionAllow 1] waf_New))
      (\<lambda>_ _ p. CelBool (p = ''true'')) '''')) = Forward"
proof -
  have "loadable toy_cel [toy_rule ''b'' ActionBlock 2, toy_rule ''a'' ActionAllow 1] waf_New"
    by (simp add: loadable_def toy_cel_def toy_rule_def waf_New_def compile_rule_def)
  from waf_verdict_from_rules [OF this refl, of "\<lambda>p. CelBool (p = ''true'')" "''''"] show ?thesis
    by (simp add: toy_rule_def rule_verdict_def compiled_def compile_rule_def toy_cel_def)
qed

text \<open>Counting the observations among the events.\<close>

fun is_eval :: "waf_event \<Rightarrow> bool" where
  "is_eval (EvalEvent out) \<longleftrightarrow> True"
| "is_eval _ \<longleftrightarrow> False"

definition evals :: "waf_event list \<Rightarrow> nat" where
  "evals evs = length (filter is_eval evs)"

lemma evals_simps [simp]:
  "evals (xs @ ys) = evals xs + evals ys" "evals (waf_observe w out) = (if wf_Observe w then 1 else 0)"
  "evals (match_events w c) = 0" "evals [] = 0" "evals [LogError i] = 0"
  by (simp_all add: evals_def waf_observe_def match_events_def)

lemma waf_loop_observed: "evals (fst (waf_loop w ev n cs)) = (if wf_Observe w then 1 else 0)"
  by (induction cs arbitrary: n) (simp_all add: Let_def case_prod_beta split: Action.split)

text \<open>
  Every request that reaches the rules is observed once, at the end, and one that meets no rules never.
  The next handler reads the body as it came, and the rules see at most the configured prefix of it.
\<close>

theorem waf_observes_once:
  "evals (fst (fst (waf_decide w ev body))) =
     (if wf_Observe w \<and> Rules w \<noteq> [] then 1 else 0) \<and>
   snd (waf_decide w ev body) = body \<and> int (length (fst (inspectBody limit body))) \<le> max 0 limit"
proof -
  have "snd (inspectBody k body) = body" for k
    by (simp add: inspectBody_def Let_def)
  moreover have "int (length (fst (inspectBody limit body))) \<le> max 0 limit"
    by (auto simp: inspectBody_def Let_def min_def)
  ultimately show ?thesis
    by (simp add: waf_decide_def Rules_def waf_loop_observed case_prod_beta split: option.split)
qed

section \<open>The expression functions\<close>

datatype cel_val = VString string | VBool bool | VInt int | VList "cel_val list" | VErr

fun asString :: "cel_val \<Rightarrow> string option" where
  "asString (VString s) = Some s"
| "asString _ = None"

text \<open>
  Compiled patterns and parsed networks are kept in caches, failures included. The functions that compile
  and parse are parameters.
\<close>

definition compileRegex :: "(string \<Rightarrow> 're option) \<Rightarrow> string \<Rightarrow> (string \<rightharpoonup> 're option) \<Rightarrow> 're option \<times> (string \<rightharpoonup> 're option)" where
  "compileRegex compile pattern cache =
     (case cache pattern of
        Some re \<Rightarrow> (re, cache)
      | None \<Rightarrow> (let re = compile pattern in (re, cache(pattern \<mapsto> re))))"

definition parseCIDR :: "(string \<Rightarrow> 'n option) \<Rightarrow> string \<Rightarrow> (string \<rightharpoonup> 'n option) \<Rightarrow> 'n option \<times> (string \<rightharpoonup> 'n option)" where
  "parseCIDR parse cidr cache =
     (case cache cidr of
        Some n \<Rightarrow> (n, cache)
      | None \<Rightarrow> (let n = parse cidr in (n, cache(cidr \<mapsto> n))))"

definition celIpInCidr ::
  "(string \<Rightarrow> 'n option) \<Rightarrow> (string \<Rightarrow> 'ip option) \<Rightarrow> ('n \<Rightarrow> 'ip \<Rightarrow> bool) \<Rightarrow> cel_val \<Rightarrow> cel_val
     \<Rightarrow> (string \<rightharpoonup> 'n option) \<Rightarrow> cel_val \<times> (string \<rightharpoonup> 'n option)" where
  "celIpInCidr parse parseIP contains ipv cidrv cache =
     (case (asString ipv, asString cidrv) of
        (Some ip, Some cidr) \<Rightarrow>
          (case parseCIDR parse cidr cache of
             (None, cache') \<Rightarrow> (VErr, cache')
           | (Some n, cache') \<Rightarrow>
               (case parseIP ip of None \<Rightarrow> (VBool False, cache') | Some a \<Rightarrow> (VBool (contains n a), cache')))
      | _ \<Rightarrow> (VErr, cache))"

definition celRegexMatch ::
  "(string \<Rightarrow> 're option) \<Rightarrow> ('re \<Rightarrow> string \<Rightarrow> bool) \<Rightarrow> cel_val \<Rightarrow> cel_val \<Rightarrow> (string \<rightharpoonup> 're option)
     \<Rightarrow> cel_val \<times> (string \<rightharpoonup> 're option)" where
  "celRegexMatch compile match sv pv cache =
     (case (asString sv, asString pv) of
        (Some s, Some pattern) \<Rightarrow>
          (case compileRegex compile pattern cache of
             (None, cache') \<Rightarrow> (VErr, cache')
           | (Some re, cache') \<Rightarrow> (VBool (match re s), cache'))
      | _ \<Rightarrow> (VErr, cache))"

fun listFromRefVal :: "cel_val \<Rightarrow> string list option" where
  "listFromRefVal (VList vs) = those (map asString vs)"
| "listFromRefVal _ = None"

definition celContainsAny :: "cel_val \<Rightarrow> cel_val \<Rightarrow> cel_val" where
  "celContainsAny sv lv =
     (case (asString sv, listFromRefVal lv) of
        (Some s, Some xs) \<Rightarrow> VBool (list_ex (\<lambda>sub. sub \<noteq> '''' \<and> Contains s sub) xs)
      | _ \<Rightarrow> VErr)"

definition celHasPrefixAny :: "cel_val \<Rightarrow> cel_val \<Rightarrow> cel_val" where
  "celHasPrefixAny sv lv =
     (case (asString sv, listFromRefVal lv) of
        (Some s, Some xs) \<Rightarrow> VBool (list_ex (\<lambda>p. p \<noteq> '''' \<and> HasPrefix s p) xs)
      | _ \<Rightarrow> VErr)"

definition celLower :: "(string \<Rightarrow> string) \<Rightarrow> cel_val \<Rightarrow> cel_val" where
  "celLower u v = (case asString v of None \<Rightarrow> VErr | Some s \<Rightarrow> VString (strings_ToLower u s))"

definition celUpper :: "(string \<Rightarrow> string) \<Rightarrow> cel_val \<Rightarrow> cel_val" where
  "celUpper u v = (case asString v of None \<Rightarrow> VErr
     | Some s \<Rightarrow> VString (if list_all (\<lambda>c. byte c < 128) s then ToUpper s else u s))"

definition celURLDecode :: "(string \<Rightarrow> string option) \<Rightarrow> cel_val \<Rightarrow> cel_val" where
  "celURLDecode unescape v = (case asString v of None \<Rightarrow> VErr
     | Some s \<Rightarrow> VString (case unescape s of None \<Rightarrow> '''' | Some d \<Rightarrow> d))"

lemma containsAny_iff:
  "celContainsAny (VString s) (VList (map VString subs)) =
     VBool (\<exists>sub \<in> set subs. sub \<noteq> '''' \<and> (\<exists>a b. s = a @ sub @ b))"
proof -
  have "those (map asString (map VString subs)) = Some subs"
    by (induction subs) simp_all
  then show ?thesis
    by (auto simp: celContainsAny_def list_ex_iff Contains_iff)
qed

text \<open>A cache that holds only what computing gives.\<close>

definition cache_sound :: "('k \<Rightarrow> 'v) \<Rightarrow> ('k \<rightharpoonup> 'v) \<Rightarrow> bool" where
  "cache_sound f cache \<longleftrightarrow> (\<forall>k v. cache k = Some v \<longrightarrow> v = f k)"

lemma cache_sound_empty: "cache_sound f Map.empty"
  by (simp add: cache_sound_def)

lemma compileRegex_sound:
  "cache_sound compile cache \<Longrightarrow>
     fst (compileRegex compile p cache) = compile p \<and> cache_sound compile (snd (compileRegex compile p cache))"
  by (auto simp: compileRegex_def cache_sound_def Let_def split: option.split)

lemma parseCIDR_sound:
  "cache_sound parse cache \<Longrightarrow>
     fst (parseCIDR parse c cache) = parse c \<and> cache_sound parse (snd (parseCIDR parse c cache))"
  by (auto simp: parseCIDR_def cache_sound_def Let_def split: option.split)

lemma celRegexMatch_strings:
  "celRegexMatch compile match sv pv cache =
     (case (asString sv, asString pv) of
        (Some s, Some pattern) \<Rightarrow>
          (case fst (compileRegex compile pattern cache) of None \<Rightarrow> VErr | Some re \<Rightarrow> VBool (match re s),
           snd (compileRegex compile pattern cache))
      | _ \<Rightarrow> (VErr, cache))"
  unfolding celRegexMatch_def by (auto split: option.split prod.split)

lemma celRegexMatch_sound:
  assumes "cache_sound compile cache"
  shows "fst (celRegexMatch compile match sv pv cache) = fst (celRegexMatch compile match sv pv Map.empty) \<and>
    cache_sound compile (snd (celRegexMatch compile match sv pv cache))"
  using compileRegex_sound [OF assms] compileRegex_sound [of compile Map.empty] assms
    cache_sound_empty [of compile]
  unfolding celRegexMatch_strings by (auto split: option.split)

fun regex_run :: "(string \<Rightarrow> 're option) \<Rightarrow> ('re \<Rightarrow> string \<Rightarrow> bool) \<Rightarrow> (cel_val \<times> cel_val) list
    \<Rightarrow> (string \<rightharpoonup> 're option) \<Rightarrow> cel_val list" where
  "regex_run compile match [] cache = []"
| "regex_run compile match ((s, p) # qs) cache =
     (case celRegexMatch compile match s p cache of (v, cache') \<Rightarrow> v # regex_run compile match qs cache')"

text \<open>
  A cache that holds only what compiling gives is never wrong, and stays so: through any sequence of
  evaluations a match is decided as if the pattern were compiled anew.
\<close>

theorem waf_regex_cache_transparent:
  "regex_run compile match qs Map.empty = map (\<lambda>(s, p). fst (celRegexMatch compile match s p Map.empty)) qs"
proof -
  have "cache_sound compile cache \<Longrightarrow>
      regex_run compile match qs cache = map (\<lambda>(s, p). fst (celRegexMatch compile match s p Map.empty)) qs" for cache
  proof (induction qs arbitrary: cache)
    case (Cons q qs)
    then show ?case
      using celRegexMatch_sound [OF Cons.prems, of match "fst q" "snd q"]
      by (cases q) (auto split: prod.split)
  qed simp
  then show ?thesis
    by (simp add: cache_sound_def)
qed

section \<open>The request map\<close>

text \<open>
  The request the rules see. The protocol, the length, the cookies and the query parameters come from the
  parsed request; a header map has canonical keys, as the server builds it.
\<close>

record request_map =
  rm_method :: string
  rm_host :: string
  rm_path :: string
  rm_query :: string
  rm_uri :: string
  rm_proto :: string
  rm_scheme :: string
  rm_remote_ip :: string
  rm_country :: string
  rm_asn :: int
  rm_content_length :: int
  rm_headers :: "string \<rightharpoonup> string"
  rm_cookies :: "string \<rightharpoonup> string"
  rm_args :: "string \<rightharpoonup> string"
  rm_user_agent :: string
  rm_referer :: string
  rm_body :: string

definition request_scheme :: "HttpRequest \<Rightarrow> string" where
  "request_scheme r =
     (let v = headerFirst (hr_Header r) XFP
      in if v \<noteq> '''' then v else if hr_TLS r then ''https'' else ''http'')"

definition lower_headers :: "Header \<Rightarrow> string \<rightharpoonup> string" where
  "lower_headers h key =
     (if ToLower key \<noteq> key then None
      else case h (CanonicalHeaderKey key) of Some (v # _) \<Rightarrow> Some v | _ \<Rightarrow> None)"

fun cookie_map :: "(string \<times> string) list \<Rightarrow> (string \<rightharpoonup> string) \<Rightarrow> string \<rightharpoonup> string" where
  "cookie_map [] m = m"
| "cookie_map ((k, v) # cs) m = cookie_map cs (m(k \<mapsto> v))"

definition first_args :: "(string \<rightharpoonup> string list) \<Rightarrow> string \<rightharpoonup> string" where
  "first_args q k = (case q k of Some (v # _) \<Rightarrow> Some v | _ \<Rightarrow> None)"

definition buildRequestMap ::
  "HttpRequest \<Rightarrow> string \<Rightarrow> int \<Rightarrow> (string \<times> string) list \<Rightarrow> (string \<rightharpoonup> string list) \<Rightarrow> string \<Rightarrow> string \<Rightarrow> int
     \<Rightarrow> request_map" where
  "buildRequestMap r proto len cookies query body country asn =
     \<lparr>rm_method = hr_Method r, rm_host = hr_Host r, rm_path = hr_Path r, rm_query = hr_RawQuery r, rm_uri = hr_URI r,
      rm_proto = proto, rm_scheme = request_scheme r, rm_remote_ip = waf_clientIP r, rm_country = country, rm_asn = asn,
      rm_content_length = len, rm_headers = lower_headers (hr_Header r), rm_cookies = cookie_map cookies Map.empty,
      rm_args = first_args query, rm_user_agent = header_Get (hr_Header r) ''User-Agent'',
      rm_referer = header_Get (hr_Header r) ''Referer'', rm_body = body\<rparr>"

text \<open>
  The cookie a rule sees is the last of its name, where a handler that asks \<^verbatim>\<open>net/http\<close> for the cookie
  gets the first.
\<close>

definition http_Cookie :: "(string \<times> string) list \<Rightarrow> string \<Rightarrow> string option" where
  "http_Cookie cookies name = map_option snd (List.find (\<lambda>x. fst x = name) cookies)"

lemma find_snoc:
  "List.find P (xs @ [y]) = (case List.find P xs of Some z \<Rightarrow> Some z | None \<Rightarrow> if P y then Some y else None)"
  by (induction xs) auto

lemma cookie_map_last:
  "cookie_map cookies m name =
     (case List.find (\<lambda>x. fst x = name) (rev cookies) of Some x \<Rightarrow> Some (snd x) | None \<Rightarrow> m name)"
proof (induction cookies m arbitrary: name rule: cookie_map.induct)
  case (2 k v cs m)
  show ?case
    unfolding cookie_map.simps 2 by (simp add: find_snoc split: option.split)
qed simp

lemma waf_duplicate_cookie:
  "rm_cookies (buildRequestMap r p n [(''sid'', ''attack''), (''sid'', ''ok'')] q b c a) ''sid'' = Some ''ok'' \<and>
   http_Cookie [(''sid'', ''attack''), (''sid'', ''ok'')] ''sid'' = Some ''attack''"
  by (simp add: buildRequestMap_def http_Cookie_def)

section \<open>Predicates\<close>

record predicateConfig =
  pd_costLimit :: nat
  pd_evalTimeout :: int
  pd_disableMacros :: bool

record 'p Predicate =
  pr_prg :: 'p
  pr_expression :: string
  pr_evalTimeout :: int

definition defaultEvalTimeout :: int where
  "defaultEvalTimeout = 5 * 10 ^ 6"

definition WithPredicateCostLimit :: "nat \<Rightarrow> predicateConfig \<Rightarrow> predicateConfig" where
  "WithPredicateCostLimit n c = c\<lparr>pd_costLimit := n\<rparr>"

definition WithPredicateEvalTimeout :: "int \<Rightarrow> predicateConfig \<Rightarrow> predicateConfig" where
  "WithPredicateEvalTimeout d c = c\<lparr>pd_evalTimeout := d\<rparr>"

definition WithPredicateDisableMacros :: "predicateConfig \<Rightarrow> predicateConfig" where
  "WithPredicateDisableMacros c = c\<lparr>pd_disableMacros := True\<rparr>"

definition predicate_config :: "(predicateConfig \<Rightarrow> predicateConfig) list \<Rightarrow> predicateConfig" where
  "predicate_config opts =
     (let cfg = fold (\<lambda>f c. f c) opts \<lparr>pd_costLimit = 1000000, pd_evalTimeout = defaultEvalTimeout, pd_disableMacros = False\<rparr>
      in cfg\<lparr>pd_costLimit := if pd_costLimit cfg = 0 then 1000000 else pd_costLimit cfg,
             pd_evalTimeout := if pd_evalTimeout cfg \<le> 0 then defaultEvalTimeout else pd_evalTimeout cfg\<rparr>)"

definition NewPredicate ::
  "('ast, 'p) cel \<Rightarrow> string \<Rightarrow> (predicateConfig \<Rightarrow> predicateConfig) list \<Rightarrow> 'p Predicate option" where
  "NewPredicate C expr opts =
     (let cfg = predicate_config opts
      in if expr = '''' then None
         else if \<not> cel_env C (pd_disableMacros cfg) then None
         else case cel_Compile C (pd_disableMacros cfg) expr of
                None \<Rightarrow> None
              | Some ast \<Rightarrow>
                  if \<not> cel_is_bool C ast then None
                  else case cel_Program C (pd_costLimit cfg) ast of
                         None \<Rightarrow> None
                       | Some prg \<Rightarrow> Some \<lparr>pr_prg = prg, pr_expression = expr, pr_evalTimeout = pd_evalTimeout cfg\<rparr>)"

definition Predicate_Eval :: "('p \<Rightarrow> cel_result) \<Rightarrow> 'p Predicate \<Rightarrow> bool \<times> bool" where
  "Predicate_Eval ev p = evalProgram (ev (pr_prg p))"

text \<open>
  A predicate is what a rule of the same expression is: it exists exactly when the rule loads, with the
  same program, and it is bounded by a positive timeout.
\<close>

theorem predicate_is_rule:
  assumes "wf_DisableMacros w = pd_disableMacros (predicate_config opts)"
    and "costLimit (wf_CostLimit w) = pd_costLimit (predicate_config opts)"
    and "ru_ID r \<noteq> ''''" and "ru_Expression r = expr"
  shows "(\<exists>p. NewPredicate C expr opts = Some p) \<longleftrightarrow> loadable C [r] w"
    and "NewPredicate C expr opts = Some p \<Longrightarrow> pr_prg p = cr_prg (compiled C w r) \<and> 0 < pr_evalTimeout p"
proof -
  show "(\<exists>p. NewPredicate C expr opts = Some p) \<longleftrightarrow> loadable C [r] w"
    using assms by (auto simp: NewPredicate_def Let_def loadable_def compile_rule_def split: option.splits)
  show "NewPredicate C expr opts = Some p \<Longrightarrow> pr_prg p = cr_prg (compiled C w r) \<and> 0 < pr_evalTimeout p"
    using assms
    by (auto simp: NewPredicate_def Let_def compiled_def compile_rule_def predicate_config_def defaultEvalTimeout_def
        split: option.splits if_splits)
qed

end
