(* ===== verification/Redis_Window.thy ===== *)
theory Redis_Window
  imports Go_Strings
begin

text \<open>
  The fixed window shared through Redis (\<^verbatim>\<open>pkg/ratelimit/redis.go\<close>). The store runs the script of the
  source as one step: it counts a key and gives it a lifetime when it is new. Proxies have clocks of
  their own; the store has its own too. A call may fail before or after the script has run.
\<close>

section \<open>The strategy\<close>

record RedisFixedWindowStrategy =
  rf_Runner :: bool
  rf_Max :: int
  rf_Size :: int
  rf_Prefix :: string
  rf_FailOpen :: bool

definition RedisFixedWindow :: "int \<Rightarrow> int \<Rightarrow> RedisFixedWindowStrategy" where
  "RedisFixedWindow rate unit =
     \<lparr>rf_Runner = True, rf_Max = rate, rf_Size = unit, rf_Prefix = '''', rf_FailOpen = True\<rparr>"

definition rf_size :: "RedisFixedWindowStrategy \<Rightarrow> int" where
  "rf_size b = (if rf_Size b \<le> 0 then 10 ^ 9 else rf_Size b)"

definition rf_prefix :: "RedisFixedWindowStrategy \<Rightarrow> string" where
  "rf_prefix b = (if rf_Prefix b = '''' then ''parapet:rl:'' else rf_Prefix b)"

text \<open>The store: a count and the moment the key expires, in milliseconds.\<close>

type_synonym rstore = "string \<rightharpoonup> int \<times> int"

definition fixedWindowScript :: "int \<Rightarrow> string \<Rightarrow> int \<Rightarrow> rstore \<Rightarrow> int \<times> rstore" where
  "fixedWindowScript now key ttl st =
     (case st key of
        Some (n, e) \<Rightarrow> if now < e then (n + 1, st(key \<mapsto> (n + 1, e))) else (1, st(key \<mapsto> (1, now + ttl)))
      | None \<Rightarrow> (1, st(key \<mapsto> (1, now + ttl))))"

datatype reply = Answered | LostBefore | LostAfter

definition rf_key :: "RedisFixedWindowStrategy \<Rightarrow> int \<Rightarrow> string \<Rightarrow> string" where
  "rf_key b clock key = rf_prefix b @ key @ '':'' @ FormatInt (clock sdiv rf_size b)"

definition rf_ttl :: "RedisFixedWindowStrategy \<Rightarrow> int" where
  "rf_ttl b = rf_size b sdiv 10 ^ 6 + 1000"

text \<open>One \<^verbatim>\<open>Take\<close>: the proxy's clock in nanoseconds, the store's in milliseconds, and how the call goes.\<close>

definition redis_Take ::
  "RedisFixedWindowStrategy \<Rightarrow> int \<Rightarrow> int \<Rightarrow> reply \<Rightarrow> string \<Rightarrow> rstore \<Rightarrow> bool \<times> rstore" where
  "redis_Take b clock now rep key st =
     (if \<not> rf_Runner b then (rf_FailOpen b, st)
      else case fixedWindowScript now (rf_key b clock key) (rf_ttl b) st of (n, st') \<Rightarrow>
        (case rep of
           Answered \<Rightarrow> (n \<le> rf_Max b, st')
         | LostBefore \<Rightarrow> (rf_FailOpen b, st)
         | LostAfter \<Rightarrow> (rf_FailOpen b, st')))"

definition redis_After :: "RedisFixedWindowStrategy \<Rightarrow> int \<Rightarrow> int" where
  "redis_After b clock = (clock sdiv rf_size b + 1) * rf_size b - clock"

section \<open>Keys and waiting\<close>

lemma rf_size_pos: "0 < rf_size b"
  by (simp add: rf_size_def)

text \<open>Waiting as long as told reaches the next window, and no earlier time does.\<close>

lemma redis_After_window:
  assumes "0 \<le> clock"
  shows "0 < redis_After b clock \<and> redis_After b clock \<le> rf_size b \<and>
    (clock + redis_After b clock) sdiv rf_size b = clock sdiv rf_size b + 1 \<and>
    (0 \<le> d \<and> d < redis_After b clock \<longrightarrow> (clock + d) sdiv rf_size b = clock sdiv rf_size b)"
proof -
  let ?s = "rf_size b"
  let ?e = "clock div ?s"
  have s: "0 < ?s" by (rule rf_size_pos)
  have e: "?e * ?s \<le> clock" "clock < (?e + 1) * ?s" "0 \<le> ?e"
    using s assms by (simp_all add: pos_imp_zdiv_nonneg_iff minus_mod_eq_div_mult [symmetric] distrib_right)
  have q: "clock sdiv ?s = ?e"
    using assms s by (simp add: sdiv_pos)
  have a: "redis_After b clock = (?e + 1) * ?s - clock"
    by (simp add: redis_After_def q)
  have "(clock + redis_After b clock) sdiv ?s = ?e + 1"
    using e s unfolding a by (simp add: sdiv_pos)
  moreover have "(clock + d) sdiv ?s = ?e" if "0 \<le> d" "d < redis_After b clock"
  proof -
    have "(clock + d) div ?s = ?e"
      using that e s unfolding a by (intro int_div_pos_eq [of _ _ _ "clock + d - ?e * ?s"]) (simp_all add: algebra_simps)
    then show ?thesis
      using that assms s by (simp add: sdiv_pos)
  qed
  ultimately show ?thesis
    using e unfolding q a by (simp add: distrib_right)
qed

lemma FormatInt_no_colon: "CHR '':'' \<notin> set (FormatInt n)"
proof -
  have "CHR '':'' \<notin> set (nat_digits k)" for k
    using nat_digits_digit [of k] by (auto simp: list_all_iff is_digit_def byte_def)
  then show ?thesis by (simp add: FormatInt_def)
qed

lemma nat_digits_inj: "nat_digits i = nat_digits k \<Longrightarrow> i = k"
  by (metis digits_val_nat_digits of_nat_eq_iff)

lemma nat_digits_no_sign: "nat_digits i \<noteq> CHR ''-'' # s"
  using nat_digits_hd [of i] by (metis list.sel(1))

lemma FormatInt_inj:
  assumes "FormatInt m = FormatInt n"
  shows "m = n"
proof (cases "m < 0 \<longleftrightarrow> n < 0")
  case True
  then have "nat \<bar>m\<bar> = nat \<bar>n\<bar>"
    using assms by (intro nat_digits_inj) (auto simp: FormatInt_def abs_if split: if_splits)
  with True show ?thesis by auto
next
  case False
  then show ?thesis
    using assms nat_digits_no_sign unfolding FormatInt_def by (metis (full_types))
qed

lemma last_sep_unique:
  assumes "a @ c # x = b @ c # y" and "c \<notin> set x" and "c \<notin> set y"
  shows "a = b \<and> x = y"
proof -
  obtain us where "(a = b @ us \<and> us @ c # x = c # y) \<or> (a @ us = b \<and> c # x = us @ c # y)"
    using assms(1) by (auto simp: append_eq_append_conv2)
  then show ?thesis
    using assms(2,3) by (cases us) auto
qed

text \<open>No two clients and no two windows share a key.\<close>

lemma rf_key_inj:
  "rf_key b c k = rf_key b c' k' \<longleftrightarrow> k = k' \<and> c sdiv rf_size b = c' sdiv rf_size b"
proof
  assume "rf_key b c k = rf_key b c' k'"
  then have "k @ CHR '':'' # FormatInt (c sdiv rf_size b) = k' @ CHR '':'' # FormatInt (c' sdiv rf_size b)"
    by (simp add: rf_key_def)
  from last_sep_unique [OF this FormatInt_no_colon FormatInt_no_colon]
  show "k = k' \<and> c sdiv rf_size b = c' sdiv rf_size b"
    by (auto dest: FormatInt_inj)
qed (simp add: rf_key_def)

section \<open>One limit for all proxies\<close>

text \<open>A call: the proxy's clock, the store's, how it goes, and the client.\<close>

type_synonym rcall = "int \<times> int \<times> reply \<times> string"

fun redis_admitted :: "RedisFixedWindowStrategy \<Rightarrow> string \<Rightarrow> rcall list \<Rightarrow> rstore \<Rightarrow> nat" where
  "redis_admitted b K [] st = 0"
| "redis_admitted b K ((clock, now, rep, key) # cs) st =
     (case redis_Take b clock now rep key st of (ok, st') \<Rightarrow>
        (if rep = Answered \<and> ok \<and> rf_key b clock key = K then 1 else 0) + redis_admitted b K cs st')"

fun calls_for :: "RedisFixedWindowStrategy \<Rightarrow> string \<Rightarrow> rcall list \<Rightarrow> nat" where
  "calls_for b K [] = 0"
| "calls_for b K ((clock, now, rep, key) # cs) = (if rf_key b clock key = K then 1 else 0) + calls_for b K cs"

text \<open>The store counts \<^verbatim>\<open>n\<close> for the key, and will not forget it before the given moment.\<close>

definition counted :: "string \<Rightarrow> int \<Rightarrow> rstore \<Rightarrow> nat \<Rightarrow> bool" where
  "counted K until st n \<longleftrightarrow> (case st K of None \<Rightarrow> n = 0 | Some (m, e) \<Rightarrow> m = int n \<and> until \<le> e \<and> 0 < n)"

lemma script_counts:
  assumes "counted K until st n" and "now < until" and "until \<le> now + ttl"
  shows "fst (fixedWindowScript now K ttl st) = int (n + 1) \<and> counted K until (snd (fixedWindowScript now K ttl st)) (n + 1)"
  using assms by (auto simp: counted_def fixedWindowScript_def split: option.splits)

lemma script_other: "K' \<noteq> K \<Longrightarrow> counted K until (snd (fixedWindowScript now K' ttl st)) n = counted K until st n"
  by (auto simp: counted_def fixedWindowScript_def split: option.splits prod.splits)

lemma admitted_bound:
  assumes "counted K (t0 + rf_ttl b) st n" and "rf_Runner b"
    and "\<forall>(clock, now, rep, key) \<in> set cs. t0 \<le> now \<and> now < t0 + rf_ttl b"
  shows "redis_admitted b K cs st \<le> nat (rf_Max b) - n \<and>
    ((\<forall>(clock, now, rep, key) \<in> set cs. rep = Answered) \<longrightarrow>
       redis_admitted b K cs st = min (nat (rf_Max b) - n) (calls_for b K cs))"
  using assms
proof (induction cs arbitrary: st n)
  case (Cons c cs)
  obtain clock now rep key where c: "c = (clock, now, rep, key)" by (cases c) auto
  let ?st' = "snd (fixedWindowScript now (rf_key b clock key) (rf_ttl b) st)"
  let ?v = "fst (fixedWindowScript now (rf_key b clock key) (rf_ttl b) st)"
  have t: "now < t0 + rf_ttl b" "t0 + rf_ttl b \<le> now + rf_ttl b"
    using Cons.prems(3) c by auto
  have rest: "\<forall>(clock, now, rep, key) \<in> set cs. t0 \<le> now \<and> now < t0 + rf_ttl b"
    using Cons.prems(3) by simp
  let ?next = "if rep = LostBefore then st else ?st'"
  have step: "redis_admitted b K (c # cs) st =
      (if rep = Answered \<and> ?v \<le> rf_Max b \<and> rf_key b clock key = K then 1 else 0) + redis_admitted b K cs ?next"
    using Cons.prems(2) by (cases rep) (simp_all add: c redis_Take_def case_prod_beta)
  show ?case
  proof (cases "rf_key b clock key = K")
    case True
    let ?n = "if rep = LostBefore then n else n + 1"
    have k: "?v = int (n + 1)" "counted K (t0 + rf_ttl b) ?next ?n"
      using script_counts [OF Cons.prems(1) t] True Cons.prems(1) by simp_all
    have "nat (rf_Max b) - n = Suc (nat (rf_Max b) - Suc n)" if "1 + int n \<le> rf_Max b"
      using that by arith
    then show ?thesis
      using Cons.IH [OF k(2) Cons.prems(2) rest] True k(1) unfolding step by (cases rep) (auto simp: c)
  next
    case False
    have "counted K (t0 + rf_ttl b) ?next n"
      using script_other [OF False, of "t0 + rf_ttl b" now "rf_ttl b" st n] Cons.prems(1) by simp
    from Cons.IH [OF this Cons.prems(2) rest] show ?thesis
      using False unfolding step by (auto simp: c)
  qed
qed simp

text \<open>
  C4. However many proxies call, and whatever calls fail, the answers of the store admit a client at most
  the configured number of times in a window, as long as the calls of the window reach the store within
  its length and one second; with no failures they admit exactly that many, or all.
\<close>

theorem redis_global_limit:
  assumes "rf_Runner b" and "st (rf_key b clock0 key0) = None"
    and "\<forall>(clock, now, rep, key) \<in> set cs. t0 \<le> now \<and> now < t0 + rf_size b sdiv 10 ^ 6 + 1000"
  shows "redis_admitted b (rf_key b clock0 key0) cs st \<le> nat (rf_Max b) \<and>
    ((\<forall>(clock, now, rep, key) \<in> set cs. rep = Answered) \<longrightarrow>
       redis_admitted b (rf_key b clock0 key0) cs st = min (nat (rf_Max b)) (calls_for b (rf_key b clock0 key0) cs))"
proof -
  have "counted (rf_key b clock0 key0) (t0 + rf_ttl b) st 0"
    using assms(2) by (simp add: counted_def)
  moreover have "\<forall>(clock, now, rep, key) \<in> set cs. t0 \<le> now \<and> now < t0 + rf_ttl b"
    using assms(3) by (simp add: rf_ttl_def add.assoc)
  ultimately show ?thesis
    using admitted_bound [of "rf_key b clock0 key0" t0 b st 0 cs] assms(1) by simp
qed

theorem redis_global_limit_witness:
  "redis_admitted (RedisFixedWindow 2 (10 ^ 9)) (rf_key (RedisFixedWindow 2 (10 ^ 9)) 5 ''c'')
     [(5, 0, Answered, ''c''), (7, 1, Answered, ''c''), (8, 1, Answered, ''d''), (9, 2, Answered, ''c'')] Map.empty = 2"
proof -
  let ?b = "RedisFixedWindow 2 (10 ^ 9)"
  let ?cs = "[(5, 0, Answered, ''c''), (7, 1, Answered, ''c''), (8, 1, Answered, ''d''), (9, 2, Answered, ''c'')]"
  have s: "rf_size ?b = 10 ^ 9" by (simp add: RedisFixedWindow_def rf_size_def)
  have "calls_for ?b (rf_key ?b 5 ''c'') ?cs = 3"
    unfolding calls_for.simps rf_key_inj s by (simp add: sdiv_pos)
  then show ?thesis
    using redis_global_limit [of ?b Map.empty 5 "''c''" ?cs 0] unfolding s
    by (simp add: RedisFixedWindow_def sdiv_pos)
qed

text \<open>
  Outside that bound the limit does not hold: a proxy whose clock is more than a second behind may come
  back to a window whose key the store has dropped, and be admitted afresh.
\<close>

lemma redis_skew_admits_again:
  "let b = \<lparr>rf_Runner = True, rf_Max = 1, rf_Size = 10 ^ 9, rf_Prefix = ''p'', rf_FailOpen = False\<rparr>
   in redis_admitted b (rf_key b 5 ''c'') [(5, 0, Answered, ''c''), (5, 2000, Answered, ''c'')] Map.empty = 2"
  by (simp add: redis_Take_def fixedWindowScript_def rf_key_def rf_ttl_def rf_size_def sdiv_pos)

end
