(* ===== verification/Spec2Isabelle.thy ===== *)
theory Spec2Isabelle
  imports Fixed_Window Concurrent_Limit Concurrent_Queue Leaky_Bucket Sliding_Window Round_Robin
    Weighted_Round_Robin Ejecting Circuit_Interleaving Least_Conn Latency_Ejecting Health_Check Hedging Cache_Serve Cache_Flight Cache_Disk Compression Timeout_Layer Proxy_Protocol Waf Redis_Window
begin

text \<open>Verification of parapet.\<close>

end
